theory Spec2Isabelle
  imports Main "HOL-Library.Signed_Division"
begin

section \<open>The Splunk log driver: daemon/logger/splunk/splunk.go\<close>

text \<open>
  The driver queues formatted records on a channel; one background worker collects them
  in a slice and posts them to the HTTP Event Collector in chunks. The model keeps the
  source's names. Go's \<open>int\<close> is modelled by \<open>int\<close>: the only arithmetic on it is
  \<open>i + postMessagesBatchSize\<close> with \<open>0 \<le> i < len(messages)\<close> and a batch size parsed as a
  32-bit number, which cannot leave the 64-bit range. Byte slices and strings are
  \<open>string\<close>.
\<close>

subsection \<open>Errors, panics and the daemon log\<close>

datatype error =
    DriverClosed
  | FailedToSendEvent string string
  | FailedToVerifyConnection string string
  | CannotAccessHostname
  | OptionExpected string
  | FailedToParseURL string
  | ExpectedURLFormat
  | NotSupportedLevel string
  | UnknownFormat string
  | GzipInvalidLevel int
  | LibError string

text \<open>
  \<open>DriverClosed\<close> is \<open>"splunk: driver is closed"\<close>; \<open>FailedToSendEvent status body\<close> is
  \<open>"splunk: failed to send event - status - body"\<close>; \<open>GzipInvalidLevel\<close> is the error of
  \<open>gzip.NewWriterLevel\<close>; \<open>LibError\<close> stands for an error value produced inside a library
  (encoding/json, net/http, io, strconv, os, uuid).
\<close>

datatype panic =
    SliceBoundsOutOfRange
  | IntegerDivideByZero
  | MakechanSizeOutOfRange
  | SendOnClosedChannel
  | CloseOfClosedChannel
  | NilPointerDereference
  | NonPositiveTickerInterval

datatype log_entry =
    WarnErrorWhileSendingLogs error
  | ErrorFailedToEncode error
  | ErrorFailedToSend string
  | ErrorFailedToParseDuration string int error
  | ErrorFailedToParseInteger string int error

text \<open>
  The entries the driver writes to the daemon log: the warning of line 430, the two
  per-record entries of lines 440 and 442 (the second carries the record's JSON in its
  \<open>message\<close> field), and the parse failures of an advanced option (lines 639 and 652: the
  variable's name, the default that is used, and the error of the parser).
\<close>

subsection \<open>Records on the wire\<close>

datatype event_line = NilLine | LineString string | LineRawJSON string

record splunkMessageEvent =
  ev_Line :: event_line
  ev_Source :: string
  ev_Tag :: string
  ev_Attrs :: "(string \<times> string) list"

datatype event = NilEvent | EventString string | EventStruct splunkMessageEvent

record splunkMessage =
  msg_Event :: event
  msg_Time :: string
  msg_Host :: string
  msg_Source :: string
  msg_SourceType :: string
  msg_Index :: string

record http_request =
  req_method :: string
  req_url :: string
  req_headers :: "(string \<times> string) list"
  req_body :: string

text \<open>
  A response body is an \<open>io.Reader\<close>: the bytes it delivers, and how it ends. It ends with
  the end of the stream or with a read error, and \<open>io.Reader\<close> leaves it to the reader
  whether \<open>Read\<close> returns the error together with the last bytes or on the call after
  them. A reader reports its end only once it has delivered all its bytes: a \<open>Read\<close> that is
  asked for fewer bytes than remain returns bytes and no error.
\<close>

datatype body_end = EndOfBody | FailsWithLastBytes error | FailsAtNextRead error

datatype resp_body = RespBody string body_end

record http_response =
  StatusCode :: int
  Status :: string
  Body :: resp_body

subsection \<open>Libraries and the outside world\<close>

text \<open>
  What the driver calls and does not define is a parameter: \<open>json.Marshal\<close>, the bytes a
  \<open>gzip.Writer\<close> of a given level leaves in its buffer once the writes it has received (a
  list, oldest first) have been flushed by \<open>Close\<close>, the error of \<open>http.NewRequest\<close> for a
  method and URL,
  \<open>uuid.NewRandom\<close> and \<open>http.Client.Do\<close>, which depend on, and change, the state \<open>'w\<close> of
  everything outside the driver (the collector, the network, the random source),
  \<open>strings.TrimSpace\<close>, and the text \<open>fmt.Sprintf("%f", ...)\<close> gives for a time in
  nanoseconds divided by a second (a floating point division).
\<close>

record 'w env =
  json_Marshal :: "splunkMessage \<Rightarrow> error + string"
  gzip_output :: "int \<Rightarrow> string list \<Rightarrow> string"
  http_NewRequest_error :: "string \<Rightarrow> string \<Rightarrow> error option"
  uuid_NewRandom :: "'w \<Rightarrow> (error + string) \<times> 'w"
  client_Do :: "'w \<Rightarrow> http_request \<Rightarrow> (error + http_response) \<times> 'w"
  strings_TrimSpace :: "string \<Rightarrow> string"
  sprintf_seconds :: "int \<Rightarrow> string"

text \<open>
  The effects of the driver: the outside world, the requests handed to \<open>client.Do\<close>
  (oldest first) and the daemon log (oldest first).
\<close>

record 'w sys =
  world :: 'w
  requests :: "http_request list"
  dlog :: "log_entry list"

text \<open>The fields of \<open>splunkLogger\<close> that are fixed once \<open>New\<close> has returned.\<close>

record splunkLogger =
  url :: string
  auth :: string
  nullMessage :: splunkMessage
  gzipCompression :: bool
  gzipCompressionLevel :: int
  postMessagesFrequency :: int
  postMessagesBatchSize :: int
  bufferMaximum :: int
  indexAck :: bool
  streamChannelSize :: int

definition maxResponseSize :: nat where
  "maxResponseSize = 1024"

definition gzip_HuffmanOnly :: int where
  "gzip_HuffmanOnly = - 2"

definition gzip_DefaultCompression :: int where
  "gzip_DefaultCompression = - 1"

definition gzip_BestCompression :: int where
  "gzip_BestCompression = 9"

definition http_StatusOK :: int where
  "http_StatusOK = 200"

subsection \<open>tryPostMessages (lines 455 to 527)\<close>

text \<open>
  Lines 474 to 482: every record is marshalled and written to the writer, in order; the
  first marshalling error ends the send. \<open>written\<close> holds the writes the writer has
  received so far, oldest first. A write to a \<open>bytes.Buffer\<close>, directly or through a \<open>gzip.Writer\<close> on top of it,
  reports no error, so the branch of line 479 is never taken.
\<close>

fun writeMessages ::
  "'w env \<Rightarrow> splunkMessage list \<Rightarrow> string list \<Rightarrow> error + string list" where
  "writeMessages E [] written = Inr written"
| "writeMessages E (message # messages) written =
     (case json_Marshal E message of
        Inl err \<Rightarrow> Inl err
      | Inr jsonEvent \<Rightarrow> writeMessages E messages (written @ [jsonEvent]))"

text \<open>
  Lines 459 to 489: the bytes of the request body. \<open>gzip.NewWriterLevel\<close> refuses a level
  outside \<open>HuffmanOnly .. BestCompression\<close>; with compression the buffer holds the gzip
  stream of the writes, without it the written bytes themselves, one write after the other.
\<close>

definition requestBody :: "'w env \<Rightarrow> splunkLogger \<Rightarrow> splunkMessage list \<Rightarrow> error + string" where
  "requestBody E l messages =
     (if gzipCompression l \<and>
         (gzipCompressionLevel l < gzip_HuffmanOnly \<or> gzipCompressionLevel l > gzip_BestCompression)
      then Inl (GzipInvalidLevel (gzipCompressionLevel l))
      else
        (case writeMessages E messages [] of
           Inl err \<Rightarrow> Inl err
         | Inr written \<Rightarrow>
             Inr (if gzipCompression l then gzip_output E (gzipCompressionLevel l) written
                  else concat written)))"

text \<open>Lines 495 to 507: the headers, with a fresh request channel when acknowledgment is on.\<close>

definition requestHeaders ::
  "'w env \<Rightarrow> splunkLogger \<Rightarrow> 'w \<Rightarrow> (error + (string \<times> string) list) \<times> 'w" where
  "requestHeaders E l w =
     (let hs = [(''Authorization'', auth l)] @
               (if gzipCompression l then [(''Content-Encoding'', ''gzip'')] else [])
      in if indexAck l then
           (case uuid_NewRandom E w of
              (Inl err, w') \<Rightarrow> (Inl err, w')
            | (Inr requestChannel, w') \<Rightarrow>
                (Inr (hs @ [(''X-Splunk-Request-Channel'', requestChannel)]), w'))
         else (Inr hs, w))"

text \<open>
  Lines 459 to 511: build the request and hand it to the client. The result is the
  response, or the error that ended the attempt before there was one.
\<close>

definition doRequest ::
  "'w env \<Rightarrow> splunkLogger \<Rightarrow> splunkMessage list \<Rightarrow> 'w sys \<Rightarrow> (error + http_response) \<times> 'w sys" where
  "doRequest E l messages s =
     (case requestBody E l messages of
        Inl err \<Rightarrow> (Inl err, s)
      | Inr buffer \<Rightarrow>
          (case http_NewRequest_error E ''POST'' (url l) of
             Some err \<Rightarrow> (Inl err, s)
           | None \<Rightarrow>
               (case requestHeaders E l (world s) of
                  (Inl err, w) \<Rightarrow> (Inl err, s\<lparr>world := w\<rparr>)
                | (Inr hs, w) \<Rightarrow>
                    (let req = \<lparr>req_method = ''POST'', req_url = url l,
                                req_headers = hs, req_body = buffer\<rparr>
                     in case client_Do E w req of
                          (r, w') \<Rightarrow> (r, s\<lparr>world := w', requests := requests s @ [req]\<rparr>)))))"

text \<open>
  \<open>io.ReadAll(io.LimitReader(body, n))\<close>. The limited reader asks the body for no more than
  the bytes still allowed and hands on what \<open>Read\<close> returns, bytes and error; once \<open>n\<close> bytes
  have been read it reports the end of the stream without reading further. \<open>ReadAll\<close> stops
  at the first error and returns it, unless it is the end of the stream. So a read error
  is the result when it comes before \<open>n\<close> bytes have been read, and also when it comes with
  the \<open>Read\<close> that delivers the last of the \<open>n\<close> bytes; an error that would come from a later
  \<open>Read\<close> is never seen.
\<close>

fun readAllLimited :: "resp_body \<Rightarrow> nat \<Rightarrow> error + string" where
  "readAllLimited (RespBody bytes ending) n =
     (if n = 0 then Inr []
      else if n < length bytes then Inr (take n bytes)
      else if n = length bytes then
        (case ending of
           EndOfBody \<Rightarrow> Inr bytes
         | FailsWithLastBytes err \<Rightarrow> Inl err
         | FailsAtNextRead err \<Rightarrow> Inr bytes)
      else
        (case ending of
           EndOfBody \<Rightarrow> Inr bytes
         | FailsWithLastBytes err \<Rightarrow> Inl err
         | FailsAtNextRead err \<Rightarrow> Inl err))"

text \<open>Lines 518 to 526. Draining and closing the body (lines 512 to 517) frees the
  connection and has no effect on the result.\<close>

definition checkResponse :: "http_response \<Rightarrow> error option" where
  "checkResponse resp =
     (if StatusCode resp \<noteq> http_StatusOK then
        (case readAllLimited (Body resp) maxResponseSize of
           Inl err \<Rightarrow> Some err
         | Inr body \<Rightarrow> Some (FailedToSendEvent (Status resp) body))
      else None)"

definition tryPostMessages ::
  "'w env \<Rightarrow> splunkLogger \<Rightarrow> splunkMessage list \<Rightarrow> 'w sys \<Rightarrow> error option \<times> 'w sys" where
  "tryPostMessages E l messages s =
     (if length messages = 0 then (None, s)
      else
        (case doRequest E l messages s of
           (Inl err, s') \<Rightarrow> (Some err, s')
         | (Inr resp, s') \<Rightarrow> (checkResponse resp, s')))"

subsection \<open>postMessages (lines 418 to 453)\<close>

text \<open>
  A slice expression \<open>xs[lo:hi]\<close> panics unless \<open>0 \<le> lo \<le> hi \<le> cap(xs)\<close>. Every bound the
  driver uses is at most \<open>len(xs)\<close>, so the model checks against the length.
\<close>

definition go_slice :: "'a list \<Rightarrow> int \<Rightarrow> int \<Rightarrow> 'a list option" where
  "go_slice xs lo hi =
     (if 0 \<le> lo \<and> lo \<le> hi \<and> hi \<le> int (length xs)
      then Some (take (nat (hi - lo)) (drop (nat lo) xs))
      else None)"

text \<open>Lines 439 to 443: the entry written for one record that could not be sent.\<close>

definition unsentEntry :: "'w env \<Rightarrow> splunkMessage \<Rightarrow> log_entry" where
  "unsentEntry E message =
     (case json_Marshal E message of
        Inl err \<Rightarrow> ErrorFailedToEncode err
      | Inr jsonEvent \<Rightarrow> ErrorFailedToSend jsonEvent)"

text \<open>
  Lines 438 to 444: the loop over \<open>j\<close>. It runs with \<open>0 \<le> i \<le> j < upperBound \<le> len(messages)\<close>,
  so \<open>messages[j]\<close> is in range.
\<close>

function logUnsent ::
  "'w env \<Rightarrow> splunkMessage list \<Rightarrow> int \<Rightarrow> int \<Rightarrow> log_entry list \<Rightarrow> log_entry list" where
  "logUnsent E messages j upperBound entries =
     (if j < upperBound
      then logUnsent E messages (j + 1) upperBound
             (entries @ [unsentEntry E (messages ! nat j)])
      else entries)"
  by pat_completeness auto
termination
  by (relation "measure (\<lambda>(E, messages, j, upperBound, entries). nat (upperBound - j))") auto

declare logUnsent.simps [simp del]

text \<open>Lines 424 to 427: the end of the chunk that starts at offset \<open>i\<close>.\<close>

definition upperBoundAt :: "splunkLogger \<Rightarrow> splunkMessage list \<Rightarrow> int \<Rightarrow> int" where
  "upperBoundAt l messages i =
     (if i + postMessagesBatchSize l > int (length messages) then int (length messages)
      else i + postMessagesBatchSize l)"

text \<open>
  Lines 430 to 448: what the function does once the send of the chunk
  \<open>messages[i:upperBound]\<close> has failed with \<open>err\<close>, leaving the effects \<open>s1\<close>.
\<close>

definition sendFailed ::
  "'w env \<Rightarrow> splunkLogger \<Rightarrow> splunkMessage list \<Rightarrow> bool \<Rightarrow> int \<Rightarrow> int \<Rightarrow> error \<Rightarrow> 'w sys
     \<Rightarrow> panic + splunkMessage list \<times> 'w sys" where
  "sendFailed E l messages lastChance i upperBound err s1 =
     (let messagesLen = int (length messages);
          s2 = s1\<lparr>dlog := dlog s1 @ [WarnErrorWhileSendingLogs err]\<rparr>
      in if messagesLen - i \<ge> bufferMaximum l \<or> lastChance then
           (let upperBound' = (if lastChance then messagesLen else upperBound);
                s3 = s2\<lparr>dlog := logUnsent E messages i upperBound' (dlog s2)\<rparr>
            in case go_slice messages upperBound' messagesLen of
                 None \<Rightarrow> Inl SliceBoundsOutOfRange
               | Some rest \<Rightarrow> Inr (rest, s3))
         else
           (case go_slice messages i messagesLen of
              None \<Rightarrow> Inl SliceBoundsOutOfRange
            | Some rest \<Rightarrow> Inr (rest, s2)))"

text \<open>
  The loop of lines 423 to 450, from offset \<open>i\<close>, and the return of line 452. With a
  batch size of zero the loop never advances and the function does not return: the
  result is \<open>None\<close>. With a negative batch size the first slice expression panics.
  Otherwise the result is the slice the function returns, with the effects of its sends
  and log calls.
\<close>

partial_function (option) postMessagesFrom ::
  "'w env \<Rightarrow> splunkLogger \<Rightarrow> splunkMessage list \<Rightarrow> bool \<Rightarrow> int \<Rightarrow> 'w sys
     \<Rightarrow> (panic + splunkMessage list \<times> 'w sys) option" where
  "postMessagesFrom E l messages lastChance i s =
     (if i < int (length messages) then
        (case go_slice messages i (upperBoundAt l messages i) of
           None \<Rightarrow> Some (Inl SliceBoundsOutOfRange)
         | Some chunk \<Rightarrow>
             (case tryPostMessages E l chunk s of
                (Some err, s1) \<Rightarrow>
                  Some (sendFailed E l messages lastChance i (upperBoundAt l messages i) err s1)
              | (None, s1) \<Rightarrow>
                  postMessagesFrom E l messages lastChance (i + postMessagesBatchSize l) s1))
      else
        (case go_slice messages 0 0 of
           None \<Rightarrow> Some (Inl SliceBoundsOutOfRange)
         | Some rest \<Rightarrow> Some (Inr (rest, s))))"

definition postMessages ::
  "'w env \<Rightarrow> splunkLogger \<Rightarrow> splunkMessage list \<Rightarrow> bool \<Rightarrow> 'w sys
     \<Rightarrow> (panic + splunkMessage list \<times> 'w sys) option" where
  "postMessages E l messages lastChance s = postMessagesFrom E l messages lastChance 0 s"

text \<open>
  \<open>chunksSent E l messages s0 i s\<close>: started with the effects \<open>s0\<close>, the loop of
  \<open>postMessages\<close> arrives at offset \<open>i\<close> with the effects \<open>s\<close>, every chunk before \<open>i\<close>
  having been sent with success.
\<close>

inductive chunksSent ::
  "'w env \<Rightarrow> splunkLogger \<Rightarrow> splunkMessage list \<Rightarrow> 'w sys \<Rightarrow> int \<Rightarrow> 'w sys \<Rightarrow> bool"
  for E l messages s0 where
    start: "chunksSent E l messages s0 0 s0"
  | sent: "chunksSent E l messages s0 i s \<Longrightarrow> i < int (length messages) \<Longrightarrow>
       go_slice messages i (upperBoundAt l messages i) = Some chunk \<Longrightarrow>
       tryPostMessages E l chunk s = (None, s') \<Longrightarrow>
       chunksSent E l messages s0 (i + postMessagesBatchSize l) s'"

code_pred chunksSent .

text \<open>
  How a call that returns has run: the loop arrived at some offset \<open>j\<close> after sending every
  chunk before it, and either \<open>j\<close> is past the end (everything was sent), or the send of
  the chunk at \<open>j\<close> failed and lines 430 to 448 produced the result.
\<close>

definition loopOutcome ::
  "'w env \<Rightarrow> splunkLogger \<Rightarrow> splunkMessage list \<Rightarrow> bool \<Rightarrow> 'w sys \<Rightarrow> splunkMessage list \<Rightarrow> 'w sys \<Rightarrow> bool" where
  "loopOutcome E l messages lastChance s0 rest s' \<longleftrightarrow>
     (\<exists>j sj. chunksSent E l messages s0 j sj \<and>
        ((int (length messages) \<le> j \<and> rest = [] \<and> s' = sj) \<or>
         (\<exists>chunk err s1. j < int (length messages) \<and>
            go_slice messages j (upperBoundAt l messages j) = Some chunk \<and>
            tryPostMessages E l chunk sj = (Some err, s1) \<and>
            sendFailed E l messages lastChance j (upperBoundAt l messages j) err s1 = Inr (rest, s'))))"

text \<open>The entries of the daemon log that stand for one record each (lines 440 and 442).\<close>

definition isRecordEntry :: "log_entry \<Rightarrow> bool" where
  "isRecordEntry entry =
     (case entry of ErrorFailedToEncode err \<Rightarrow> True | ErrorFailedToSend jsonEvent \<Rightarrow> True | _ \<Rightarrow> False)"

subsection \<open>Log of the raw format (lines 367 to 378)\<close>

record logMessage =
  lm_Line :: string
  lm_Source :: string
  lm_Timestamp :: int

text \<open>Lines 546 to 550.\<close>

definition createSplunkMessage :: "'w env \<Rightarrow> splunkLogger \<Rightarrow> logMessage \<Rightarrow> splunkMessage" where
  "createSplunkMessage E l msg = (nullMessage l)\<lparr>msg_Time := sprintf_seconds E (lm_Timestamp msg)\<rparr>"

text \<open>
  Lines 369 to 375: \<open>None\<close> when the call returns nil at line 370, otherwise the record
  that line 377 hands to \<open>queueMessageAsync\<close>. The event is the prefix followed by the
  line.
\<close>

definition rawMessage ::
  "'w env \<Rightarrow> splunkLogger \<Rightarrow> string \<Rightarrow> logMessage \<Rightarrow> splunkMessage option" where
  "rawMessage E l prefix msg =
     (if strings_TrimSpace E (lm_Line msg) = [] then None
      else Some ((createSplunkMessage E l msg)\<lparr>msg_Event := EventString (prefix @ lm_Line msg)\<rparr>))"

subsection \<open>The driver at run time: producers, worker and Close\<close>

text \<open>
  The goroutines of a running driver share the channel \<open>stream\<close>, the read-write mutex
  \<open>lock\<close>, the condition variable \<open>closedCond\<close> (nil until \<open>Close\<close> creates it; its value here
  is the list of the calls waiting on it, longest wait first) and the flag \<open>closed\<close>.
  They are modelled as a transition system whose steps are the statements between two
  synchronisation points. Every call in progress has a number and a place in its code.
\<close>

datatype queue_pc = QStart | QLocked | QSending | QReturned "error option"

text \<open>
  \<open>queueMessageAsync\<close> (lines 380 to 388): before \<open>RLock\<close>; holding the read lock, before
  the test of line 383; at the send of line 386; returned.
\<close>

datatype close_pc = CStart | CLocked | CCloseStream | CLoop | CWaiting | CSignalled | CReturned bool

text \<open>
  \<open>Close\<close> (lines 529 to 540): before \<open>Lock\<close>; holding the lock, before the test of line 532;
  before \<open>close(l.stream)\<close>; at the test of the loop of line 535; inside \<open>Wait\<close>, the lock
  released; signalled, taking the lock again; returned. \<open>CReturned True\<close> is the return of a
  call that created the condition variable, \<open>CReturned False\<close> that of a call that found
  it.
\<close>

datatype call = QueueMessageAsync splunkMessage queue_pc | Close close_pc | LogSuppressed

datatype worker_pc = WLoop | WFlushed | WLocked | WDone

text \<open>
  \<open>worker\<close> (lines 390 to 416): in the loop, at the \<open>select\<close>; after the call of line 397,
  before \<open>Lock\<close>; holding the lock; returned.
\<close>

datatype owner = Worker | Caller nat

text \<open>One call of \<open>postMessages\<close>: its arguments, the effects before it, and what it returned.\<close>

record 'w flush =
  fl_messages :: "splunkMessage list"
  fl_lastChance :: bool
  fl_before :: "'w sys"
  fl_rest :: "splunkMessage list"
  fl_after :: "'w sys"

text \<open>
  The state. \<open>workerMessages\<close> is the worker's local slice \<open>messages\<close>. \<open>accepted\<close> and \<open>flushes\<close> are history:
  the records whose send on the channel has completed, in order, and the calls of
  \<open>postMessages\<close> that have returned, in order. A panic ends the process: \<open>crashed\<close>.
\<close>

record 'w driver =
  effects :: "'w sys"
  stream :: "splunkMessage list"
  streamClosed :: bool
  lockWriter :: "owner option"
  lockReaders :: "nat set"
  closedCond :: "nat list option"
  closed :: bool
  worker :: worker_pc
  tickerCreated :: bool
  workerMessages :: "splunkMessage list"
  calls :: "nat \<Rightarrow> call option"
  crashed :: "panic option"
  accepted :: "splunkMessage list"
  flushes :: "'w flush list"

text \<open>
  The driver as \<open>New\<close> leaves it (line 332: the worker has been started, and has not yet
  run its first statement).
\<close>

definition initDriver :: "'w sys \<Rightarrow> 'w driver" where
  "initDriver s =
     \<lparr>effects = s, stream = [], streamClosed = False, lockWriter = None, lockReaders = {},
      closedCond = None, closed = False, worker = WLoop, tickerCreated = False,
      workerMessages = [], calls = (\<lambda>tid. None),
      crashed = None, accepted = [], flushes = []\<rparr>"

definition lockFree :: "'w driver \<Rightarrow> bool" where
  "lockFree d \<longleftrightarrow> lockWriter d = None \<and> lockReaders d = {}"

text \<open>
  \<open>queueMessageAsync\<close>, one step of call \<open>tid\<close> with the record \<open>message\<close>. \<open>None\<close>: the call
  cannot move (it waits for the lock, or for room on the channel). The deferred \<open>RUnlock\<close>
  runs with the return. A reader is kept out by a writer that holds the lock; that
  \<open>sync.RWMutex\<close> also keeps new readers out while a writer waits is left out, so the model
  has every run of the program and some more.
\<close>

definition stepQueueMessageAsync ::
  "splunkLogger \<Rightarrow> nat \<Rightarrow> splunkMessage \<Rightarrow> queue_pc \<Rightarrow> 'w driver \<Rightarrow> 'w driver option" where
  "stepQueueMessageAsync l tid message pc d =
     (case pc of
        QStart \<Rightarrow>
          (if lockWriter d = None
           then Some (d\<lparr>lockReaders := insert tid (lockReaders d),
                        calls := (calls d)(tid \<mapsto> QueueMessageAsync message QLocked)\<rparr>)
           else None)
      | QLocked \<Rightarrow>
          (if closedCond d \<noteq> None
           then Some (d\<lparr>lockReaders := lockReaders d - {tid},
                        calls := (calls d)(tid \<mapsto> QueueMessageAsync message (QReturned (Some DriverClosed)))\<rparr>)
           else Some (d\<lparr>calls := (calls d)(tid \<mapsto> QueueMessageAsync message QSending)\<rparr>))
      | QSending \<Rightarrow>
          (if streamClosed d then Some (d\<lparr>crashed := Some SendOnClosedChannel\<rparr>)
           else if int (length (stream d)) < streamChannelSize l
           then Some (d\<lparr>stream := stream d @ [message], accepted := accepted d @ [message],
                        lockReaders := lockReaders d - {tid},
                        calls := (calls d)(tid \<mapsto> QueueMessageAsync message (QReturned None))\<rparr>)
           else None)
      | QReturned r \<Rightarrow> None)"

text \<open>
  \<open>Close\<close>, one step of call \<open>tid\<close>. \<open>Wait\<close> releases the lock and queues the call on the
  condition variable; a signalled call takes the lock again before it tests \<open>closed\<close>. The
  deferred \<open>Unlock\<close> runs with the return.
\<close>

definition stepClose :: "nat \<Rightarrow> close_pc \<Rightarrow> 'w driver \<Rightarrow> 'w driver option" where
  "stepClose tid pc d =
     (case pc of
        CStart \<Rightarrow>
          (if lockFree d
           then Some (d\<lparr>lockWriter := Some (Caller tid), calls := (calls d)(tid \<mapsto> Close CLocked)\<rparr>)
           else None)
      | CLocked \<Rightarrow>
          (if closedCond d = None
           then Some (d\<lparr>closedCond := Some [], calls := (calls d)(tid \<mapsto> Close CCloseStream)\<rparr>)
           else Some (d\<lparr>lockWriter := None, calls := (calls d)(tid \<mapsto> Close (CReturned False))\<rparr>))
      | CCloseStream \<Rightarrow>
          (if streamClosed d then Some (d\<lparr>crashed := Some CloseOfClosedChannel\<rparr>)
           else Some (d\<lparr>streamClosed := True, calls := (calls d)(tid \<mapsto> Close CLoop)\<rparr>))
      | CLoop \<Rightarrow>
          (if closed d
           then Some (d\<lparr>lockWriter := None, calls := (calls d)(tid \<mapsto> Close (CReturned True))\<rparr>)
           else
             (case closedCond d of
                None \<Rightarrow> Some (d\<lparr>crashed := Some NilPointerDereference\<rparr>)
              | Some waiting \<Rightarrow>
                  Some (d\<lparr>lockWriter := None, closedCond := Some (waiting @ [tid]),
                          calls := (calls d)(tid \<mapsto> Close CWaiting)\<rparr>)))
      | CWaiting \<Rightarrow> None
      | CSignalled \<Rightarrow>
          (if lockFree d
           then Some (d\<lparr>lockWriter := Some (Caller tid), calls := (calls d)(tid \<mapsto> Close CLoop)\<rparr>)
           else None)
      | CReturned first \<Rightarrow> None)"

text \<open>
  A call of \<open>postMessages\<close> by the worker. A call that does not return leaves the worker
  without a next state; a panic ends the process.
\<close>

definition flushStep ::
  "'w env \<Rightarrow> splunkLogger \<Rightarrow> bool \<Rightarrow> 'w driver \<Rightarrow> ('w driver \<times> splunkMessage list) option" where
  "flushStep E l lastChance d =
     (case postMessages E l (workerMessages d) lastChance (effects d) of
        None \<Rightarrow> None
      | Some (Inl p) \<Rightarrow> Some (d\<lparr>crashed := Some p\<rparr>, workerMessages d)
      | Some (Inr (rest, s')) \<Rightarrow>
          Some (d\<lparr>effects := s',
                  flushes := flushes d @
                    [\<lparr>fl_messages = workerMessages d, fl_lastChance = lastChance,
                      fl_before = effects d, fl_rest = rest, fl_after = s'\<rparr>]\<rparr>, rest))"

text \<open>Go's \<open>%\<close> truncates towards zero (\<open>smod\<close>) and panics on a zero divisor.\<close>

definition go_rem :: "int \<Rightarrow> int \<Rightarrow> panic + int" where
  "go_rem a b = (if b = 0 then Inl IntegerDivideByZero else Inr (a smod b))"

text \<open>Lines 405 to 411: the worker has received \<open>message\<close>.\<close>

definition workerMessage ::
  "'w env \<Rightarrow> splunkLogger \<Rightarrow> splunkMessage \<Rightarrow> 'w driver \<Rightarrow> 'w driver option" where
  "workerMessage E l message d =
     (let d1 = d\<lparr>workerMessages := workerMessages d @ [message]\<rparr> in
      case go_rem (int (length (workerMessages d1))) (postMessagesBatchSize l) of
        Inl p \<Rightarrow> Some (d1\<lparr>crashed := Some p\<rparr>)
      | Inr r \<Rightarrow>
          (if r = 0 then
             (case flushStep E l False d1 of
                None \<Rightarrow> None
              | Some (d2, rest) \<Rightarrow> Some (d2\<lparr>workerMessages := rest\<rparr>))
           else Some d1))"

text \<open>
  Line 391: \<open>time.NewTicker\<close> panics on an interval that is not positive; otherwise the
  worker enters its loop with a ticker.
\<close>

definition workerStart :: "splunkLogger \<Rightarrow> 'w driver \<Rightarrow> 'w driver option" where
  "workerStart l d =
     (if worker d \<noteq> WLoop \<or> tickerCreated d then None
      else if postMessagesFrequency l \<le> 0 then Some (d\<lparr>crashed := Some NonPositiveTickerInterval\<rparr>)
      else Some (d\<lparr>tickerCreated := True\<rparr>))"

text \<open>
  Lines 395 to 404 and 412 to 413: the \<open>select\<close> of the worker. A receive takes the oldest
  record of the channel's buffer; on an empty buffer of a closed channel it reports that
  the channel is closed, and the worker makes its last call of \<open>postMessages\<close>, whose
  result it does not keep.
\<close>

definition workerReceive :: "'w env \<Rightarrow> splunkLogger \<Rightarrow> 'w driver \<Rightarrow> 'w driver option" where
  "workerReceive E l d =
     (if worker d \<noteq> WLoop \<or> \<not> tickerCreated d then None
      else
        (case stream d of
           message # queued \<Rightarrow> workerMessage E l message (d\<lparr>stream := queued\<rparr>)
         | [] \<Rightarrow>
             (if streamClosed d then
                (case flushStep E l True d of
                   None \<Rightarrow> None
                 | Some (d2, rest) \<Rightarrow> Some (if crashed d2 = None then d2\<lparr>worker := WFlushed\<rparr> else d2))
              else None)))"

text \<open>
  A receive on an empty buffer that meets the call \<open>tid\<close> blocked in its send: the record
  goes from the sender to the worker, and the send returns.
\<close>

definition workerReceiveFrom ::
  "'w env \<Rightarrow> splunkLogger \<Rightarrow> nat \<Rightarrow> 'w driver \<Rightarrow> 'w driver option" where
  "workerReceiveFrom E l tid d =
     (if worker d \<noteq> WLoop \<or> \<not> tickerCreated d \<or> stream d \<noteq> [] \<or> streamClosed d then None
      else
        (case calls d tid of
           Some (QueueMessageAsync message QSending) \<Rightarrow>
             workerMessage E l message
               (d\<lparr>accepted := accepted d @ [message], lockReaders := lockReaders d - {tid},
                   calls := (calls d)(tid \<mapsto> QueueMessageAsync message (QReturned None))\<rparr>)
         | _ \<Rightarrow> None))"

definition workerTick :: "'w env \<Rightarrow> splunkLogger \<Rightarrow> 'w driver \<Rightarrow> 'w driver option" where
  "workerTick E l d =
     (if worker d \<noteq> WLoop \<or> \<not> tickerCreated d then None
      else
        (case flushStep E l False d of
           None \<Rightarrow> None
         | Some (d2, rest) \<Rightarrow> Some (d2\<lparr>workerMessages := rest\<rparr>)))"

text \<open>
  Lines 398 to 403. \<open>Signal\<close> wakes the call that has waited longest, if there is one.
  (\<open>CloseIdleConnections\<close> has no effect on the state modelled here.)
\<close>

definition workerStep :: "'w driver \<Rightarrow> 'w driver option" where
  "workerStep d =
     (case worker d of
        WLoop \<Rightarrow> None
      | WFlushed \<Rightarrow>
          (if lockFree d then Some (d\<lparr>lockWriter := Some Worker, worker := WLocked\<rparr>) else None)
      | WLocked \<Rightarrow>
          (case closedCond d of
             None \<Rightarrow> Some (d\<lparr>closed := True, crashed := Some NilPointerDereference\<rparr>)
           | Some [] \<Rightarrow> Some (d\<lparr>closed := True, lockWriter := None, worker := WDone\<rparr>)
           | Some (tid # waiting) \<Rightarrow>
               Some (d\<lparr>closed := True, closedCond := Some waiting, lockWriter := None,
                       worker := WDone, calls := (calls d)(tid \<mapsto> Close CSignalled)\<rparr>))
      | WDone \<Rightarrow> None)"

datatype action =
    CallLogRaw nat string logMessage
  | CallQueueMessageAsync nat splunkMessage
  | CallClose nat
  | Step nat
  | WorkerStart
  | WorkerReceive
  | WorkerReceiveFrom nat
  | WorkerTick
  | WorkerStep

text \<open>
  One step of the system. A new call takes a number that is not in use:
  \<open>CallLogRaw tid prefix msg\<close> is a call of \<open>Log\<close> on a raw logger with that prefix,
  \<open>CallQueueMessageAsync\<close> the call the other two formats make once they have built their
  record, \<open>CallClose\<close> a call of \<open>Close\<close>. After a panic nothing moves.
\<close>

definition step :: "'w env \<Rightarrow> splunkLogger \<Rightarrow> 'w driver \<Rightarrow> action \<Rightarrow> 'w driver option" where
  "step E l d a =
     (if crashed d \<noteq> None then None
      else
        (case a of
           CallLogRaw tid prefix msg \<Rightarrow>
             (if calls d tid = None
              then Some (d\<lparr>calls := (calls d)(tid \<mapsto>
                     (case rawMessage E l prefix msg of
                        None \<Rightarrow> LogSuppressed
                      | Some message \<Rightarrow> QueueMessageAsync message QStart))\<rparr>)
              else None)
         | CallQueueMessageAsync tid message \<Rightarrow>
             (if calls d tid = None
              then Some (d\<lparr>calls := (calls d)(tid \<mapsto> QueueMessageAsync message QStart)\<rparr>)
              else None)
         | CallClose tid \<Rightarrow>
             (if calls d tid = None
              then Some (d\<lparr>calls := (calls d)(tid \<mapsto> Close CStart)\<rparr>)
              else None)
         | Step tid \<Rightarrow>
             (case calls d tid of
                None \<Rightarrow> None
              | Some (QueueMessageAsync message pc) \<Rightarrow> stepQueueMessageAsync l tid message pc d
              | Some (Close pc) \<Rightarrow> stepClose tid pc d
              | Some LogSuppressed \<Rightarrow> None)
         | WorkerStart \<Rightarrow> workerStart l d
         | WorkerReceive \<Rightarrow> workerReceive E l d
         | WorkerReceiveFrom tid \<Rightarrow> workerReceiveFrom E l tid d
         | WorkerTick \<Rightarrow> workerTick E l d
         | WorkerStep \<Rightarrow> workerStep d))"

fun run :: "'w env \<Rightarrow> splunkLogger \<Rightarrow> 'w driver \<Rightarrow> action list \<Rightarrow> 'w driver option" where
  "run E l d [] = Some d"
| "run E l d (a # as) = (case step E l d a of None \<Rightarrow> None | Some d' \<Rightarrow> run E l d' as)"

inductive reachable :: "'w env \<Rightarrow> splunkLogger \<Rightarrow> 'w sys \<Rightarrow> 'w driver \<Rightarrow> bool"
  for E l s where
    init: "reachable E l s (initDriver s)"
  | step: "reachable E l s d \<Longrightarrow> step E l d a = Some d' \<Longrightarrow> reachable E l s d'"

subsection \<open>Examples\<close>

text \<open>
  A collector that answers the requests it receives with the status codes of a list, one
  after the other, and refuses the connection once the list is used up; the records are
  marshalled to their time in braces, and only blanks are trimmed.
\<close>

definition scriptedCollector :: "int list env" where
  "scriptedCollector =
     \<lparr>json_Marshal = (\<lambda>m. Inr (''{'' @ msg_Time m @ ''}'')),
      gzip_output = (\<lambda>level written. ''gz'' @ concat written),
      http_NewRequest_error = (\<lambda>m u. None),
      uuid_NewRandom = (\<lambda>w. (Inr ''channel'', w)),
      client_Do = (\<lambda>w req.
         (case w of
            [] \<Rightarrow> (Inl (LibError ''connection refused''), [])
          | code # codes \<Rightarrow>
              (Inr \<lparr>StatusCode = code, Status = ''status'', Body = RespBody ''text'' EndOfBody\<rparr>, codes))),
      strings_TrimSpace = (\<lambda>line. dropWhile (\<lambda>c. c = CHR '' '') (rev (dropWhile (\<lambda>c. c = CHR '' '') (rev line)))),
      sprintf_seconds = (\<lambda>t. ''time'')\<rparr>"

definition exampleLogger :: "int \<Rightarrow> int \<Rightarrow> splunkLogger" where
  "exampleLogger batchSize maximum =
     \<lparr>url = ''https://collector:8088/services/collector/event/1.0'', auth = ''Splunk token'',
      nullMessage = \<lparr>msg_Event = NilEvent, msg_Time = [], msg_Host = ''host'', msg_Source = [],
                     msg_SourceType = [], msg_Index = []\<rparr>,
      gzipCompression = False, gzipCompressionLevel = - 1,
      postMessagesFrequency = 5000000000, postMessagesBatchSize = batchSize,
      bufferMaximum = maximum, indexAck = False, streamChannelSize = 4\<rparr>"

definition exampleRecord :: "string \<Rightarrow> splunkMessage" where
  "exampleRecord t = \<lparr>msg_Event = EventString ''line'', msg_Time = t, msg_Host = ''host'',
     msg_Source = [], msg_SourceType = [], msg_Index = []\<rparr>"

definition exampleRequest :: "string \<Rightarrow> http_request" where
  "exampleRequest body =
     \<lparr>req_method = ''POST'', req_url = ''https://collector:8088/services/collector/event/1.0'',
      req_headers = [(''Authorization'', ''Splunk token'')], req_body = body\<rparr>"

definition startSys :: "'w \<Rightarrow> 'w sys" where
  "startSys w = \<lparr>world = w, requests = [], dlog = []\<rparr>"

text \<open>
  The end of the dropped range as the specification words it: from the failed offset
  to the end on the last chance, otherwise up to the buffer maximum's worth of records.
\<close>

definition specDroppedUpTo :: "splunkLogger \<Rightarrow> splunkMessage list \<Rightarrow> bool \<Rightarrow> int \<Rightarrow> int" where
  "specDroppedUpTo l messages lastChance i =
     (if lastChance then int (length messages)
      else min (int (length messages)) (i + bufferMaximum l))"

text \<open>A collector whose answer is 503 with a body that breaks off after three bytes.\<close>

definition brokenBodyCollector :: "int list env" where
  "brokenBodyCollector = scriptedCollector
     \<lparr>client_Do := (\<lambda>w req.
        (Inr \<lparr>StatusCode = 503, Status = ''503 Service Unavailable'',
               Body = RespBody ''abc'' (FailsAtNextRead (LibError ''unexpected EOF''))\<rparr>, w))\<rparr>"

text \<open>The inverse of the example's compression: it removes the two bytes in front.\<close>

definition exampleGunzip :: "string \<Rightarrow> string option" where
  "exampleGunzip bytes = (if take 2 bytes = ''gz'' then Some (drop 2 bytes) else None)"

text \<open>
  The lock: a call between \<open>RLock\<close> and \<open>RUnlock\<close> is among the readers, a call or the
  worker between \<open>Lock\<close> and \<open>Unlock\<close> (or \<open>Wait\<close>) is the writer, and readers and writer
  exclude each other.
\<close>

definition lockInv :: "'w driver \<Rightarrow> bool" where
  "lockInv d \<longleftrightarrow>
     (\<forall>t m. calls d t = Some (QueueMessageAsync m QLocked) \<longrightarrow> t \<in> lockReaders d) \<and>
     (\<forall>t m. calls d t = Some (QueueMessageAsync m QSending) \<longrightarrow> t \<in> lockReaders d) \<and>
     (\<forall>t. calls d t = Some (Close CLocked) \<longrightarrow> lockWriter d = Some (Caller t)) \<and>
     (\<forall>t. calls d t = Some (Close CCloseStream) \<longrightarrow> lockWriter d = Some (Caller t)) \<and>
     (\<forall>t. calls d t = Some (Close CLoop) \<longrightarrow> lockWriter d = Some (Caller t)) \<and>
     (worker d = WLocked \<longrightarrow> lockWriter d = Some Worker) \<and>
     (lockWriter d \<noteq> None \<longrightarrow> lockReaders d = {})"

text \<open>
  What holds in every state the driver reaches once shutdown is under way: the channel is
  closed only after the condition variable exists; no call is inside its send once it
  exists; the worker leaves its loop only on a closed and empty channel; \<open>closed\<close> is set
  by the worker as it returns; a call of \<open>Close\<close> that created the condition variable
  returns only after that.
\<close>

definition shutdownInv :: "'w driver \<Rightarrow> bool" where
  "shutdownInv d \<longleftrightarrow>
     (streamClosed d \<longrightarrow> closedCond d \<noteq> None) \<and>
     (\<forall>t. calls d t = Some (Close CCloseStream) \<longrightarrow> closedCond d \<noteq> None) \<and>
     (\<forall>t m. calls d t = Some (QueueMessageAsync m QSending) \<longrightarrow> closedCond d = None) \<and>
     (worker d \<noteq> WLoop \<longrightarrow> streamClosed d) \<and>
     (worker d \<noteq> WLoop \<longrightarrow> stream d = []) \<and>
     (closed d \<longrightarrow> crashed d = None \<longrightarrow> worker d = WDone) \<and>
     (\<forall>t. calls d t = Some (Close (CReturned True)) \<longrightarrow> worker d = WDone)"

text \<open>
  The records a call of \<open>postMessages\<close> took out of the buffer (sent or dropped), those
  taken out by a list of calls, and the records that wait in the worker's slice or on the
  channel.
\<close>

definition removed :: "'w flush \<Rightarrow> splunkMessage list" where
  "removed f = take (length (fl_messages f) - length (fl_rest f)) (fl_messages f)"

definition handled :: "'w flush list \<Rightarrow> splunkMessage list" where
  "handled fs = concat (map removed fs)"

definition pending :: "'w driver \<Rightarrow> splunkMessage list" where
  "pending d = (if worker d = WLoop then workerMessages d else []) @ stream d"

text \<open>
  The history is faithful: every recorded call of \<open>postMessages\<close> returned what is
  recorded; the accepted records are, in order, those taken out by the calls and those
  that wait; and once the worker has left its loop, its last call was the last chance and
  returned the empty buffer.
\<close>

definition historyInv :: "'w env \<Rightarrow> splunkLogger \<Rightarrow> 'w driver \<Rightarrow> bool" where
  "historyInv E l d \<longleftrightarrow>
     (\<forall>f \<in> set (flushes d).
        postMessages E l (fl_messages f) (fl_lastChance f) (fl_before f) =
          Some (Inr (fl_rest f, fl_after f))) \<and>
     accepted d = handled (flushes d) @ pending d \<and>
     (worker d \<noteq> WLoop \<longrightarrow>
        flushes d \<noteq> [] \<and> fl_lastChance (last (flushes d)) \<and> fl_rest (last (flushes d)) = [])"

definition driverInv :: "'w env \<Rightarrow> splunkLogger \<Rightarrow> 'w driver \<Rightarrow> bool" where
  "driverInv E l d \<longleftrightarrow> lockInv d \<and> shutdownInv d \<and> historyInv E l d"

text \<open>
  The callers parked in \<open>closedCond.Wait\<close> are distinct calls of \<open>Close\<close>, each at its wait.
\<close>

definition waitInv :: "'w driver \<Rightarrow> bool" where
  "waitInv d \<longleftrightarrow>
     (\<forall>waiting. closedCond d = Some waiting \<longrightarrow>
        distinct waiting \<and> (\<forall>t \<in> set waiting. calls d t = Some (Close CWaiting)))"

text \<open>
  A run in which one record is accepted, \<open>Close\<close> is called, the worker drains the stream
  and flushes, and \<open>Close\<close> returns.
\<close>

definition orderlyShutdown :: "action list" where
  "orderlyShutdown =
     [CallQueueMessageAsync 1 (exampleRecord ''1''), Step 1, Step 1, Step 1,
      CallClose 2, Step 2, Step 2, Step 2, Step 2,
      WorkerStart, WorkerReceive, WorkerReceive, WorkerStep, WorkerStep, Step 2, Step 2]"

text \<open>
  Who holds the write lock: a call of \<open>Close\<close> between its \<open>Lock\<close> and its \<open>Wait\<close> or
  return, or the worker between its \<open>Lock\<close> and its return. The call that is about to
  close the stream finds it open.
\<close>

definition holderInv :: "'w driver \<Rightarrow> bool" where
  "holderInv d \<longleftrightarrow>
     (\<forall>t. lockWriter d = Some (Caller t) \<longrightarrow>
        calls d t = Some (Close CLocked) \<or> calls d t = Some (Close CCloseStream) \<or>
        calls d t = Some (Close CLoop)) \<and>
     (lockWriter d = Some Worker \<longrightarrow> worker d = WLocked) \<and>
     (\<forall>t. calls d t = Some (Close CCloseStream) \<longrightarrow> \<not> streamClosed d)"

text \<open>A line of two blanks, as \<open>Log\<close> receives it.\<close>

definition blankLine :: logMessage where
  "blankLine = \<lparr>lm_Line = ''  '', lm_Source = ''stdout'', lm_Timestamp = 0\<rparr>"

text \<open>The number of records the worker has taken from the stream.\<close>

definition received :: "'w driver \<Rightarrow> nat" where
  "received d = length (accepted d) - length (stream d)"

text \<open>
  While the worker is in its loop, the records that its calls of \<open>postMessages\<close> have taken
  out of the buffer are a whole number of batches.
\<close>

definition fullBatches :: "splunkLogger \<Rightarrow> 'w driver \<Rightarrow> bool" where
  "fullBatches l d \<longleftrightarrow>
     (worker d = WLoop \<longrightarrow> postMessagesBatchSize l dvd int (length (handled (flushes d))))"




subsection \<open>New (lines 153 to 335)\<close>

text \<open>
  What \<open>New\<close> is given: the options of the container (\<open>info.Config\<close>), and what
  \<open>info.Hostname()\<close>, \<open>loggerutils.ParseLogTag\<close> with the default template and
  \<open>info.ExtraAttributes(nil)\<close> return for it. The attributes are in the order in which
  \<open>range\<close> yields them.
\<close>

record info =
  info_Config :: "string \<rightharpoonup> string"
  info_Hostname :: "error + string"
  info_ParseLogTag :: "error + string"
  info_ExtraAttributes :: "error + (string \<times> string) list"

text \<open>The fields of \<open>url.URL\<close> that \<open>parseURL\<close> reads or writes.\<close>

record url_URL =
  url_Scheme :: string
  url_Host :: string
  url_Path :: string
  url_RawQuery :: string
  url_Fragment :: string

text \<open>
  The libraries and the process environment \<open>New\<close> uses: \<open>url.Parse\<close>, \<open>URL.String\<close>,
  \<open>time.ParseDuration\<close> (a duration is a number of nanoseconds), \<open>os.ReadFile\<close> and
  \<open>os.Getenv\<close>.
\<close>

record lib =
  url_Parse :: "string \<Rightarrow> error + url_URL"
  url_String :: "url_URL \<Rightarrow> string"
  time_ParseDuration :: "string \<Rightarrow> error + int"
  os_ReadFile :: "string \<Rightarrow> error + string"
  os_Getenv :: "string \<Rightarrow> string"

text \<open>\<open>strconv.ParseBool\<close> accepts these twelve texts and no other.\<close>

definition strconv_ParseBool :: "string \<Rightarrow> error + bool" where
  "strconv_ParseBool str =
     (if str \<in> {''1'', ''t'', ''T'', ''TRUE'', ''true'', ''True''} then Inr True
      else if str \<in> {''0'', ''f'', ''F'', ''FALSE'', ''false'', ''False''} then Inr False
      else Inl (LibError ''strconv.ParseBool: invalid syntax''))"

text \<open>
  \<open>strconv.ParseInt(s, 10, 32)\<close>: an optional sign, then decimal digits, at least one, and
  nothing else; a value outside 32 bits is an error too.
\<close>

fun digitsValue :: "string \<Rightarrow> nat \<Rightarrow> nat option" where
  "digitsValue [] n = Some n"
| "digitsValue (c # cs) n =
     (if c \<in> set ''0123456789''
      then digitsValue cs (10 * n + (of_char c - 48))
      else None)"

definition strconv_ParseInt32 :: "string \<Rightarrow> error + int" where
  "strconv_ParseInt32 str =
     (if str = [] then Inl (LibError ''strconv.ParseInt: invalid syntax'')
      else
        (let neg = (hd str = CHR ''-'');
             digits = (if hd str = CHR ''+'' \<or> hd str = CHR ''-'' then tl str else str)
         in if digits = [] then Inl (LibError ''strconv.ParseInt: invalid syntax'')
            else
              (case digitsValue digits 0 of
                 None \<Rightarrow> Inl (LibError ''strconv.ParseInt: invalid syntax'')
               | Some n \<Rightarrow>
                   (if \<not> neg \<and> 2 ^ 31 \<le> n \<or> neg \<and> 2 ^ 31 < n
                    then Inl (LibError ''strconv.ParseInt: value out of range'')
                    else Inr (if neg then - int n else int n)))))"

definition splunkURLKey :: string where "splunkURLKey = ''splunk-url''"
definition splunkTokenKey :: string where "splunkTokenKey = ''splunk-token''"
definition splunkSourceKey :: string where "splunkSourceKey = ''splunk-source''"
definition splunkSourceTypeKey :: string where "splunkSourceTypeKey = ''splunk-sourcetype''"
definition splunkIndexKey :: string where "splunkIndexKey = ''splunk-index''"
definition splunkCAPathKey :: string where "splunkCAPathKey = ''splunk-capath''"
definition splunkInsecureSkipVerifyKey :: string where
  "splunkInsecureSkipVerifyKey = ''splunk-insecureskipverify''"
definition splunkFormatKey :: string where "splunkFormatKey = ''splunk-format''"
definition splunkVerifyConnectionKey :: string where
  "splunkVerifyConnectionKey = ''splunk-verify-connection''"
definition splunkGzipCompressionKey :: string where "splunkGzipCompressionKey = ''splunk-gzip''"
definition splunkGzipCompressionLevelKey :: string where
  "splunkGzipCompressionLevelKey = ''splunk-gzip-level''"
definition splunkIndexAcknowledgment :: string where
  "splunkIndexAcknowledgment = ''splunk-index-acknowledgment''"
definition tagKey :: string where "tagKey = ''tag''"

definition defaultPostMessagesFrequency :: int where
  "defaultPostMessagesFrequency = 5 * 1000000000"
definition defaultPostMessagesBatchSize :: int where
  "defaultPostMessagesBatchSize = 1000"
definition defaultBufferMaximum :: int where
  "defaultBufferMaximum = 10 * defaultPostMessagesBatchSize"
definition defaultStreamChannelSize :: int where
  "defaultStreamChannelSize = 4 * defaultPostMessagesBatchSize"

definition envVarPostMessagesFrequency :: string where
  "envVarPostMessagesFrequency = ''SPLUNK_LOGGING_DRIVER_POST_MESSAGES_FREQUENCY''"
definition envVarPostMessagesBatchSize :: string where
  "envVarPostMessagesBatchSize = ''SPLUNK_LOGGING_DRIVER_POST_MESSAGES_BATCH_SIZE''"
definition envVarBufferMaximum :: string where
  "envVarBufferMaximum = ''SPLUNK_LOGGING_DRIVER_BUFFER_MAX''"
definition envVarStreamChannelSize :: string where
  "envVarStreamChannelSize = ''SPLUNK_LOGGING_DRIVER_CHANNEL_SIZE''"

text \<open>\<open>info.Config[key]\<close> where the code does not test for presence: a missing key reads as the empty text.\<close>

definition configOrEmpty :: "info \<Rightarrow> string \<Rightarrow> string" where
  "configOrEmpty info key = (case info_Config info key of None \<Rightarrow> [] | Some v \<Rightarrow> v)"

text \<open>Lines 581 to 603.\<close>

definition parseURL :: "lib \<Rightarrow> info \<Rightarrow> error + url_URL" where
  "parseURL L info =
     (case info_Config info splunkURLKey of
        None \<Rightarrow> Inl (OptionExpected splunkURLKey)
      | Some splunkURLStr \<Rightarrow>
          (case url_Parse L splunkURLStr of
             Inl err \<Rightarrow> Inl (FailedToParseURL splunkURLStr)
           | Inr splunkURL \<Rightarrow>
               (if url_Scheme splunkURL = [] \<or>
                   (url_Scheme splunkURL \<noteq> ''http'' \<and> url_Scheme splunkURL \<noteq> ''https'') \<or>
                   (url_Path splunkURL \<noteq> [] \<and> url_Path splunkURL \<noteq> ''/'') \<or>
                   url_RawQuery splunkURL \<noteq> [] \<or>
                   url_Fragment splunkURL \<noteq> []
                then Inl ExpectedURLFormat
                else Inr (splunkURL\<lparr>url_Path := ''/services/collector/event/1.0''\<rparr>))))"

text \<open>Lines 605 to 630: an \<open>OPTIONS\<close> request to the collector.\<close>

definition verifySplunkConnection :: "'w env \<Rightarrow> splunkLogger \<Rightarrow> 'w sys \<Rightarrow> error option \<times> 'w sys" where
  "verifySplunkConnection E l s =
     (case http_NewRequest_error E ''OPTIONS'' (url l) of
        Some err \<Rightarrow> (Some err, s)
      | None \<Rightarrow>
          (let req = \<lparr>req_method = ''OPTIONS'', req_url = url l, req_headers = [], req_body = []\<rparr>
           in case client_Do E (world s) req of
                (Inl err, w') \<Rightarrow> (Some err, s\<lparr>world := w', requests := requests s @ [req]\<rparr>)
              | (Inr resp, w') \<Rightarrow>
                  ((if StatusCode resp \<noteq> http_StatusOK then
                      (case readAllLimited (Body resp) maxResponseSize of
                         Inl err \<Rightarrow> Some err
                       | Inr body \<Rightarrow> Some (FailedToVerifyConnection (Status resp) body))
                    else None),
                   s\<lparr>world := w', requests := requests s @ [req]\<rparr>)))"

text \<open>
  Lines 632 to 643 and 645 to 656: a value that cannot be parsed is reported in the daemon
  log, and the default is returned.
\<close>

definition getAdvancedOptionDuration :: "lib \<Rightarrow> string \<Rightarrow> int \<Rightarrow> 'w sys \<Rightarrow> int \<times> 'w sys" where
  "getAdvancedOptionDuration L envName defaultValue s =
     (let valueStr = os_Getenv L envName
      in if valueStr = [] then (defaultValue, s)
         else
           (case time_ParseDuration L valueStr of
              Inl err \<Rightarrow> (defaultValue, s\<lparr>dlog := dlog s @ [ErrorFailedToParseDuration envName defaultValue err]\<rparr>)
            | Inr parsedValue \<Rightarrow> (parsedValue, s)))"

definition getAdvancedOptionInt :: "lib \<Rightarrow> string \<Rightarrow> int \<Rightarrow> 'w sys \<Rightarrow> int \<times> 'w sys" where
  "getAdvancedOptionInt L envName defaultValue s =
     (let valueStr = os_Getenv L envName
      in if valueStr = [] then (defaultValue, s)
         else
           (case strconv_ParseInt32 valueStr of
              Inl err \<Rightarrow> (defaultValue, s\<lparr>dlog := dlog s @ [ErrorFailedToParseInteger envName defaultValue err]\<rparr>)
            | Inr parsedValue \<Rightarrow> (parsedValue, s)))"

text \<open>Sequencing of steps that may return an error: the first error ends \<open>New\<close>.\<close>

definition andThen :: "error + 'a \<Rightarrow> ('a \<Rightarrow> error + 'b) \<Rightarrow> error + 'b" where
  "andThen r f = (case r of Inl err \<Rightarrow> Inl err | Inr a \<Rightarrow> f a)"

text \<open>\<open>if str, ok := info.Config[key]; ok { value, err = strconv.ParseBool(str) ... }\<close>\<close>

definition boolOption :: "info \<Rightarrow> string \<Rightarrow> bool \<Rightarrow> error + bool" where
  "boolOption info key defaultValue =
     (case info_Config info key of None \<Rightarrow> Inr defaultValue | Some str \<Rightarrow> strconv_ParseBool str)"

text \<open>
  What lines 154 to 242 compute, in the order of the code. The TLS settings
  (\<open>InsecureSkipVerify\<close>, the root certificates, the server name) go into the transport
  and play no part in what follows but through \<open>client.Do\<close>.
\<close>

record options =
  opt_hostname :: string
  opt_splunkURL :: url_URL
  opt_splunkToken :: string
  opt_insecureSkipVerify :: bool
  opt_caCert :: "string option"
  opt_gzipCompression :: bool
  opt_gzipCompressionLevel :: int
  opt_indexAck :: bool
  opt_tag :: string
  opt_extraAttrs :: "(string \<times> string) list"

definition parseOptions :: "lib \<Rightarrow> info \<Rightarrow> error + options" where
  "parseOptions L info =
     andThen (case info_Hostname info of Inl err \<Rightarrow> Inl CannotAccessHostname | Inr h \<Rightarrow> Inr h)
       (\<lambda>hostname.
     andThen (parseURL L info) (\<lambda>splunkURL.
     andThen (case info_Config info splunkTokenKey of
                None \<Rightarrow> Inl (OptionExpected splunkTokenKey) | Some t \<Rightarrow> Inr t) (\<lambda>splunkToken.
     andThen (boolOption info splunkInsecureSkipVerifyKey False) (\<lambda>insecureSkipVerify.
     andThen (case info_Config info splunkCAPathKey of
                None \<Rightarrow> Inr None
              | Some caPath \<Rightarrow>
                  (case os_ReadFile L caPath of Inl err \<Rightarrow> Inl err | Inr caCert \<Rightarrow> Inr (Some caCert)))
       (\<lambda>caCert.
     andThen (boolOption info splunkGzipCompressionKey False) (\<lambda>gzipCompression.
     andThen (case info_Config info splunkGzipCompressionLevelKey of
                None \<Rightarrow> Inr gzip_DefaultCompression
              | Some gzipCompressionLevelStr \<Rightarrow>
                  andThen (strconv_ParseInt32 gzipCompressionLevelStr) (\<lambda>gzipCompressionLevel.
                    if gzipCompressionLevel < gzip_DefaultCompression \<or>
                       gzipCompressionLevel > gzip_BestCompression
                    then Inl (NotSupportedLevel gzipCompressionLevelStr)
                    else Inr gzipCompressionLevel))
       (\<lambda>gzipCompressionLevel.
     andThen (boolOption info splunkIndexAcknowledgment False) (\<lambda>indexAck.
     andThen (case info_Config info tagKey of
                Some [] \<Rightarrow> Inr []
              | _ \<Rightarrow> info_ParseLogTag info) (\<lambda>tag.
     andThen (info_ExtraAttributes info) (\<lambda>extraAttrs.
     Inr \<lparr>opt_hostname = hostname, opt_splunkURL = splunkURL, opt_splunkToken = splunkToken,
          opt_insecureSkipVerify = insecureSkipVerify, opt_caCert = caCert,
          opt_gzipCompression = gzipCompression, opt_gzipCompressionLevel = gzipCompressionLevel,
          opt_indexAck = indexAck, opt_tag = tag, opt_extraAttrs = extraAttrs\<rparr>))))))))))"

text \<open>
  The three loggers of lines 299 to 330, with what each holds besides the
  \<open>splunkLogger\<close>: the event to copy, or the prefix of every line.
\<close>

datatype loggerWrapper =
    LoggerInline splunkMessageEvent
  | LoggerJSON splunkMessageEvent
  | LoggerRaw string

definition rawPrefix :: "string \<Rightarrow> (string \<times> string) list \<Rightarrow> string" where
  "rawPrefix tag extraAttrs =
     (if tag \<noteq> [] then tag @ '' '' else []) @
     concat (map (\<lambda>(key, v). key @ ''='' @ v @ '' '') extraAttrs)"

definition newWrapper :: "string \<Rightarrow> string \<Rightarrow> (string \<times> string) list \<Rightarrow> error + loggerWrapper" where
  "newWrapper splunkFormat tag extraAttrs =
     (let nullEvent = \<lparr>ev_Line = NilLine, ev_Source = [], ev_Tag = tag, ev_Attrs = extraAttrs\<rparr>
      in if splunkFormat = ''inline'' then Inr (LoggerInline nullEvent)
         else if splunkFormat = ''json'' then Inr (LoggerJSON nullEvent)
         else if splunkFormat = ''raw'' then Inr (LoggerRaw (rawPrefix tag extraAttrs))
         else Inl (UnknownFormat splunkFormat))"

text \<open>
  How a call of \<open>New\<close> ends: with a panic, with an error, or with a logger whose worker
  has been started (line 332), which is the only way the driver comes into being. The
  panic is that of \<open>make\<close> on a negative size (line 269); a channel too large for the memory
  of the machine is not modelled.
\<close>

datatype 'w new_result =
    Panicked panic
  | Failed error
  | Started loggerWrapper splunkLogger "'w driver"

definition New :: "lib \<Rightarrow> 'w env \<Rightarrow> info \<Rightarrow> 'w sys \<Rightarrow> 'w new_result \<times> 'w sys" where
  "New L E info s =
     (case parseOptions L info of
        Inl err \<Rightarrow> (Failed err, s)
      | Inr opts \<Rightarrow>
          (case getAdvancedOptionDuration L envVarPostMessagesFrequency defaultPostMessagesFrequency s of
             (frequency, s1) \<Rightarrow>
          (case getAdvancedOptionInt L envVarPostMessagesBatchSize defaultPostMessagesBatchSize s1 of
             (batchSize, s2) \<Rightarrow>
          (case getAdvancedOptionInt L envVarBufferMaximum defaultBufferMaximum s2 of
             (maximum, s3) \<Rightarrow>
          (case getAdvancedOptionInt L envVarStreamChannelSize defaultStreamChannelSize s3 of
             (channelSize, s4) \<Rightarrow>
          (if channelSize < 0 then (Panicked MakechanSizeOutOfRange, s4)
           else
             (let splLogger =
                    \<lparr>url = url_String L (opt_splunkURL opts),
                     auth = ''Splunk '' @ opt_splunkToken opts,
                     nullMessage =
                       \<lparr>msg_Event = NilEvent, msg_Time = [], msg_Host = opt_hostname opts,
                        msg_Source = configOrEmpty info splunkSourceKey,
                        msg_SourceType = configOrEmpty info splunkSourceTypeKey,
                        msg_Index = configOrEmpty info splunkIndexKey\<rparr>,
                     gzipCompression = opt_gzipCompression opts,
                     gzipCompressionLevel = opt_gzipCompressionLevel opts,
                     postMessagesFrequency = frequency,
                     postMessagesBatchSize = batchSize,
                     bufferMaximum = maximum,
                     indexAck = opt_indexAck opts,
                     streamChannelSize = channelSize\<rparr>
              in case boolOption info splunkVerifyConnectionKey True of
                   Inl err \<Rightarrow> (Failed err, s4)
                 | Inr verifyConnection \<Rightarrow>
                     (case (if verifyConnection then verifySplunkConnection E splLogger s4
                            else (None, s4)) of
                        (Some err, s5) \<Rightarrow> (Failed err, s5)
                      | (None, s5) \<Rightarrow>
                          (case newWrapper
                                  (case info_Config info splunkFormatKey of
                                     None \<Rightarrow> ''inline'' | Some f \<Rightarrow> f)
                                  (opt_tag opts) (opt_extraAttrs opts) of
                             Inl err \<Rightarrow> (Failed err, s5)
                           | Inr wrapper \<Rightarrow> (Started wrapper splLogger (initDriver s5), s5))))))))))"

text \<open>
  Examples for \<open>New\<close>: libraries that know two addresses and one duration, a container
  with a host name and a tag, options that are in order (the connection is not verified),
  the logger \<open>New\<close> builds from them, and two environments.
\<close>

definition exampleLib :: "(string \<Rightarrow> string) \<Rightarrow> lib" where
  "exampleLib getenv =
     \<lparr>url_Parse = (\<lambda>str.
        if str = ''https://splunk:8088''
        then Inr \<lparr>url_Scheme = ''https'', url_Host = ''splunk:8088'', url_Path = [],
                  url_RawQuery = [], url_Fragment = []\<rparr>
        else if str = ''https://splunk:8088/x?y''
        then Inr \<lparr>url_Scheme = ''https'', url_Host = ''splunk:8088'', url_Path = ''/x'',
                  url_RawQuery = ''y'', url_Fragment = []\<rparr>
        else Inl (LibError ''parse: invalid URL'')),
      url_String = (\<lambda>u. url_Scheme u @ ''://'' @ url_Host u @ url_Path u),
      time_ParseDuration = (\<lambda>str.
        if str = ''10s'' then Inr 10000000000 else Inl (LibError ''time: invalid duration'')),
      os_ReadFile = (\<lambda>path. Inl (LibError ''open: no such file or directory'')),
      os_Getenv = getenv\<rparr>"

definition exampleInfo :: "(string \<rightharpoonup> string) \<Rightarrow> info" where
  "exampleInfo config =
     \<lparr>info_Config = config, info_Hostname = Inr ''host'', info_ParseLogTag = Inr ''tag'',
      info_ExtraAttributes = Inr []\<rparr>"

definition validConfig :: "string \<rightharpoonup> string" where
  "validConfig =
     [splunkURLKey \<mapsto> ''https://splunk:8088'', splunkTokenKey \<mapsto> ''token'',
      splunkVerifyConnectionKey \<mapsto> ''false'']"

definition noEnv :: "string \<Rightarrow> string" where
  "noEnv name = []"

definition exampleNewLogger :: "int \<Rightarrow> splunkLogger" where
  "exampleNewLogger frequency =
     \<lparr>url = ''https://splunk:8088/services/collector/event/1.0'', auth = ''Splunk token'',
      nullMessage = \<lparr>msg_Event = NilEvent, msg_Time = [], msg_Host = ''host'', msg_Source = [],
                     msg_SourceType = [], msg_Index = []\<rparr>,
      gzipCompression = False, gzipCompressionLevel = - 1,
      postMessagesFrequency = frequency, postMessagesBatchSize = 1000,
      bufferMaximum = 10000, indexAck = False, streamChannelSize = 4000\<rparr>"

definition badDurationEnv :: "string \<Rightarrow> string" where
  "badDurationEnv name = (if name = envVarPostMessagesFrequency then ''fast'' else [])"

definition negativeChannelEnv :: "string \<Rightarrow> string" where
  "negativeChannelEnv name = (if name = envVarStreamChannelSize then ''-1'' else [])"

section \<open>Facts\<close>

subsection \<open>The flush: postMessages\<close>

lemma logUnsent_eq:
  "0 \<le> j \<Longrightarrow> upperBound \<le> int (length messages) \<Longrightarrow>
   logUnsent E messages j upperBound entries =
     entries @ map (unsentEntry E) (take (nat (upperBound - j)) (drop (nat j) messages))"
proof (induction E messages j upperBound entries rule: logUnsent.induct)
  case (1 E messages j upperBound entries)
  show ?case
  proof (cases "j < upperBound")
    case False
    then show ?thesis by (simp add: logUnsent.simps)
  next
    case True
    with 1 have lt: "nat j < length messages" by linarith
    have n: "nat (upperBound - j) = Suc (nat (upperBound - (j + 1)))" using True by linarith
    have d: "drop (nat j) messages = messages ! nat j # drop (nat (j + 1)) messages"
      using lt 1(2) by (simp add: Cons_nth_drop_Suc nat_add_distrib)
    have "logUnsent E messages j upperBound entries =
          logUnsent E messages (j + 1) upperBound (entries @ [unsentEntry E (messages ! nat j)])"
      using True by (subst logUnsent.simps) simp
    also have "\<dots> = (entries @ [unsentEntry E (messages ! nat j)]) @
        map (unsentEntry E) (take (nat (upperBound - (j + 1))) (drop (nat (j + 1)) messages))"
      using 1 True by simp
    finally show ?thesis by (simp add: n d)
  qed
qed

lemma postMessagesFrom_done:
  "\<not> i < int (length messages) \<Longrightarrow> postMessagesFrom E l messages lastChance i s = Some (Inr ([], s))"
  by (subst postMessagesFrom.simps) (simp add: go_slice_def)

lemma postMessagesFrom_failed:
  "i < int (length messages) \<Longrightarrow> go_slice messages i (upperBoundAt l messages i) = Some chunk \<Longrightarrow>
   tryPostMessages E l chunk s = (Some err, s1) \<Longrightarrow>
   postMessagesFrom E l messages lastChance i s =
     Some (sendFailed E l messages lastChance i (upperBoundAt l messages i) err s1)"
  by (subst postMessagesFrom.simps) simp

lemma postMessagesFrom_sent:
  "i < int (length messages) \<Longrightarrow> go_slice messages i (upperBoundAt l messages i) = Some chunk \<Longrightarrow>
   tryPostMessages E l chunk s = (None, s1) \<Longrightarrow>
   postMessagesFrom E l messages lastChance i s =
     postMessagesFrom E l messages lastChance (i + postMessagesBatchSize l) s1"
  by (subst postMessagesFrom.simps) simp

lemma postMessagesFrom_panic:
  "i < int (length messages) \<Longrightarrow> go_slice messages i (upperBoundAt l messages i) = None \<Longrightarrow>
   postMessagesFrom E l messages lastChance i s = Some (Inl SliceBoundsOutOfRange)"
  by (subst postMessagesFrom.simps) simp

lemma chunksSent_postMessages:
  "chunksSent E l messages s0 i s \<Longrightarrow>
   postMessages E l messages lastChance s0 = postMessagesFrom E l messages lastChance i s"
  by (induction rule: chunksSent.induct) (simp_all add: postMessages_def postMessagesFrom_sent)

lemma go_slice_SomeD:
  "go_slice xs lo hi = Some ys \<Longrightarrow>
   0 \<le> lo \<and> lo \<le> hi \<and> hi \<le> int (length xs) \<and> ys = take (nat (hi - lo)) (drop (nat lo) xs)"
  by (auto simp: go_slice_def split: if_splits)

lemma go_slice_to_end:
  "0 \<le> lo \<Longrightarrow> lo \<le> int (length xs) \<Longrightarrow> go_slice xs lo (int (length xs)) = Some (drop (nat lo) xs)"
  by (simp add: go_slice_def)

lemma tryPostMessages_Nil: "tryPostMessages E l [] s = (None, s)"
  by (simp add: tryPostMessages_def)

lemma doRequest_dlog: "dlog (snd (doRequest E l messages s)) = dlog s"
  by (simp add: doRequest_def Let_def split: sum.splits option.splits prod.splits)

lemma tryPostMessages_dlog: "tryPostMessages E l messages s = (r, s') \<Longrightarrow> dlog s' = dlog s"
  using doRequest_dlog [of E l messages s]
  by (auto simp: tryPostMessages_def split: if_splits prod.splits sum.splits)

lemma chunksSent_dlog: "chunksSent E l messages s0 i s \<Longrightarrow> dlog s = dlog s0"
  by (induction rule: chunksSent.induct) (auto dest: tryPostMessages_dlog)

lemma chunksSent_nonneg: "chunksSent E l messages s0 i s \<Longrightarrow> 0 \<le> i"
proof (induction rule: chunksSent.induct)
  case start
  show ?case by simp
next
  case (sent i s chunk s')
  from go_slice_SomeD [OF sent(3)] have "i \<le> upperBoundAt l messages i" by simp
  with sent(2) have "0 \<le> postMessagesBatchSize l"
    by (simp add: upperBoundAt_def split: if_splits)
  with sent show ?case by simp
qed

lemma sendFailed_keep:
  assumes "\<not> lastChance" "int (length messages) - i < bufferMaximum l"
    "0 \<le> i" "i \<le> int (length messages)"
  shows "sendFailed E l messages lastChance i upperBound err s1 =
     Inr (drop (nat i) messages, s1\<lparr>dlog := dlog s1 @ [WarnErrorWhileSendingLogs err]\<rparr>)"
  using assms by (simp add: sendFailed_def Let_def go_slice_to_end)

lemma sendFailed_drop:
  assumes "lastChance \<or> bufferMaximum l \<le> int (length messages) - i"
    "0 \<le> i" "i \<le> upperBound" "upperBound \<le> int (length messages)"
    "u = (if lastChance then int (length messages) else upperBound)"
  shows "sendFailed E l messages lastChance i upperBound err s1 =
     Inr (drop (nat u) messages,
          s1\<lparr>dlog := dlog s1 @ [WarnErrorWhileSendingLogs err] @
                 map (unsentEntry E) (take (nat (u - i)) (drop (nat i) messages))\<rparr>)"
proof -
  have u: "0 \<le> u" "u \<le> int (length messages)" "i \<le> u" using assms by auto
  have c: "bufferMaximum l \<le> int (length messages) - i \<or> lastChance" using assms(1) by auto
  show ?thesis
    unfolding sendFailed_def Let_def assms(5) [symmetric]
    using u assms(2) by (simp only: c if_True) (simp add: go_slice_to_end logUnsent_eq)
qed

lemma failed_chunk_bounds:
  assumes "go_slice messages i (upperBoundAt l messages i) = Some chunk"
    and "tryPostMessages E l chunk s = (Some err, s1)"
  shows "0 \<le> i \<and> i < int (length messages) \<and> i < upperBoundAt l messages i \<and>
         upperBoundAt l messages i \<le> int (length messages)"
proof -
  from go_slice_SomeD [OF assms(1)]
  have b: "0 \<le> i" "i \<le> upperBoundAt l messages i" "upperBoundAt l messages i \<le> int (length messages)"
    and c: "chunk = take (nat (upperBoundAt l messages i - i)) (drop (nat i) messages)" by auto
  have "chunk \<noteq> []" using assms(2) by (auto simp: tryPostMessages_Nil)
  with c have "nat (upperBoundAt l messages i - i) \<noteq> 0" "drop (nat i) messages \<noteq> []" by auto
  with b show ?thesis by auto
qed

lemma postMessagesFrom_outcome:
  assumes "postMessagesFrom E l messages lastChance i s = Some y"
  shows "\<forall>rest s'. y = Inr (rest, s') \<longrightarrow> chunksSent E l messages s0 i s \<longrightarrow>
           loopOutcome E l messages lastChance s0 rest s'"
proof (rule postMessagesFrom.raw_induct
    [where P = "\<lambda>E l messages lastChance i s y. \<forall>rest s'. y = Inr (rest, s') \<longrightarrow>
       chunksSent E l messages s0 i s \<longrightarrow> loopOutcome E l messages lastChance s0 rest s'",
     OF _ assms], goal_cases)
  case (1 f E l messages lastChance i s y)
  show ?case
  proof (intro allI impI)
    fix rest s'
    assume y: "y = Inr (rest, s')" and cs: "chunksSent E l messages s0 i s"
    show "loopOutcome E l messages lastChance s0 rest s'"
    proof (cases "i < int (length messages)")
      case False
      with 1(2) y have "rest = []" "s' = s" by (auto simp: go_slice_def)
      with cs False have "chunksSent E l messages s0 i s \<and> int (length messages) \<le> i \<and> rest = [] \<and> s' = s"
        by simp
      then show ?thesis unfolding loopOutcome_def by blast
    next
      case True
      show ?thesis
      proof (cases "go_slice messages i (upperBoundAt l messages i)")
        case None
        with 1(2) True y show ?thesis by simp
      next
        case (Some chunk)
        obtain r s1 where t: "tryPostMessages E l chunk s = (r, s1)" by force
        show ?thesis
        proof (cases r)
          case None
          with 1(2) True Some t have f: "f E l messages lastChance (i + postMessagesBatchSize l) s1 = Some y"
            by simp
          have "chunksSent E l messages s0 (i + postMessagesBatchSize l) s1"
            using cs True Some t None by (auto intro: chunksSent.sent)
          with 1(1) [OF f] y show ?thesis by blast
        next
          case (Some err)
          with 1(2) True \<open>go_slice messages i (upperBoundAt l messages i) = Some chunk\<close> t y
          have "sendFailed E l messages lastChance i (upperBoundAt l messages i) err s1 = Inr (rest, s')"
            by simp
          with cs True \<open>go_slice messages i (upperBoundAt l messages i) = Some chunk\<close> t Some
          show ?thesis unfolding loopOutcome_def by blast
        qed
      qed
    qed
  qed
qed

lemma postMessages_outcome:
  "postMessages E l messages lastChance s0 = Some (Inr (rest, s')) \<Longrightarrow>
   loopOutcome E l messages lastChance s0 rest s'"
  using postMessagesFrom_outcome [of E l messages lastChance 0 s0 "Inr (rest, s')" s0]
  by (simp add: postMessages_def chunksSent.start)

text \<open>With a positive batch size the loop ends, and without a panic.\<close>

lemma postMessagesFrom_returns:
  assumes "0 < postMessagesBatchSize l" "0 \<le> i"
  shows "\<exists>rest s'. postMessagesFrom E l messages lastChance i s = Some (Inr (rest, s'))"
  using assms(2)
proof (induction "nat (int (length messages) - i)" arbitrary: i s rule: less_induct)
  case less
  show ?case
  proof (cases "i < int (length messages)")
    case False
    then show ?thesis by (simp add: postMessagesFrom_done)
  next
    case True
    have ub: "i \<le> upperBoundAt l messages i" "upperBoundAt l messages i \<le> int (length messages)"
      using assms(1) True by (auto simp: upperBoundAt_def)
    then obtain chunk where ch: "go_slice messages i (upperBoundAt l messages i) = Some chunk"
      using less.prems by (simp add: go_slice_def)
    obtain r s1 where t: "tryPostMessages E l chunk s = (r, s1)" by force
    show ?thesis
    proof (cases r)
      case None
      have "nat (int (length messages) - (i + postMessagesBatchSize l)) < nat (int (length messages) - i)"
        using assms(1) True by linarith
      from less.hyps [OF this] less.prems assms(1)
      have "\<exists>rest s'. postMessagesFrom E l messages lastChance (i + postMessagesBatchSize l) s1 =
              Some (Inr (rest, s'))" by simp
      then show ?thesis using postMessagesFrom_sent [OF True ch t [unfolded None]] by simp
    next
      case (Some err)
      have "\<exists>rest s'. sendFailed E l messages lastChance i (upperBoundAt l messages i) err s1 = Inr (rest, s')"
        using ub less.prems True
        by (auto simp: sendFailed_def Let_def go_slice_def)
      then show ?thesis using postMessagesFrom_failed [OF True ch t [unfolded Some]] by simp
    qed
  qed
qed

lemma isRecordEntry_unsentEntry [simp]: "isRecordEntry (unsentEntry E message)"
  by (simp add: isRecordEntry_def unsentEntry_def split: sum.split)

lemma filter_unsentEntries [simp]:
  "filter isRecordEntry (map (unsentEntry E) ms) = map (unsentEntry E) ms"
  by (induction ms) simp_all

lemma isRecordEntry_warning [simp]: "\<not> isRecordEntry (WarnErrorWhileSendingLogs err)"
  by (simp add: isRecordEntry_def)

lemma three_ranges:
  "j \<le> u \<Longrightarrow> take j xs @ take (u - j) (drop j xs) @ drop u xs = xs"
  by (metis add_diff_inverse_nat append.assoc append_take_drop_id not_less take_add)

lemmas send_defs = tryPostMessages_def doRequest_def requestBody_def requestHeaders_def
  checkResponse_def http_StatusOK_def maxResponseSize_def gzip_HuffmanOnly_def
  gzip_BestCompression_def Let_def

lemmas example_defs = scriptedCollector_def exampleLogger_def exampleRecord_def
  exampleRequest_def startSys_def

lemma example_failed_send:
  "tryPostMessages scriptedCollector (exampleLogger 2 4) (map exampleRecord [''1'', ''2''])
     (startSys [503]) =
   (Some (FailedToSendEvent ''status'' ''text''),
    \<lparr>world = [], requests = [exampleRequest ''{1}{2}''], dlog = []\<rparr>)"
  by (simp add: send_defs example_defs)

lemma example_first_chunk:
  "go_slice (map exampleRecord [''1'', ''2'', ''3'', ''4'']) 0
     (upperBoundAt (exampleLogger 2 4) (map exampleRecord [''1'', ''2'', ''3'', ''4'']) 0) =
   Some (map exampleRecord [''1'', ''2''])"
  by (simp add: go_slice_def upperBoundAt_def exampleLogger_def)

text \<open>
  C2. A flush that is not the last chance: when the send of the chunk at offset \<open>i\<close> fails
  (every chunk before it having been sent) and fewer records than the buffer maximum
  remain from \<open>i\<close> on, \<open>postMessages\<close> returns at once the records from \<open>i\<close> on, unchanged and
  in their order. The daemon log gains the warning about the failed send and no entry for
  any record.
\<close>

theorem postMessages_keeps_unsent_below_maximum:
  assumes "chunksSent E l messages s0 i s"
    and "go_slice messages i (upperBoundAt l messages i) = Some chunk"
    and "tryPostMessages E l chunk s = (Some err, s1)"
    and "int (length messages) - i < bufferMaximum l"
  shows "postMessages E l messages False s0 =
           Some (Inr (drop (nat i) messages,
                      s1\<lparr>dlog := dlog s0 @ [WarnErrorWhileSendingLogs err]\<rparr>))"
proof -
  from failed_chunk_bounds [OF assms(2,3)]
  have b: "0 \<le> i" "i < int (length messages)" by auto
  have d: "dlog s1 = dlog s0"
    using tryPostMessages_dlog [OF assms(3)] chunksSent_dlog [OF assms(1)] by simp
  have "postMessages E l messages False s0 = postMessagesFrom E l messages False i s"
    by (rule chunksSent_postMessages [OF assms(1)])
  also have "\<dots> = Some (sendFailed E l messages False i (upperBoundAt l messages i) err s1)"
    by (rule postMessagesFrom_failed [OF b(2) assms(2,3)])
  finally show ?thesis
    using b assms(4) by (simp add: sendFailed_keep d)
qed

text \<open>
  C1, as the code has it. When the send of the chunk at offset \<open>i\<close> fails and this is the
  last chance, or at least the buffer maximum of records remain from \<open>i\<close> on, the records
  from \<open>i\<close> up to \<open>u\<close> get one entry each in the daemon log, in order, and the function
  returns the records from \<open>u\<close> on: \<open>u\<close> is the end of the buffer on the last chance and
  the end of the failed chunk (one batch size of records, not the buffer maximum's worth)
  otherwise.
\<close>

theorem postMessages_overflow_drops_one_chunk:
  assumes "chunksSent E l messages s0 i s"
    and "go_slice messages i (upperBoundAt l messages i) = Some chunk"
    and "tryPostMessages E l chunk s = (Some err, s1)"
    and "lastChance \<or> bufferMaximum l \<le> int (length messages) - i"
    and "u = (if lastChance then int (length messages) else upperBoundAt l messages i)"
  shows "postMessages E l messages lastChance s0 =
           Some (Inr (drop (nat u) messages,
                      s1\<lparr>dlog := dlog s0 @ [WarnErrorWhileSendingLogs err] @
                         map (unsentEntry E) (take (nat (u - i)) (drop (nat i) messages))\<rparr>))"
proof -
  from failed_chunk_bounds [OF assms(2,3)]
  have b: "0 \<le> i" "i < int (length messages)" "i \<le> upperBoundAt l messages i"
    "upperBoundAt l messages i \<le> int (length messages)" by auto
  have d: "dlog s1 = dlog s0"
    using tryPostMessages_dlog [OF assms(3)] chunksSent_dlog [OF assms(1)] by simp
  have "postMessages E l messages lastChance s0 = postMessagesFrom E l messages lastChance i s"
    by (rule chunksSent_postMessages [OF assms(1)])
  also have "\<dots> = Some (sendFailed E l messages lastChance i (upperBoundAt l messages i) err s1)"
    by (rule postMessagesFrom_failed [OF b(2) assms(2,3)])
  finally show ?thesis
    using sendFailed_drop [OF assms(4) b(1) b(3) b(4) assms(5), of E err s1] by (simp add: d)
qed


lemma postMessages_split:
  assumes "postMessages E l messages lastChance s0 = Some (Inr (rest, s'))"
  shows "\<exists>j sj d u. chunksSent E l messages s0 j sj \<and> d = min (nat j) (length messages) \<and>
         d \<le> u \<and> u \<le> length messages \<and>
         messages = take d messages @ take (u - d) (drop d messages) @ rest \<and>
         rest = drop u messages \<and>
         filter isRecordEntry (dlog s') =
           filter isRecordEntry (dlog s0) @
           map (unsentEntry E) (take (u - d) (drop d messages)) \<and>
         (lastChance \<longrightarrow> u = length messages) \<and>
         (u = length messages \<or> int u = j \<or> int u = upperBoundAt l messages j)"
proof -
  from assms have "loopOutcome E l messages lastChance s0 rest s'" by (rule postMessages_outcome)
  then obtain j sj where cs: "chunksSent E l messages s0 j sj"
    and alt: "(int (length messages) \<le> j \<and> rest = [] \<and> s' = sj) \<or>
         (\<exists>chunk err s1. j < int (length messages) \<and>
            go_slice messages j (upperBoundAt l messages j) = Some chunk \<and>
            tryPostMessages E l chunk sj = (Some err, s1) \<and>
            sendFailed E l messages lastChance j (upperBoundAt l messages j) err s1 = Inr (rest, s'))"
    unfolding loopOutcome_def by blast
  define d where "d = min (nat j) (length messages)"
  let ?goal = "\<lambda>d u. d \<le> u \<and> u \<le> length messages \<and>
         messages = take d messages @ take (u - d) (drop d messages) @ rest \<and>
         rest = drop u messages \<and>
         filter isRecordEntry (dlog s') =
           filter isRecordEntry (dlog s0) @
           map (unsentEntry E) (take (u - d) (drop d messages)) \<and>
         (lastChance \<longrightarrow> u = length messages) \<and>
         (u = length messages \<or> int u = j \<or> int u = upperBoundAt l messages j)"
  have "\<exists>u. ?goal d u"
    using alt
  proof (elim disjE conjE exE)
    assume a: "int (length messages) \<le> j" "rest = []" "s' = sj"
    then have "d = length messages" unfolding d_def by linarith
    then have "?goal d (length messages)" using a chunksSent_dlog [OF cs] by simp
    then show ?thesis ..
  next
    fix chunk err s1
    assume a: "j < int (length messages)"
      "go_slice messages j (upperBoundAt l messages j) = Some chunk"
      "tryPostMessages E l chunk sj = (Some err, s1)"
      "sendFailed E l messages lastChance j (upperBoundAt l messages j) err s1 = Inr (rest, s')"
    from failed_chunk_bounds [OF a(2,3)]
    have b: "0 \<le> j" "j \<le> upperBoundAt l messages j"
      "upperBoundAt l messages j \<le> int (length messages)" by auto
    have dj: "d = nat j" using a(1) b(1) unfolding d_def by linarith
    have d: "dlog s1 = dlog s0"
      using tryPostMessages_dlog [OF a(3)] chunksSent_dlog [OF cs] by simp
    show ?thesis
    proof (cases "lastChance \<or> bufferMaximum l \<le> int (length messages) - j")
      case True
      define u where "u = (if lastChance then int (length messages) else upperBoundAt l messages j)"
      have ub: "j \<le> u" "u \<le> int (length messages)" using b a(1) by (auto simp: u_def)
      from sendFailed_drop [OF True b(1) b(2) b(3) u_def, of E err s1] a(4)
      have r: "rest = drop (nat u) messages"
        and s: "s' = s1\<lparr>dlog := dlog s1 @ [WarnErrorWhileSendingLogs err] @
                 map (unsentEntry E) (take (nat (u - j)) (drop (nat j) messages))\<rparr>" by auto
      have n: "nat (u - j) = nat u - nat j" using b(1) ub by linarith
      have le: "nat j \<le> nat u" "nat u \<le> length messages" using b(1) ub by linarith+
      have k: "(lastChance \<longrightarrow> nat u = length messages) \<and>
          (nat u = length messages \<or> int (nat u) = j \<or> int (nat u) = upperBoundAt l messages j)"
        using b(1) ub by (auto simp: u_def)
      have "?goal d (nat u)"
        using le three_ranges [OF le(1), of messages] k by (simp add: r s d n dj)
      then show ?thesis ..
    next
      case False
      then have f: "\<not> lastChance" "int (length messages) - j < bufferMaximum l" by auto
      from sendFailed_keep [OF f b(1), where upperBound = "upperBoundAt l messages j" and E = E
          and err = err and ?s1.0 = s1] a(1,4)
      have r: "rest = drop (nat j) messages"
        and s: "s' = s1\<lparr>dlog := dlog s1 @ [WarnErrorWhileSendingLogs err]\<rparr>" by auto
      have "?goal d (nat j)" using a(1) b(1) f(1) by (simp add: r s d dj)
      then show ?thesis ..
    qed
  qed
  with cs d_def show ?thesis by blast
qed


theorem postMessages_overflow_drops_one_chunk_witness:
  "chunksSent scriptedCollector (exampleLogger 2 4) (map exampleRecord [''1'', ''2'', ''3'', ''4''])
     (startSys [503]) 0 (startSys [503]) \<and>
   go_slice (map exampleRecord [''1'', ''2'', ''3'', ''4'']) 0
     (upperBoundAt (exampleLogger 2 4) (map exampleRecord [''1'', ''2'', ''3'', ''4'']) 0) =
     Some (map exampleRecord [''1'', ''2'']) \<and>
   tryPostMessages scriptedCollector (exampleLogger 2 4) (map exampleRecord [''1'', ''2''])
     (startSys [503]) =
     (Some (FailedToSendEvent ''status'' ''text''),
      \<lparr>world = [], requests = [exampleRequest ''{1}{2}''], dlog = []\<rparr>) \<and>
   bufferMaximum (exampleLogger 2 4) \<le> int (length (map exampleRecord [''1'', ''2'', ''3'', ''4''])) - 0 \<and>
   postMessages scriptedCollector (exampleLogger 2 4) (map exampleRecord [''1'', ''2'', ''3'', ''4''])
     False (startSys [503]) =
     Some (Inr (map exampleRecord [''3'', ''4''],
       \<lparr>world = [], requests = [exampleRequest ''{1}{2}''],
        dlog = [WarnErrorWhileSendingLogs (FailedToSendEvent ''status'' ''text''),
                ErrorFailedToSend ''{1}'', ErrorFailedToSend ''{2}'']\<rparr>))"
proof -
  let ?ms = "map exampleRecord [''1'', ''2'', ''3'', ''4'']"
  have h1: "chunksSent scriptedCollector (exampleLogger 2 4) ?ms (startSys [503]) 0 (startSys [503])"
    by (rule chunksSent.start)
  note h2 = example_first_chunk
  note h3 = example_failed_send
  have h4: "False \<or> bufferMaximum (exampleLogger 2 4) \<le> int (length ?ms) - 0"
    by (simp add: exampleLogger_def)
  have h5: "2 = (if False then int (length ?ms) else upperBoundAt (exampleLogger 2 4) ?ms 0)"
    by (simp add: upperBoundAt_def exampleLogger_def)
  from postMessages_overflow_drops_one_chunk [OF h1 h2 h3 h4 h5] h1 h2 h3 h4
  show ?thesis
    by (simp add: unsentEntry_def scriptedCollector_def exampleRecord_def startSys_def)
qed

text \<open>
  The specification's own example: batch size 2, buffer maximum 4, four records and a
  collector that fails. The claim drops all four records; the code logs and drops the two
  records of the failed chunk and returns the other two.
\<close>

theorem postMessages_overflow_counterexample:
  "go_slice (map exampleRecord [''1'', ''2'', ''3'', ''4'']) 0
     (upperBoundAt (exampleLogger 2 4) (map exampleRecord [''1'', ''2'', ''3'', ''4'']) 0) =
     Some (map exampleRecord [''1'', ''2'']) \<and>
   fst (tryPostMessages scriptedCollector (exampleLogger 2 4) (map exampleRecord [''1'', ''2''])
     (startSys [503])) = Some (FailedToSendEvent ''status'' ''text'') \<and>
   bufferMaximum (exampleLogger 2 4) \<le> int (length (map exampleRecord [''1'', ''2'', ''3'', ''4''])) - 0 \<and>
   map_option (map_sum id fst)
     (postMessages scriptedCollector (exampleLogger 2 4)
        (map exampleRecord [''1'', ''2'', ''3'', ''4'']) False (startSys [503])) =
     Some (Inr (map exampleRecord [''3'', ''4''])) \<and>
   drop (nat (specDroppedUpTo (exampleLogger 2 4) (map exampleRecord [''1'', ''2'', ''3'', ''4'']) False 0))
     (map exampleRecord [''1'', ''2'', ''3'', ''4'']) = [] \<and>
   map_option (map_sum id fst)
     (postMessages scriptedCollector (exampleLogger 2 4)
        (map exampleRecord [''1'', ''2'', ''3'', ''4'']) False (startSys [503])) \<noteq>
     Some (Inr (drop (nat (specDroppedUpTo (exampleLogger 2 4)
        (map exampleRecord [''1'', ''2'', ''3'', ''4'']) False 0))
        (map exampleRecord [''1'', ''2'', ''3'', ''4''])))"
proof -
  let ?ms = "map exampleRecord [''1'', ''2'', ''3'', ''4'']"
  have p: "postMessages scriptedCollector (exampleLogger 2 4) ?ms False (startSys [503]) =
     Some (Inr (map exampleRecord [''3'', ''4''],
       \<lparr>world = [], requests = [exampleRequest ''{1}{2}''],
        dlog = [WarnErrorWhileSendingLogs (FailedToSendEvent ''status'' ''text''),
                ErrorFailedToSend ''{1}'', ErrorFailedToSend ''{2}'']\<rparr>))"
    by (simp add: postMessages_def postMessagesFrom.simps upperBoundAt_def go_slice_def
        sendFailed_def logUnsent.simps unsentEntry_def send_defs example_defs)
  have d: "specDroppedUpTo (exampleLogger 2 4) ?ms False 0 = 4"
    by (simp add: specDroppedUpTo_def exampleLogger_def)
  show ?thesis
    unfolding p d using example_first_chunk example_failed_send
    by (simp add: exampleLogger_def exampleRecord_def)
qed

lemma example_three_sent_first:
  "chunksSent scriptedCollector (exampleLogger 2 4) (map exampleRecord [''1'', ''2'', ''3''])
     (startSys [200, 503]) 2 \<lparr>world = [503], requests = [exampleRequest ''{1}{2}''], dlog = []\<rparr>"
proof -
  let ?ms = "map exampleRecord [''1'', ''2'', ''3'']"
  have a: "(0::int) < int (length ?ms)" by simp
  have b: "go_slice ?ms 0 (upperBoundAt (exampleLogger 2 4) ?ms 0) = Some (map exampleRecord [''1'', ''2''])"
    by (simp add: go_slice_def upperBoundAt_def exampleLogger_def)
  have c: "tryPostMessages scriptedCollector (exampleLogger 2 4) (map exampleRecord [''1'', ''2''])
      (startSys [200, 503]) =
      (None, \<lparr>world = [503], requests = [exampleRequest ''{1}{2}''], dlog = []\<rparr>)"
    by (simp add: send_defs example_defs)
  from chunksSent.sent [OF chunksSent.start a b c] show ?thesis
    by (simp add: exampleLogger_def)
qed

theorem postMessages_keeps_unsent_below_maximum_witness:
  "chunksSent scriptedCollector (exampleLogger 2 4) (map exampleRecord [''1'', ''2'', ''3''])
     (startSys [200, 503]) 2 \<lparr>world = [503], requests = [exampleRequest ''{1}{2}''], dlog = []\<rparr> \<and>
   go_slice (map exampleRecord [''1'', ''2'', ''3'']) 2
     (upperBoundAt (exampleLogger 2 4) (map exampleRecord [''1'', ''2'', ''3'']) 2) =
     Some [exampleRecord ''3''] \<and>
   tryPostMessages scriptedCollector (exampleLogger 2 4) [exampleRecord ''3'']
     \<lparr>world = [503], requests = [exampleRequest ''{1}{2}''], dlog = []\<rparr> =
     (Some (FailedToSendEvent ''status'' ''text''),
      \<lparr>world = [], requests = [exampleRequest ''{1}{2}'', exampleRequest ''{3}''], dlog = []\<rparr>) \<and>
   int (length (map exampleRecord [''1'', ''2'', ''3''])) - 2 < bufferMaximum (exampleLogger 2 4) \<and>
   postMessages scriptedCollector (exampleLogger 2 4) (map exampleRecord [''1'', ''2'', ''3''])
     False (startSys [200, 503]) =
     Some (Inr ([exampleRecord ''3''],
       \<lparr>world = [], requests = [exampleRequest ''{1}{2}'', exampleRequest ''{3}''],
        dlog = [WarnErrorWhileSendingLogs (FailedToSendEvent ''status'' ''text'')]\<rparr>))"
proof -
  let ?ms = "map exampleRecord [''1'', ''2'', ''3'']"
  note h1 = example_three_sent_first
  have h2: "go_slice ?ms 2 (upperBoundAt (exampleLogger 2 4) ?ms 2) = Some [exampleRecord ''3'']"
    by (simp add: go_slice_def upperBoundAt_def exampleLogger_def)
  have h3: "tryPostMessages scriptedCollector (exampleLogger 2 4) [exampleRecord ''3'']
     \<lparr>world = [503], requests = [exampleRequest ''{1}{2}''], dlog = []\<rparr> =
     (Some (FailedToSendEvent ''status'' ''text''),
      \<lparr>world = [], requests = [exampleRequest ''{1}{2}'', exampleRequest ''{3}''], dlog = []\<rparr>)"
    by (simp add: send_defs example_defs)
  have h4: "int (length ?ms) - 2 < bufferMaximum (exampleLogger 2 4)"
    by (simp add: exampleLogger_def)
  from postMessages_keeps_unsent_below_maximum [OF h1 h2 h3 h4] h1 h2 h3 h4
  show ?thesis by (simp add: startSys_def)
qed



subsection \<open>The send: tryPostMessages\<close>

lemma readAllLimited_cases:
  "readAllLimited (RespBody bytes ending) 1024 =
     (case ending of
        EndOfBody \<Rightarrow> Inr (take 1024 bytes)
      | FailsWithLastBytes err \<Rightarrow> if length bytes \<le> 1024 then Inl err else Inr (take 1024 bytes)
      | FailsAtNextRead err \<Rightarrow> if length bytes < 1024 then Inl err else Inr (take 1024 bytes))"
  by (simp split: body_end.split)

lemma doRequest_requests:
  "doRequest E l messages s = (r, s') \<Longrightarrow>
   requests s' = requests s \<or> (\<exists>req. requests s' = requests s @ [req])"
  by (auto simp: doRequest_def Let_def split: sum.splits option.splits prod.splits)

lemma doRequest_response:
  "doRequest E l messages s = (Inr resp, s') \<Longrightarrow>
   \<exists>req w. requests s' = requests s @ [req] \<and> client_Do E w req = (Inr resp, world s')"
  by (auto simp: doRequest_def Let_def split: sum.splits option.splits prod.splits)

text \<open>
  C7, as the code has it. A send of no records succeeds and leaves the effects as they
  were: no request is issued. A send of records that ends before there is a response
  fails with that error. When there is a response, one request has been issued, and the
  send succeeds if and only if the status is 200. On any other status the send fails. Its
  error holds the status text and the first 1024 bytes of the body, or all of a shorter
  body, when these are read without a read error. It is the read error, and holds nothing
  of the body, when a \<open>Read\<close> of the body fails before 1024 bytes have been read or
  together with the last of them.
\<close>

theorem tryPostMessages_success_iff_status_200:
  "tryPostMessages E l [] s = (None, s) \<and>
   (messages \<noteq> [] \<longrightarrow>
      (case doRequest E l messages s of
         (Inl err, s') \<Rightarrow> tryPostMessages E l messages s = (Some err, s')
       | (Inr resp, s') \<Rightarrow>
           (\<exists>req. requests s' = requests s @ [req]) \<and>
           snd (tryPostMessages E l messages s) = s' \<and>
           (fst (tryPostMessages E l messages s) = None \<longleftrightarrow> StatusCode resp = 200) \<and>
           (StatusCode resp \<noteq> 200 \<longrightarrow>
              (\<forall>bytes ending. Body resp = RespBody bytes ending \<longrightarrow>
                 fst (tryPostMessages E l messages s) =
                   Some (case ending of
                      EndOfBody \<Rightarrow> FailedToSendEvent (Status resp) (take 1024 bytes)
                    | FailsWithLastBytes err \<Rightarrow>
                        if length bytes \<le> 1024 then err
                        else FailedToSendEvent (Status resp) (take 1024 bytes)
                    | FailsAtNextRead err \<Rightarrow>
                        if length bytes < 1024 then err
                        else FailedToSendEvent (Status resp) (take 1024 bytes))))))"
proof (rule conjI)
  show "tryPostMessages E l [] s = (None, s)" by (simp add: tryPostMessages_def)
next
  show "messages \<noteq> [] \<longrightarrow>
      (case doRequest E l messages s of
         (Inl err, s') \<Rightarrow> tryPostMessages E l messages s = (Some err, s')
       | (Inr resp, s') \<Rightarrow>
           (\<exists>req. requests s' = requests s @ [req]) \<and>
           snd (tryPostMessages E l messages s) = s' \<and>
           (fst (tryPostMessages E l messages s) = None \<longleftrightarrow> StatusCode resp = 200) \<and>
           (StatusCode resp \<noteq> 200 \<longrightarrow>
              (\<forall>bytes ending. Body resp = RespBody bytes ending \<longrightarrow>
                 fst (tryPostMessages E l messages s) =
                   Some (case ending of
                      EndOfBody \<Rightarrow> FailedToSendEvent (Status resp) (take 1024 bytes)
                    | FailsWithLastBytes err \<Rightarrow>
                        if length bytes \<le> 1024 then err
                        else FailedToSendEvent (Status resp) (take 1024 bytes)
                    | FailsAtNextRead err \<Rightarrow>
                        if length bytes < 1024 then err
                        else FailedToSendEvent (Status resp) (take 1024 bytes)))))"
  proof
    assume ne: "messages \<noteq> []"
    obtain r s' where d: "doRequest E l messages s = (r, s')" by force
    show "case doRequest E l messages s of
         (Inl err, s') \<Rightarrow> tryPostMessages E l messages s = (Some err, s')
       | (Inr resp, s') \<Rightarrow>
           (\<exists>req. requests s' = requests s @ [req]) \<and>
           snd (tryPostMessages E l messages s) = s' \<and>
           (fst (tryPostMessages E l messages s) = None \<longleftrightarrow> StatusCode resp = 200) \<and>
           (StatusCode resp \<noteq> 200 \<longrightarrow>
              (\<forall>bytes ending. Body resp = RespBody bytes ending \<longrightarrow>
                 fst (tryPostMessages E l messages s) =
                   Some (case ending of
                      EndOfBody \<Rightarrow> FailedToSendEvent (Status resp) (take 1024 bytes)
                    | FailsWithLastBytes err \<Rightarrow>
                        if length bytes \<le> 1024 then err
                        else FailedToSendEvent (Status resp) (take 1024 bytes)
                    | FailsAtNextRead err \<Rightarrow>
                        if length bytes < 1024 then err
                        else FailedToSendEvent (Status resp) (take 1024 bytes))))"
    proof (cases r)
      case (Inl err)
      with d ne show ?thesis by (simp add: tryPostMessages_def)
    next
      case (Inr resp)
      from doRequest_response [OF d [unfolded Inr]]
      have rq: "\<exists>req. requests s' = requests s @ [req]" by blast
      have t: "tryPostMessages E l messages s = (checkResponse resp, s')"
        using d ne Inr by (simp add: tryPostMessages_def)
      have ok: "checkResponse resp = None \<longleftrightarrow> StatusCode resp = 200"
        by (simp add: checkResponse_def http_StatusOK_def split: sum.splits)
      have bad: "checkResponse resp =
            Some (case ending of
                      EndOfBody \<Rightarrow> FailedToSendEvent (Status resp) (take 1024 bytes)
                    | FailsWithLastBytes err \<Rightarrow>
                        if length bytes \<le> 1024 then err
                        else FailedToSendEvent (Status resp) (take 1024 bytes)
                    | FailsAtNextRead err \<Rightarrow>
                        if length bytes < 1024 then err
                        else FailedToSendEvent (Status resp) (take 1024 bytes))"
        if "StatusCode resp \<noteq> 200" "Body resp = RespBody bytes ending" for bytes ending
        using that
        by (simp add: checkResponse_def http_StatusOK_def maxResponseSize_def
              readAllLimited_cases split: body_end.split)
      show ?thesis unfolding d Inr t fst_conv snd_conv prod.case sum.case
        using rq ok bad by blast
    qed
  qed
qed

lemma example_doRequest_503:
  "doRequest scriptedCollector (exampleLogger 2 4) [exampleRecord ''1''] (startSys [503]) =
     (Inr \<lparr>StatusCode = 503, Status = ''status'', Body = RespBody ''text'' EndOfBody\<rparr>,
      \<lparr>world = [], requests = [exampleRequest ''{1}''], dlog = []\<rparr>)"
  by (simp add: send_defs example_defs)

theorem tryPostMessages_success_iff_status_200_witness:
  "[exampleRecord ''1''] \<noteq> [] \<and>
   doRequest scriptedCollector (exampleLogger 2 4) [exampleRecord ''1''] (startSys [503]) =
     (Inr \<lparr>StatusCode = 503, Status = ''status'', Body = RespBody ''text'' EndOfBody\<rparr>,
      \<lparr>world = [], requests = [exampleRequest ''{1}''], dlog = []\<rparr>) \<and>
   fst (tryPostMessages scriptedCollector (exampleLogger 2 4) [exampleRecord ''1''] (startSys [503])) =
     Some (FailedToSendEvent ''status'' ''text'') \<and>
   snd (tryPostMessages scriptedCollector (exampleLogger 2 4) [exampleRecord ''1''] (startSys [503])) =
     \<lparr>world = [], requests = [exampleRequest ''{1}''], dlog = []\<rparr>"
proof -
  have ne: "[exampleRecord ''1''] \<noteq> []" by simp
  from tryPostMessages_success_iff_status_200 [of scriptedCollector "exampleLogger 2 4" "startSys [503]" "[exampleRecord ''1'']",
      THEN conjunct2, rule_format, OF ne]
  have "snd (tryPostMessages scriptedCollector (exampleLogger 2 4) [exampleRecord ''1''] (startSys [503])) =
      \<lparr>world = [], requests = [exampleRequest ''{1}''], dlog = []\<rparr> \<and>
    (\<forall>bytes ending. RespBody ''text'' EndOfBody = RespBody bytes ending \<longrightarrow>
       fst (tryPostMessages scriptedCollector (exampleLogger 2 4) [exampleRecord ''1''] (startSys [503])) =
         Some (case ending of
                 EndOfBody \<Rightarrow> FailedToSendEvent ''status'' (take 1024 bytes)
               | FailsWithLastBytes err \<Rightarrow>
                   if length bytes \<le> 1024 then err
                   else FailedToSendEvent ''status'' (take 1024 bytes)
               | FailsAtNextRead err \<Rightarrow>
                   if length bytes < 1024 then err
                   else FailedToSendEvent ''status'' (take 1024 bytes)))"
    unfolding example_doRequest_503 by simp
  then have "snd (tryPostMessages scriptedCollector (exampleLogger 2 4) [exampleRecord ''1''] (startSys [503])) =
      \<lparr>world = [], requests = [exampleRequest ''{1}''], dlog = []\<rparr>"
    and "fst (tryPostMessages scriptedCollector (exampleLogger 2 4) [exampleRecord ''1''] (startSys [503])) =
      Some (FailedToSendEvent ''status'' ''text'')"
    by simp_all
  with ne example_doRequest_503 show ?thesis by simp
qed

text \<open>
  A status of 503 whose body breaks off after three bytes: the error returned is the read
  error of line 522, which holds nothing of the body.
\<close>

theorem tryPostMessages_unreadable_body_counterexample:
  "doRequest brokenBodyCollector (exampleLogger 2 4) [exampleRecord ''1''] (startSys []) =
     (Inr \<lparr>StatusCode = 503, Status = ''503 Service Unavailable'',
            Body = RespBody ''abc'' (FailsAtNextRead (LibError ''unexpected EOF''))\<rparr>,
      \<lparr>world = [], requests = [exampleRequest ''{1}''], dlog = []\<rparr>) \<and>
   fst (tryPostMessages brokenBodyCollector (exampleLogger 2 4) [exampleRecord ''1''] (startSys [])) =
     Some (LibError ''unexpected EOF'') \<and>
   fst (tryPostMessages brokenBodyCollector (exampleLogger 2 4) [exampleRecord ''1''] (startSys [])) \<noteq>
     Some (FailedToSendEvent ''503 Service Unavailable'' (take 1024 ''abc''))"
  by (simp add: send_defs example_defs brokenBodyCollector_def)

lemma writeMessages_append:
  "writeMessages E messages written = Inr result \<Longrightarrow>
   \<exists>jsons. map (json_Marshal E) messages = map Inr jsons \<and> result = written @ jsons"
proof (induction messages arbitrary: written)
  case Nil
  then show ?case by simp
next
  case (Cons m ms)
  from Cons.prems obtain j where j: "json_Marshal E m = Inr j"
    and w: "writeMessages E ms (written @ [j]) = Inr result"
    by (auto split: sum.splits)
  from Cons.IH [OF w] obtain js where "map (json_Marshal E) ms = map Inr js"
    "result = (written @ [j]) @ js" by blast
  then have "map (json_Marshal E) (m # ms) = map Inr (j # js) \<and> result = written @ (j # js)"
    using j by simp
  then show ?case by blast
qed

lemma doRequest_issued:
  assumes "doRequest E l messages s = (r, s')" "requests s' \<noteq> requests s"
  shows "\<exists>buffer hs w. requestBody E l messages = Inr buffer \<and>
           http_NewRequest_error E ''POST'' (url l) = None \<and>
           requestHeaders E l (world s) = (Inr hs, w) \<and>
           requests s' = requests s @
             [\<lparr>req_method = ''POST'', req_url = url l, req_headers = hs, req_body = buffer\<rparr>]"
  using assms
  by (auto simp: doRequest_def Let_def split: sum.splits option.splits prod.splits)

lemma requestHeaders_issued:
  "requestHeaders E l w = (Inr hs, w') \<Longrightarrow>
   \<exists>hs0. requestHeaders E (l\<lparr>gzipCompression := False\<rparr>) w = (Inr hs0, w')"
  by (auto simp: requestHeaders_def Let_def split: if_splits sum.splits prod.splits)

text \<open>
  C8. Let \<open>gunzip\<close> decompress what a gzip writer of the logger's level produces. When the
  sender issues a request with compression enabled, the sender with compression disabled
  issues one for the same records from the same state, its body is the concatenation of
  the records' JSON serializations, and decompressing the compressed body gives exactly
  that body.
\<close>

theorem gzip_request_body_roundtrip:
  assumes lib: "\<forall>written. gunzip (gzip_output E (gzipCompressionLevel l) written) = Some (concat written)"
    and on: "gzipCompression l"
    and sent: "doRequest E l messages s = (r, s')" "requests s' \<noteq> requests s"
  shows "\<exists>req req0 r0 s0 jsons.
           requests s' = requests s @ [req] \<and>
           doRequest E (l\<lparr>gzipCompression := False\<rparr>) messages s = (r0, s0) \<and>
           requests s0 = requests s @ [req0] \<and>
           map (json_Marshal E) messages = map Inr jsons \<and>
           req_body req0 = concat jsons \<and>
           gunzip (req_body req) = Some (req_body req0)"
proof -
  from doRequest_issued [OF sent] obtain buffer hs w where
    b: "requestBody E l messages = Inr buffer"
    and n: "http_NewRequest_error E ''POST'' (url l) = None"
    and h: "requestHeaders E l (world s) = (Inr hs, w)"
    and q: "requests s' = requests s @
             [\<lparr>req_method = ''POST'', req_url = url l, req_headers = hs, req_body = buffer\<rparr>]"
    by blast
  from b on obtain written where w: "writeMessages E messages [] = Inr written"
    and buf: "buffer = gzip_output E (gzipCompressionLevel l) written"
    by (auto simp: requestBody_def split: if_splits sum.splits)
  from writeMessages_append [OF w] obtain jsons where
    j: "map (json_Marshal E) messages = map Inr jsons" "written = jsons" by auto
  have b0: "requestBody E (l\<lparr>gzipCompression := False\<rparr>) messages = Inr (concat jsons)"
    using w j by (simp add: requestBody_def)
  from requestHeaders_issued [OF h] obtain hs0 where
    h0: "requestHeaders E (l\<lparr>gzipCompression := False\<rparr>) (world s) = (Inr hs0, w)" by blast
  obtain r0 w0 where c: "client_Do E w
      \<lparr>req_method = ''POST'', req_url = url l, req_headers = hs0, req_body = concat jsons\<rparr> = (r0, w0)"
    by force
  have d0: "doRequest E (l\<lparr>gzipCompression := False\<rparr>) messages s =
      (r0, s\<lparr>world := w0, requests := requests s @
        [\<lparr>req_method = ''POST'', req_url = url l, req_headers = hs0, req_body = concat jsons\<rparr>]\<rparr>)"
    using b0 n h0 c by (simp add: doRequest_def Let_def)
  have g: "gunzip buffer = Some (concat jsons)" using lib buf j by simp
  show ?thesis
    using q d0 j(1) g
    by (intro exI [of _ "\<lparr>req_method = ''POST'', req_url = url l, req_headers = hs, req_body = buffer\<rparr>"]
        exI [of _ "\<lparr>req_method = ''POST'', req_url = url l, req_headers = hs0, req_body = concat jsons\<rparr>"]
        exI [of _ r0] exI [of _ "s\<lparr>world := w0, requests := requests s @
        [\<lparr>req_method = ''POST'', req_url = url l, req_headers = hs0, req_body = concat jsons\<rparr>]\<rparr>"]
        exI [of _ jsons]) simp
qed


lemma example_gunzip:
  "\<forall>written. exampleGunzip (gzip_output scriptedCollector
      (gzipCompressionLevel ((exampleLogger 2 4)\<lparr>gzipCompression := True\<rparr>)) written) =
     Some (concat written)"
  by (simp add: exampleGunzip_def scriptedCollector_def)

lemma example_gzip_request:
  "doRequest scriptedCollector ((exampleLogger 2 4)\<lparr>gzipCompression := True\<rparr>)
     (map exampleRecord [''1'', ''2'']) (startSys [200]) =
   (Inr \<lparr>StatusCode = 200, Status = ''status'', Body = RespBody ''text'' EndOfBody\<rparr>,
    \<lparr>world = [],
     requests = [(exampleRequest ''gz{1}{2}'')
        \<lparr>req_headers := [(''Authorization'', ''Splunk token''), (''Content-Encoding'', ''gzip'')]\<rparr>],
     dlog = []\<rparr>)"
  by (simp add: send_defs example_defs)

theorem gzip_request_body_roundtrip_witness:
  "(\<forall>written. exampleGunzip (gzip_output scriptedCollector
      (gzipCompressionLevel ((exampleLogger 2 4)\<lparr>gzipCompression := True\<rparr>)) written) =
     Some (concat written)) \<and>
   gzipCompression ((exampleLogger 2 4)\<lparr>gzipCompression := True\<rparr>) \<and>
   doRequest scriptedCollector ((exampleLogger 2 4)\<lparr>gzipCompression := True\<rparr>)
     (map exampleRecord [''1'', ''2'']) (startSys [200]) =
   (Inr \<lparr>StatusCode = 200, Status = ''status'', Body = RespBody ''text'' EndOfBody\<rparr>,
    \<lparr>world = [],
     requests = [(exampleRequest ''gz{1}{2}'')
        \<lparr>req_headers := [(''Authorization'', ''Splunk token''), (''Content-Encoding'', ''gzip'')]\<rparr>],
     dlog = []\<rparr>) \<and>
   (\<exists>req req0 r0 s0 jsons.
       [(exampleRequest ''gz{1}{2}'')
        \<lparr>req_headers := [(''Authorization'', ''Splunk token''), (''Content-Encoding'', ''gzip'')]\<rparr>] =
         requests (startSys [200 :: int]) @ [req] \<and>
       doRequest scriptedCollector ((exampleLogger 2 4)\<lparr>gzipCompression := True, gzipCompression := False\<rparr>)
         (map exampleRecord [''1'', ''2'']) (startSys [200]) = (r0, s0) \<and>
       requests s0 = requests (startSys [200 :: int]) @ [req0] \<and>
       map (json_Marshal scriptedCollector) (map exampleRecord [''1'', ''2'']) = map Inr jsons \<and>
       req_body req0 = concat jsons \<and>
       exampleGunzip (req_body req) = Some (req_body req0))"
proof -
  note h1 = example_gunzip
  have h2: "gzipCompression ((exampleLogger 2 4)\<lparr>gzipCompression := True\<rparr>)" by simp
  note h3 = example_gzip_request
  have h4: "requests \<lparr>world = [],
     requests = [(exampleRequest ''gz{1}{2}'')
        \<lparr>req_headers := [(''Authorization'', ''Splunk token''), (''Content-Encoding'', ''gzip'')]\<rparr>],
     dlog = []\<rparr> \<noteq> requests (startSys [200 :: int])"
    by (simp add: startSys_def)
  from gzip_request_body_roundtrip [OF h1 h2 h3 h4] h1 h2 h3 show ?thesis
    by (simp only: sys.select_convs) blast
qed

subsection \<open>The driver at run time\<close>

lemma flushStep_cases:
  assumes "flushStep E l lastChance d = Some (d2, rest)"
  shows "(\<exists>p. postMessages E l (workerMessages d) lastChance (effects d) = Some (Inl p) \<and>
            d2 = d\<lparr>crashed := Some p\<rparr> \<and> rest = workerMessages d) \<or>
         (\<exists>s'. postMessages E l (workerMessages d) lastChance (effects d) = Some (Inr (rest, s')) \<and>
            d2 = d\<lparr>effects := s',
                  flushes := flushes d @
                    [\<lparr>fl_messages = workerMessages d, fl_lastChance = lastChance,
                      fl_before = effects d, fl_rest = rest, fl_after = s'\<rparr>]\<rparr>)"
  using assms unfolding flushStep_def
  by (auto split: option.splits sum.splits prod.splits)

lemma lockInv_init: "lockInv (initDriver s)"
  by (simp add: lockInv_def initDriver_def)

lemma stepQueueMessageAsync_cases:
  assumes "stepQueueMessageAsync l tid message pc d = Some d'"
  obtains
    (rlock) "pc = QStart" "lockWriter d = None"
      "d' = d\<lparr>lockReaders := insert tid (lockReaders d),
                calls := (calls d)(tid \<mapsto> QueueMessageAsync message QLocked)\<rparr>"
  | (refused) "pc = QLocked" "closedCond d \<noteq> None"
      "d' = d\<lparr>lockReaders := lockReaders d - {tid},
                calls := (calls d)(tid \<mapsto> QueueMessageAsync message (QReturned (Some DriverClosed)))\<rparr>"
  | (passed) "pc = QLocked" "closedCond d = None"
      "d' = d\<lparr>calls := (calls d)(tid \<mapsto> QueueMessageAsync message QSending)\<rparr>"
  | (send_panic) "pc = QSending" "streamClosed d" "d' = d\<lparr>crashed := Some SendOnClosedChannel\<rparr>"
  | (sent) "pc = QSending" "\<not> streamClosed d" "int (length (stream d)) < streamChannelSize l"
      "d' = d\<lparr>stream := stream d @ [message], accepted := accepted d @ [message],
                lockReaders := lockReaders d - {tid},
                calls := (calls d)(tid \<mapsto> QueueMessageAsync message (QReturned None))\<rparr>"
  using assms by (cases pc) (auto simp: stepQueueMessageAsync_def split: if_splits)

lemma stepClose_cases:
  assumes "stepClose tid pc d = Some d'"
  obtains
    (lock) "pc = CStart" "lockFree d"
      "d' = d\<lparr>lockWriter := Some (Caller tid), calls := (calls d)(tid \<mapsto> Close CLocked)\<rparr>"
  | (initiate) "pc = CLocked" "closedCond d = None"
      "d' = d\<lparr>closedCond := Some [], calls := (calls d)(tid \<mapsto> Close CCloseStream)\<rparr>"
  | (found) "pc = CLocked" "closedCond d \<noteq> None"
      "d' = d\<lparr>lockWriter := None, calls := (calls d)(tid \<mapsto> Close (CReturned False))\<rparr>"
  | (close_panic) "pc = CCloseStream" "streamClosed d" "d' = d\<lparr>crashed := Some CloseOfClosedChannel\<rparr>"
  | (close_stream) "pc = CCloseStream" "\<not> streamClosed d"
      "d' = d\<lparr>streamClosed := True, calls := (calls d)(tid \<mapsto> Close CLoop)\<rparr>"
  | (return) "pc = CLoop" "closed d"
      "d' = d\<lparr>lockWriter := None, calls := (calls d)(tid \<mapsto> Close (CReturned True))\<rparr>"
  | (wait_panic) "pc = CLoop" "\<not> closed d" "closedCond d = None"
      "d' = d\<lparr>crashed := Some NilPointerDereference\<rparr>"
  | (wait) waiting where "pc = CLoop" "\<not> closed d" "closedCond d = Some waiting"
      "d' = d\<lparr>lockWriter := None, closedCond := Some (waiting @ [tid]),
                calls := (calls d)(tid \<mapsto> Close CWaiting)\<rparr>"
  | (relock) "pc = CSignalled" "lockFree d"
      "d' = d\<lparr>lockWriter := Some (Caller tid), calls := (calls d)(tid \<mapsto> Close CLoop)\<rparr>"
proof (cases pc)
  case CStart
  with assms have "lockFree d \<and>
      d' = d\<lparr>lockWriter := Some (Caller tid), calls := (calls d)(tid \<mapsto> Close CLocked)\<rparr>"
    by (simp add: stepClose_def split: if_splits)
  with CStart show ?thesis by (intro lock) simp_all
next
  case CLocked
  show ?thesis
  proof (cases "closedCond d = None")
    case True
    with assms CLocked have
      "d' = d\<lparr>closedCond := Some [], calls := (calls d)(tid \<mapsto> Close CCloseStream)\<rparr>"
      by (simp add: stepClose_def)
    with CLocked True show ?thesis by (intro initiate) simp_all
  next
    case False
    with assms CLocked have
      "d' = d\<lparr>lockWriter := None, calls := (calls d)(tid \<mapsto> Close (CReturned False))\<rparr>"
      by (simp add: stepClose_def)
    with CLocked False show ?thesis by (intro found) simp_all
  qed
next
  case CCloseStream
  show ?thesis
  proof (cases "streamClosed d")
    case True
    with assms CCloseStream have "d' = d\<lparr>crashed := Some CloseOfClosedChannel\<rparr>"
      by (simp add: stepClose_def)
    with CCloseStream True show ?thesis by (intro close_panic) simp_all
  next
    case False
    with assms CCloseStream have
      "d' = d\<lparr>streamClosed := True, calls := (calls d)(tid \<mapsto> Close CLoop)\<rparr>"
      by (simp add: stepClose_def)
    with CCloseStream False show ?thesis by (intro close_stream) simp_all
  qed
next
  case CLoop
  show ?thesis
  proof (cases "closed d")
    case True
    with assms CLoop have
      "d' = d\<lparr>lockWriter := None, calls := (calls d)(tid \<mapsto> Close (CReturned True))\<rparr>"
      by (simp add: stepClose_def)
    with CLoop True show ?thesis by (intro return) simp_all
  next
    case nc: False
    show ?thesis
    proof (cases "closedCond d")
      case None
      with assms CLoop nc have "d' = d\<lparr>crashed := Some NilPointerDereference\<rparr>"
        by (simp add: stepClose_def)
      with CLoop nc None show ?thesis by (intro wait_panic) simp_all
    next
      case (Some waiting)
      with assms CLoop nc have
        "d' = d\<lparr>lockWriter := None, closedCond := Some (waiting @ [tid]),
                calls := (calls d)(tid \<mapsto> Close CWaiting)\<rparr>"
        by (simp add: stepClose_def)
      with CLoop nc Some show ?thesis by (intro wait [of waiting]) simp_all
    qed
  qed
next
  case CWaiting
  with assms show ?thesis by (simp add: stepClose_def)
next
  case CSignalled
  with assms have "lockFree d \<and>
      d' = d\<lparr>lockWriter := Some (Caller tid), calls := (calls d)(tid \<mapsto> Close CLoop)\<rparr>"
    by (simp add: stepClose_def split: if_splits)
  with CSignalled show ?thesis by (intro relock) simp_all
next
  case (CReturned b)
  with assms show ?thesis by (simp add: stepClose_def)
qed

lemma workerStep_cases:
  assumes "workerStep d = Some d'"
  obtains
    (lock) "worker d = WFlushed" "lockFree d" "d' = d\<lparr>lockWriter := Some Worker, worker := WLocked\<rparr>"
  | (signal_panic) "worker d = WLocked" "closedCond d = None"
      "d' = d\<lparr>closed := True, crashed := Some NilPointerDereference\<rparr>"
  | (finish) "worker d = WLocked" "closedCond d = Some []"
      "d' = d\<lparr>closed := True, lockWriter := None, worker := WDone\<rparr>"
  | (signal) tid waiting where "worker d = WLocked" "closedCond d = Some (tid # waiting)"
      "d' = d\<lparr>closed := True, closedCond := Some waiting, lockWriter := None,
                worker := WDone, calls := (calls d)(tid \<mapsto> Close CSignalled)\<rparr>"
proof (cases "worker d")
  case WLoop
  with assms show ?thesis by (simp add: workerStep_def)
next
  case WFlushed
  with assms have "lockFree d \<and> d' = d\<lparr>lockWriter := Some Worker, worker := WLocked\<rparr>"
    by (simp add: workerStep_def split: if_splits)
  with WFlushed show ?thesis by (intro lock) simp_all
next
  case WLocked
  show ?thesis
  proof (cases "closedCond d")
    case None
    with assms WLocked have "d' = d\<lparr>closed := True, crashed := Some NilPointerDereference\<rparr>"
      by (simp add: workerStep_def)
    with WLocked None show ?thesis by (intro signal_panic) simp_all
  next
    case (Some waiters)
    show ?thesis
    proof (cases waiters)
      case Nil
      with assms WLocked Some have "d' = d\<lparr>closed := True, lockWriter := None, worker := WDone\<rparr>"
        by (simp add: workerStep_def)
      with WLocked Some Nil show ?thesis by (intro finish) simp_all
    next
      case (Cons tid waiting)
      with assms WLocked Some have
        "d' = d\<lparr>closed := True, closedCond := Some waiting, lockWriter := None,
                worker := WDone, calls := (calls d)(tid \<mapsto> Close CSignalled)\<rparr>"
        by (simp add: workerStep_def)
      with WLocked Some Cons show ?thesis by (intro signal [of tid waiting]) simp_all
    qed
  qed
next
  case WDone
  with assms show ?thesis by (simp add: workerStep_def)
qed

lemma flushStep_obtain:
  assumes "flushStep E l lastChance d = Some (d2, rest)"
  obtains
    (panic) p where "postMessages E l (workerMessages d) lastChance (effects d) = Some (Inl p)"
      "d2 = d\<lparr>crashed := Some p\<rparr>" "rest = workerMessages d"
  | (returned) s' where
      "postMessages E l (workerMessages d) lastChance (effects d) = Some (Inr (rest, s'))"
      "d2 = d\<lparr>effects := s',
                flushes := flushes d @
                  [\<lparr>fl_messages = workerMessages d, fl_lastChance = lastChance,
                    fl_before = effects d, fl_rest = rest, fl_after = s'\<rparr>]\<rparr>"
  using flushStep_cases [OF assms] by blast

lemma workerMessage_cases:
  assumes "workerMessage E l message d = Some d'"
  obtains
    (rem_panic) "postMessagesBatchSize l = 0"
      "d' = d\<lparr>workerMessages := workerMessages d @ [message], crashed := Some IntegerDivideByZero\<rparr>"
  | (kept) "postMessagesBatchSize l \<noteq> 0"
      "int (length (workerMessages d @ [message])) smod postMessagesBatchSize l \<noteq> 0"
      "d' = d\<lparr>workerMessages := workerMessages d @ [message]\<rparr>"
  | (flush_panic) p where "postMessagesBatchSize l \<noteq> 0"
      "int (length (workerMessages d @ [message])) smod postMessagesBatchSize l = 0"
      "postMessages E l (workerMessages d @ [message]) False (effects d) = Some (Inl p)"
      "d' = d\<lparr>workerMessages := workerMessages d @ [message], crashed := Some p\<rparr>"
  | (flushed) rest s' where "postMessagesBatchSize l \<noteq> 0"
      "int (length (workerMessages d @ [message])) smod postMessagesBatchSize l = 0"
      "postMessages E l (workerMessages d @ [message]) False (effects d) = Some (Inr (rest, s'))"
      "d' = d\<lparr>workerMessages := rest, effects := s',
                flushes := flushes d @
                  [\<lparr>fl_messages = workerMessages d @ [message], fl_lastChance = False,
                    fl_before = effects d, fl_rest = rest, fl_after = s'\<rparr>]\<rparr>"
proof (cases "postMessagesBatchSize l = 0")
  case True
  with assms have "d' = d\<lparr>workerMessages := workerMessages d @ [message],
      crashed := Some IntegerDivideByZero\<rparr>"
    by (simp add: workerMessage_def go_rem_def Let_def)
  with True show ?thesis by (rule rem_panic)
next
  case nz: False
  show ?thesis
  proof (cases "int (length (workerMessages d @ [message])) smod postMessagesBatchSize l = 0")
    case False
    with assms nz have "d' = d\<lparr>workerMessages := workerMessages d @ [message]\<rparr>"
      by (simp add: workerMessage_def go_rem_def Let_def)
    with nz False show ?thesis by (rule kept)
  next
    case True
    with assms nz obtain d2 rest where
      f: "flushStep E l False (d\<lparr>workerMessages := workerMessages d @ [message]\<rparr>) = Some (d2, rest)"
      and d': "d' = d2\<lparr>workerMessages := rest\<rparr>"
      by (auto simp: workerMessage_def go_rem_def Let_def split: option.splits)
    from f show ?thesis
    proof (cases rule: flushStep_obtain)
      case (panic p)
      then show ?thesis using nz True d' by (intro flush_panic [of p]) simp_all
    next
      case (returned s')
      then show ?thesis using nz True d' by (intro flushed [of rest s']) simp_all
    qed
  qed
qed

lemma writer_facts:
  assumes "lockInv d" "lockWriter d = Some (Caller tid)"
  shows "lockReaders d = {}" "worker d \<noteq> WLocked"
    "\<And>t. calls d t = Some (Close CLocked) \<Longrightarrow> t = tid"
    "\<And>t. calls d t = Some (Close CCloseStream) \<Longrightarrow> t = tid"
    "\<And>t. calls d t = Some (Close CLoop) \<Longrightarrow> t = tid"
    "\<And>t m. calls d t \<noteq> Some (QueueMessageAsync m QLocked)"
    "\<And>t m. calls d t \<noteq> Some (QueueMessageAsync m QSending)"
  using assms unfolding lockInv_def by auto

lemma worker_writer_facts:
  assumes "lockInv d" "lockWriter d = Some Worker"
  shows "lockReaders d = {}"
    "\<And>t. calls d t \<noteq> Some (Close CLocked)"
    "\<And>t. calls d t \<noteq> Some (Close CCloseStream)"
    "\<And>t. calls d t \<noteq> Some (Close CLoop)"
    "\<And>t m. calls d t \<noteq> Some (QueueMessageAsync m QLocked)"
    "\<And>t m. calls d t \<noteq> Some (QueueMessageAsync m QSending)"
  using assms unfolding lockInv_def by auto

lemma free_facts:
  assumes "lockInv d" "lockFree d"
  shows "worker d \<noteq> WLocked"
    "\<And>t. calls d t \<noteq> Some (Close CLocked)"
    "\<And>t. calls d t \<noteq> Some (Close CCloseStream)"
    "\<And>t. calls d t \<noteq> Some (Close CLoop)"
    "\<And>t m. calls d t \<noteq> Some (QueueMessageAsync m QLocked)"
    "\<And>t m. calls d t \<noteq> Some (QueueMessageAsync m QSending)"
  using assms unfolding lockInv_def lockFree_def by auto

lemma no_writer_facts:
  assumes "lockInv d" "lockWriter d = None"
  shows "worker d \<noteq> WLocked"
    "\<And>t. calls d t \<noteq> Some (Close CLocked)"
    "\<And>t. calls d t \<noteq> Some (Close CCloseStream)"
    "\<And>t. calls d t \<noteq> Some (Close CLoop)"
  using assms unfolding lockInv_def by auto

lemma holds_lock:
  assumes "lockInv d"
  shows "calls d tid = Some (Close CLocked) \<Longrightarrow> lockWriter d = Some (Caller tid)"
    "calls d tid = Some (Close CCloseStream) \<Longrightarrow> lockWriter d = Some (Caller tid)"
    "calls d tid = Some (Close CLoop) \<Longrightarrow> lockWriter d = Some (Caller tid)"
    "worker d = WLocked \<Longrightarrow> lockWriter d = Some Worker"
    "calls d tid = Some (QueueMessageAsync m QLocked) \<Longrightarrow> lockWriter d = None"
    "calls d tid = Some (QueueMessageAsync m QSending) \<Longrightarrow> lockWriter d = None"
  using assms unfolding lockInv_def by auto

lemma lockInv_frame:
  "lockInv d \<Longrightarrow> lockWriter d' = lockWriter d \<Longrightarrow> lockReaders d' = lockReaders d \<Longrightarrow>
   worker d' = worker d \<Longrightarrow> calls d' = calls d \<Longrightarrow> lockInv d'"
  by (simp add: lockInv_def)

lemma lockInv_stepQueue:
  assumes inv: "lockInv d" and c: "calls d tid = Some (QueueMessageAsync message pc)"
    and s: "stepQueueMessageAsync l tid message pc d = Some d'"
  shows "lockInv d'"
proof (cases pc)
  case QStart
  from s have w: "lockWriter d = None"
    and d': "d' = d\<lparr>lockReaders := insert tid (lockReaders d),
                     calls := (calls d)(tid \<mapsto> QueueMessageAsync message QLocked)\<rparr>"
    by (auto simp: stepQueueMessageAsync_def QStart split: if_splits)
  show ?thesis
    using inv w unfolding d' lockInv_def
    by (intro conjI allI impI) (simp_all split: if_splits)
next
  case QLocked
  note w = holds_lock(5) [OF inv c [unfolded QLocked]]
  from s have "d' = d\<lparr>lockReaders := lockReaders d - {tid},
                 calls := (calls d)(tid \<mapsto> QueueMessageAsync message (QReturned (Some DriverClosed)))\<rparr> \<or>
               d' = d\<lparr>calls := (calls d)(tid \<mapsto> QueueMessageAsync message QSending)\<rparr>"
    by (auto simp: stepQueueMessageAsync_def QLocked split: if_splits)
  then show ?thesis
  proof
    assume d': "d' = d\<lparr>lockReaders := lockReaders d - {tid},
                 calls := (calls d)(tid \<mapsto> QueueMessageAsync message (QReturned (Some DriverClosed)))\<rparr>"
    show ?thesis
      using inv w unfolding d' lockInv_def
      by (intro conjI allI impI) (simp_all split: if_splits)
  next
    assume d': "d' = d\<lparr>calls := (calls d)(tid \<mapsto> QueueMessageAsync message QSending)\<rparr>"
    show ?thesis
      using inv w c unfolding d' lockInv_def QLocked
      by (intro conjI allI impI) (simp_all split: if_splits)
  qed
next
  case QSending
  note w = holds_lock(6) [OF inv c [unfolded QSending]]
  from s have "d' = d\<lparr>crashed := Some SendOnClosedChannel\<rparr> \<or>
      d' = d\<lparr>stream := stream d @ [message], accepted := accepted d @ [message],
                        lockReaders := lockReaders d - {tid},
                        calls := (calls d)(tid \<mapsto> QueueMessageAsync message (QReturned None))\<rparr>"
    by (auto simp: stepQueueMessageAsync_def QSending split: if_splits)
  then show ?thesis
  proof
    assume d': "d' = d\<lparr>crashed := Some SendOnClosedChannel\<rparr>"
    show ?thesis using inv unfolding d' by (rule lockInv_frame) simp_all
  next
    assume d': "d' = d\<lparr>stream := stream d @ [message], accepted := accepted d @ [message],
                        lockReaders := lockReaders d - {tid},
                        calls := (calls d)(tid \<mapsto> QueueMessageAsync message (QReturned None))\<rparr>"
    show ?thesis
      using inv w unfolding d' lockInv_def
      by (intro conjI allI impI) (simp_all split: if_splits)
  qed
next
  case (QReturned r)
  with s show ?thesis by (simp add: stepQueueMessageAsync_def)
qed

lemma lockInv_stepClose:
  assumes inv: "lockInv d" and c: "calls d tid = Some (Close pc)"
    and s: "stepClose tid pc d = Some d'"
  shows "lockInv d'"
proof (cases pc)
  case CStart
  from s have f: "lockFree d"
    and d': "d' = d\<lparr>lockWriter := Some (Caller tid), calls := (calls d)(tid \<mapsto> Close CLocked)\<rparr>"
    by (auto simp: stepClose_def CStart split: if_splits)
  show ?thesis
    using inv f unfolding d' lockInv_def lockFree_def
    by (intro conjI allI impI) (simp_all split: if_splits)
next
  case CLocked
  note w = holds_lock(1) [OF inv c [unfolded CLocked]]
  note wf = writer_facts [OF inv w]
  from s have "d' = d\<lparr>closedCond := Some [], calls := (calls d)(tid \<mapsto> Close CCloseStream)\<rparr> \<or>
      d' = d\<lparr>lockWriter := None, calls := (calls d)(tid \<mapsto> Close (CReturned False))\<rparr>"
    by (auto simp: stepClose_def CLocked split: if_splits)
  then show ?thesis
  proof
    assume d': "d' = d\<lparr>closedCond := Some [], calls := (calls d)(tid \<mapsto> Close CCloseStream)\<rparr>"
    show ?thesis
      using inv w unfolding d' lockInv_def
      by (intro conjI allI impI) (simp_all split: if_splits)
  next
    assume d': "d' = d\<lparr>lockWriter := None, calls := (calls d)(tid \<mapsto> Close (CReturned False))\<rparr>"
    show ?thesis
      using wf unfolding d' lockInv_def
      by (intro conjI allI impI) (auto split: if_splits)
  qed
next
  case CCloseStream
  note w = holds_lock(2) [OF inv c [unfolded CCloseStream]]
  from s have "d' = d\<lparr>crashed := Some CloseOfClosedChannel\<rparr> \<or>
      d' = d\<lparr>streamClosed := True, calls := (calls d)(tid \<mapsto> Close CLoop)\<rparr>"
    by (auto simp: stepClose_def CCloseStream split: if_splits)
  then show ?thesis
  proof
    assume d': "d' = d\<lparr>crashed := Some CloseOfClosedChannel\<rparr>"
    show ?thesis using inv unfolding d' by (rule lockInv_frame) simp_all
  next
    assume d': "d' = d\<lparr>streamClosed := True, calls := (calls d)(tid \<mapsto> Close CLoop)\<rparr>"
    show ?thesis
      using inv w unfolding d' lockInv_def
      by (intro conjI allI impI) (simp_all split: if_splits)
  qed
next
  case CLoop
  note w = holds_lock(3) [OF inv c [unfolded CLoop]]
  note wf = writer_facts [OF inv w]
  from s have "d' = d\<lparr>crashed := Some NilPointerDereference\<rparr> \<or>
      d' = d\<lparr>lockWriter := None, calls := (calls d)(tid \<mapsto> Close (CReturned True))\<rparr> \<or>
      (\<exists>waiting. d' = d\<lparr>lockWriter := None, closedCond := Some (waiting @ [tid]),
                          calls := (calls d)(tid \<mapsto> Close CWaiting)\<rparr>)"
    by (auto simp: stepClose_def CLoop split: if_splits option.splits)
  then show ?thesis
  proof (elim disjE exE)
    assume d': "d' = d\<lparr>crashed := Some NilPointerDereference\<rparr>"
    show ?thesis using inv unfolding d' by (rule lockInv_frame) simp_all
  next
    assume d': "d' = d\<lparr>lockWriter := None, calls := (calls d)(tid \<mapsto> Close (CReturned True))\<rparr>"
    show ?thesis
      using wf unfolding d' lockInv_def
      by (intro conjI allI impI) (auto split: if_splits)
  next
    fix waiting
    assume d': "d' = d\<lparr>lockWriter := None, closedCond := Some (waiting @ [tid]),
                          calls := (calls d)(tid \<mapsto> Close CWaiting)\<rparr>"
    show ?thesis
      using wf unfolding d' lockInv_def
      by (intro conjI allI impI) (auto split: if_splits)
  qed
next
  case CWaiting
  with s show ?thesis by (simp add: stepClose_def)
next
  case CSignalled
  from s have f: "lockFree d"
    and d': "d' = d\<lparr>lockWriter := Some (Caller tid), calls := (calls d)(tid \<mapsto> Close CLoop)\<rparr>"
    by (auto simp: stepClose_def CSignalled split: if_splits)
  show ?thesis
    using inv f unfolding d' lockInv_def lockFree_def
    by (intro conjI allI impI) (simp_all split: if_splits)
next
  case (CReturned b)
  with s show ?thesis by (simp add: stepClose_def)
qed

lemma shutdownInv_init: "shutdownInv (initDriver s)"
  by (simp add: shutdownInv_def initDriver_def)

lemma shutdownInv_frame:
  "shutdownInv d \<Longrightarrow> streamClosed d' = streamClosed d \<Longrightarrow> closedCond d' = closedCond d \<Longrightarrow>
   calls d' = calls d \<Longrightarrow> worker d' = worker d \<Longrightarrow> stream d' = stream d \<Longrightarrow>
   closed d' = closed d \<Longrightarrow> (crashed d' = None \<Longrightarrow> crashed d = None) \<Longrightarrow> shutdownInv d'"
  unfolding shutdownInv_def by simp

lemma shutdownInv_stepQueue:
  assumes inv: "shutdownInv d" and li: "lockInv d"
    and c: "calls d tid = Some (QueueMessageAsync message pc)"
    and s: "stepQueueMessageAsync l tid message pc d = Some d'"
  shows "shutdownInv d'"
  using s
proof (cases rule: stepQueueMessageAsync_cases)
  case rlock
  show ?thesis using inv c unfolding rlock(3) shutdownInv_def
    by (intro conjI allI impI; (simp del: not_None_eq split: if_splits)?; (elim conjE)?; (simp del: not_None_eq)?; blast?)
next
  case refused
  show ?thesis using inv c unfolding refused(3) shutdownInv_def
    by (intro conjI allI impI; (simp del: not_None_eq split: if_splits)?; (elim conjE)?; (simp del: not_None_eq)?; blast?)
next
  case passed
  show ?thesis using inv c passed(2) unfolding passed(3) shutdownInv_def
    by (intro conjI allI impI; (simp del: not_None_eq split: if_splits)?; (elim conjE)?; (simp del: not_None_eq)?; blast?)
next
  case send_panic
  show ?thesis using inv unfolding send_panic(3) by (rule shutdownInv_frame) simp_all
next
  case sent
  have "closedCond d = None" using inv c sent(1) unfolding shutdownInv_def by blast
  then have w: "worker d = WLoop" using inv unfolding shutdownInv_def by blast
  show ?thesis using inv c w unfolding sent(4) shutdownInv_def
    by (intro conjI allI impI; (simp del: not_None_eq split: if_splits)?; (elim conjE)?; (simp del: not_None_eq)?; blast?)
qed

lemma shutdownInv_stepClose:
  assumes inv: "shutdownInv d" and li: "lockInv d"
    and c: "calls d tid = Some (Close pc)"
    and s: "stepClose tid pc d = Some d'" and nc: "crashed d = None"
  shows "shutdownInv d'"
  using s
proof (cases rule: stepClose_cases)
  case lock
  show ?thesis using inv c unfolding lock(3) shutdownInv_def
    by (intro conjI allI impI; (simp del: not_None_eq split: if_splits)?; (elim conjE)?; (simp del: not_None_eq)?; blast?)
next
  case initiate
  note wf = writer_facts [OF li holds_lock(1) [OF li c [unfolded initiate(1)]]]
  show ?thesis using inv c wf(7) unfolding initiate(3) shutdownInv_def
    by (intro conjI allI impI; (simp del: not_None_eq split: if_splits)?; (elim conjE)?; (simp del: not_None_eq)?; blast?)
next
  case found
  show ?thesis using inv c unfolding found(3) shutdownInv_def
    by (intro conjI allI impI; (simp del: not_None_eq split: if_splits)?; (elim conjE)?; (simp del: not_None_eq)?; blast?)
next
  case close_panic
  show ?thesis using inv unfolding close_panic(3) by (rule shutdownInv_frame) simp_all
next
  case close_stream
  have "closedCond d \<noteq> None" using inv c close_stream(1) unfolding shutdownInv_def by blast
  then show ?thesis using inv c unfolding close_stream(3) shutdownInv_def
    by (intro conjI allI impI; (simp del: not_None_eq split: if_splits)?; (elim conjE)?; (simp del: not_None_eq)?; blast?)
next
  case return
  have "worker d = WDone" using inv return(2) nc unfolding shutdownInv_def by blast
  then show ?thesis using inv c unfolding return(3) shutdownInv_def
    by (intro conjI allI impI; (simp del: not_None_eq split: if_splits)?; (elim conjE)?; (simp del: not_None_eq)?; blast?)
next
  case wait_panic
  show ?thesis using inv unfolding wait_panic(4) by (rule shutdownInv_frame) simp_all
next
  case (wait waiting)
  show ?thesis using inv c wait(3) unfolding wait(4) shutdownInv_def
    by (intro conjI allI impI; (simp del: not_None_eq split: if_splits)?; (elim conjE)?; (simp del: not_None_eq)?; blast?)
next
  case relock
  show ?thesis using inv c unfolding relock(3) shutdownInv_def
    by (intro conjI allI impI; (simp del: not_None_eq split: if_splits)?; (elim conjE)?; (simp del: not_None_eq)?; blast?)
qed

lemma shutdownInv_workerStep:
  assumes inv: "shutdownInv d" and s: "workerStep d = Some d'"
  shows "shutdownInv d'"
  using s
proof (cases rule: workerStep_cases)
  case lock
  show ?thesis using inv lock(1) unfolding lock(3) shutdownInv_def
    by (intro conjI allI impI; (simp del: not_None_eq split: if_splits)?; (elim conjE)?; (simp del: not_None_eq)?; blast?)
next
  case signal_panic
  show ?thesis using inv signal_panic(1) unfolding signal_panic(3) shutdownInv_def
    by (intro conjI allI impI; (simp del: not_None_eq split: if_splits)?; (elim conjE)?; (simp del: not_None_eq)?; blast?)
next
  case finish
  show ?thesis using inv finish(1) unfolding finish(3) shutdownInv_def
    by (intro conjI allI impI; (simp del: not_None_eq split: if_splits)?; (elim conjE)?; (simp del: not_None_eq)?; blast?)
next
  case (signal tid waiting)
  show ?thesis using inv signal(1,2) unfolding signal(3) shutdownInv_def
    by (intro conjI allI impI; (simp del: not_None_eq split: if_splits)?; (elim conjE)?; (simp del: not_None_eq)?; blast?)
qed

lemma lockInv_workerStep:
  assumes inv: "lockInv d" and s: "workerStep d = Some d'"
  shows "lockInv d'"
  using s
proof (cases rule: workerStep_cases)
  case lock
  show ?thesis using inv lock(2) unfolding lock(3) lockInv_def lockFree_def
    by (intro conjI allI impI; (simp del: not_None_eq split: if_splits)?; (elim conjE)?; (simp del: not_None_eq)?; blast?)
next
  case signal_panic
  show ?thesis using inv unfolding signal_panic(3) by (rule lockInv_frame) simp_all
next
  case finish
  note wf = worker_writer_facts [OF inv holds_lock(4) [OF inv finish(1)]]
  show ?thesis using wf unfolding finish(3) lockInv_def
    by (intro conjI allI impI; (simp del: not_None_eq split: if_splits)?; (elim conjE)?; (simp del: not_None_eq)?; blast?)
next
  case (signal tid waiting)
  note wf = worker_writer_facts [OF inv holds_lock(4) [OF inv signal(1)]]
  show ?thesis using wf unfolding signal(3) lockInv_def
    by (intro conjI allI impI; (simp del: not_None_eq split: if_splits)?; (elim conjE)?; (simp del: not_None_eq)?; blast?)
qed

lemma workerStart_cases:
  assumes "workerStart l d = Some d'"
  obtains
    (ticker_panic) "worker d = WLoop" "postMessagesFrequency l \<le> 0"
      "d' = d\<lparr>crashed := Some NonPositiveTickerInterval\<rparr>"
  | (ticker) "worker d = WLoop" "0 < postMessagesFrequency l" "d' = d\<lparr>tickerCreated := True\<rparr>"
proof (cases "postMessagesFrequency l \<le> 0")
  case True
  with assms have "worker d = WLoop" "d' = d\<lparr>crashed := Some NonPositiveTickerInterval\<rparr>"
    by (simp_all add: workerStart_def split: if_splits)
  with True show ?thesis by (intro ticker_panic)
next
  case False
  with assms have "worker d = WLoop" "d' = d\<lparr>tickerCreated := True\<rparr>"
    by (simp_all add: workerStart_def split: if_splits)
  with False show ?thesis by (intro ticker) simp_all
qed

lemma workerReceive_cases:
  assumes "workerReceive E l d = Some d'" "crashed d = None"
  obtains
    (message) m queued where "worker d = WLoop" "stream d = m # queued"
      "workerMessage E l m (d\<lparr>stream := queued\<rparr>) = Some d'"
  | (last_panic) p where "worker d = WLoop" "stream d = []" "streamClosed d"
      "postMessages E l (workerMessages d) True (effects d) = Some (Inl p)"
      "d' = d\<lparr>crashed := Some p\<rparr>"
  | (last) rest s' where "worker d = WLoop" "stream d = []" "streamClosed d"
      "postMessages E l (workerMessages d) True (effects d) = Some (Inr (rest, s'))"
      "d' = d\<lparr>effects := s',
                flushes := flushes d @
                  [\<lparr>fl_messages = workerMessages d, fl_lastChance = True,
                    fl_before = effects d, fl_rest = rest, fl_after = s'\<rparr>],
                worker := WFlushed\<rparr>"
proof -
  from assms(1) have w: "worker d = WLoop" and tc: "tickerCreated d"
    by (simp_all add: workerReceive_def split: if_splits)
  show ?thesis
  proof (cases "stream d")
    case (Cons m queued)
    with assms(1) w tc have "workerMessage E l m (d\<lparr>stream := queued\<rparr>) = Some d'"
      by (simp add: workerReceive_def)
    with w Cons show ?thesis by (rule message)
  next
    case Nil
    with assms(1) w tc have sc: "streamClosed d" by (simp add: workerReceive_def split: if_splits)
    with assms(1) w tc Nil obtain d2 rest where f: "flushStep E l True d = Some (d2, rest)"
      and d': "d' = (if crashed d2 = None then d2\<lparr>worker := WFlushed\<rparr> else d2)"
      by (auto simp: workerReceive_def split: option.splits)
    from f show ?thesis
    proof (cases rule: flushStep_obtain)
      case (panic p)
      with d' have "d' = d\<lparr>crashed := Some p\<rparr>" by simp
      with w Nil sc panic(1) show ?thesis by (rule last_panic)
    next
      case (returned s')
      with d' assms(2) have "d' = d\<lparr>effects := s',
                flushes := flushes d @
                  [\<lparr>fl_messages = workerMessages d, fl_lastChance = True,
                    fl_before = effects d, fl_rest = rest, fl_after = s'\<rparr>],
                worker := WFlushed\<rparr>" by simp
      with w Nil sc returned(1) show ?thesis by (rule last)
    qed
  qed
qed

lemma workerReceiveFrom_cases:
  assumes "workerReceiveFrom E l tid d = Some d'"
  obtains m where "worker d = WLoop" "stream d = []" "\<not> streamClosed d"
    "calls d tid = Some (QueueMessageAsync m QSending)"
    "workerMessage E l m
       (d\<lparr>accepted := accepted d @ [m], lockReaders := lockReaders d - {tid},
           calls := (calls d)(tid \<mapsto> QueueMessageAsync m (QReturned None))\<rparr>) = Some d'"
proof -
  from assms have a: "worker d = WLoop" "stream d = []" "\<not> streamClosed d" "tickerCreated d"
    by (auto simp: workerReceiveFrom_def split: if_splits)
  show ?thesis
  proof (cases "calls d tid")
    case None
    with assms a show ?thesis by (simp add: workerReceiveFrom_def)
  next
    case (Some c)
    show ?thesis
    proof (cases c)
      case (QueueMessageAsync m pc)
      show ?thesis
      proof (cases pc)
        case QSending
        with assms a Some QueueMessageAsync
        have "workerMessage E l m
           (d\<lparr>accepted := accepted d @ [m], lockReaders := lockReaders d - {tid},
               calls := (calls d)(tid \<mapsto> QueueMessageAsync m (QReturned None))\<rparr>) = Some d'"
          by (simp add: workerReceiveFrom_def)
        with a Some QueueMessageAsync QSending show ?thesis by (intro that [of m]) simp_all
      qed (use assms a Some QueueMessageAsync in \<open>simp_all add: workerReceiveFrom_def\<close>)
    qed (use assms a Some in \<open>simp_all add: workerReceiveFrom_def\<close>)
  qed
qed

lemma workerTick_cases:
  assumes "workerTick E l d = Some d'"
  obtains
    (tick_panic) p where "worker d = WLoop"
      "postMessages E l (workerMessages d) False (effects d) = Some (Inl p)"
      "d' = d\<lparr>crashed := Some p\<rparr>"
  | (tick) rest s' where "worker d = WLoop"
      "postMessages E l (workerMessages d) False (effects d) = Some (Inr (rest, s'))"
      "d' = d\<lparr>workerMessages := rest, effects := s',
                flushes := flushes d @
                  [\<lparr>fl_messages = workerMessages d, fl_lastChance = False,
                    fl_before = effects d, fl_rest = rest, fl_after = s'\<rparr>]\<rparr>"
proof -
  from assms have w: "worker d = WLoop" and tc: "tickerCreated d"
    by (simp_all add: workerTick_def split: if_splits)
  with assms obtain d2 rest where f: "flushStep E l False d = Some (d2, rest)"
    and d': "d' = d2\<lparr>workerMessages := rest\<rparr>"
    by (auto simp: workerTick_def split: option.splits)
  from f show ?thesis
  proof (cases rule: flushStep_obtain)
    case (panic p)
    with d' have "d' = d\<lparr>crashed := Some p\<rparr>" by simp
    with w panic(1) show ?thesis by (rule tick_panic)
  next
    case (returned s')
    with d' have "d' = d\<lparr>workerMessages := rest, effects := s',
                flushes := flushes d @
                  [\<lparr>fl_messages = workerMessages d, fl_lastChance = False,
                    fl_before = effects d, fl_rest = rest, fl_after = s'\<rparr>]\<rparr>" by simp
    with w returned(1) show ?thesis by (rule tick)
  qed
qed

lemma workerMessage_frame:
  assumes "workerMessage E l message d = Some d'"
  shows "stream d' = stream d" "streamClosed d' = streamClosed d" "lockWriter d' = lockWriter d"
    "lockReaders d' = lockReaders d" "closedCond d' = closedCond d" "closed d' = closed d"
    "worker d' = worker d" "calls d' = calls d" "accepted d' = accepted d"
    "crashed d' = None \<Longrightarrow> crashed d = None"
  using assms by (cases rule: workerMessage_cases; simp)+

lemma flush_removed:
  assumes "postMessages E l msgs lastChance s0 = Some (Inr (rest, s'))"
  shows "take (length msgs - length rest) msgs @ rest = msgs" "lastChance \<Longrightarrow> rest = []"
proof -
  from postMessages_split [OF assms] obtain u where u: "u \<le> length msgs" "rest = drop u msgs"
    "lastChance \<longrightarrow> u = length msgs" by blast
  from u show "take (length msgs - length rest) msgs @ rest = msgs" by simp
  from u show "lastChance \<Longrightarrow> rest = []" by simp
qed

lemma handled_snoc: "handled (fs @ [f]) = handled fs @ removed f"
  by (simp add: handled_def)

lemma historyInv_init: "historyInv E l (initDriver s)"
  by (simp add: historyInv_def initDriver_def handled_def pending_def)

lemma historyInv_frame:
  "historyInv E l d \<Longrightarrow> flushes d' = flushes d \<Longrightarrow> accepted d' = accepted d \<Longrightarrow>
   worker d' = worker d \<Longrightarrow> workerMessages d' = workerMessages d \<Longrightarrow> stream d' = stream d \<Longrightarrow>
   historyInv E l d'"
  by (simp add: historyInv_def pending_def)

lemma historyInv_stepQueue:
  assumes inv: "historyInv E l d"
    and s: "stepQueueMessageAsync l tid message pc d = Some d'"
  shows "historyInv E l d'"
  using s
proof (cases rule: stepQueueMessageAsync_cases)
  case rlock
  show ?thesis using inv unfolding rlock(3) by (rule historyInv_frame) simp_all
next
  case refused
  show ?thesis using inv unfolding refused(3) by (rule historyInv_frame) simp_all
next
  case passed
  show ?thesis using inv unfolding passed(3) by (rule historyInv_frame) simp_all
next
  case send_panic
  show ?thesis using inv unfolding send_panic(3) by (rule historyInv_frame) simp_all
next
  case sent
  show ?thesis using inv unfolding sent(4) historyInv_def pending_def by simp
qed

lemma historyInv_stepClose:
  assumes inv: "historyInv E l d" and s: "stepClose tid pc d = Some d'"
  shows "historyInv E l d'"
  using s
  by (cases rule: stepClose_cases; simp; intro historyInv_frame [OF inv]; simp)

lemma historyInv_workerStep:
  assumes inv: "historyInv E l d" and s: "workerStep d = Some d'"
  shows "historyInv E l d'"
  using s
proof (cases rule: workerStep_cases)
  case lock
  show ?thesis using inv lock(1) unfolding lock(3) historyInv_def pending_def by simp
next
  case signal_panic
  show ?thesis using inv unfolding signal_panic(3) by (rule historyInv_frame) simp_all
next
  case finish
  show ?thesis using inv finish(1) unfolding finish(3) historyInv_def pending_def by simp
next
  case (signal tid waiting)
  show ?thesis using inv signal(1) unfolding signal(3) historyInv_def pending_def by simp
qed

lemma historyInv_workerMessage:
  assumes inv: "historyInv E l (d\<lparr>workerMessages := workerMessages d @ [m]\<rparr>)"
    and w: "worker d = WLoop"
    and s: "workerMessage E l m d = Some d'"
  shows "historyInv E l d'"
  using s
proof (cases rule: workerMessage_cases)
  case rem_panic
  show ?thesis using inv unfolding rem_panic(2) historyInv_def pending_def by simp
next
  case kept
  show ?thesis using inv unfolding kept(3) by simp
next
  case (flush_panic p)
  show ?thesis using inv unfolding flush_panic(4) historyInv_def pending_def by simp
next
  case (flushed rest s')
  note r = flush_removed(1) [OF flushed(3)]
  have "handled (flushes d) @ removed
          \<lparr>fl_messages = workerMessages d @ [m], fl_lastChance = False,
            fl_before = effects d, fl_rest = rest, fl_after = s'\<rparr> @ rest @ stream d =
        handled (flushes d) @ (workerMessages d @ [m]) @ stream d"
    using r by (simp add: removed_def)
  then show ?thesis
    using inv w flushed(3) unfolding flushed(4) historyInv_def pending_def
    by (simp add: handled_snoc)
qed

lemma historyInv_workerReceive:
  assumes inv: "historyInv E l d" and nc: "crashed d = None"
    and s: "workerReceive E l d = Some d'"
  shows "historyInv E l d'"
  using s nc
proof (cases rule: workerReceive_cases)
  case (message m queued)
  have "historyInv E l (d\<lparr>stream := queued, workerMessages := workerMessages d @ [m]\<rparr>)"
    using inv message(1,2) unfolding historyInv_def pending_def by simp
  then have "historyInv E l ((d\<lparr>stream := queued\<rparr>)
      \<lparr>workerMessages := workerMessages (d\<lparr>stream := queued\<rparr>) @ [m]\<rparr>)" by simp
  then show ?thesis
    by (rule historyInv_workerMessage) (use message in simp_all)
next
  case (last_panic p)
  show ?thesis using inv unfolding last_panic(5) by (rule historyInv_frame) simp_all
next
  case (last rest s')
  note r = flush_removed [OF last(4)]
  have e: "rest = []" using r(2) by simp
  show ?thesis
    using inv last(1,2,4) r(1) unfolding last(5) historyInv_def pending_def e
    by (simp add: handled_snoc removed_def)
qed

lemma historyInv_workerReceiveFrom:
  assumes inv: "historyInv E l d" and s: "workerReceiveFrom E l tid d = Some d'"
  shows "historyInv E l d'"
  using s
proof (cases rule: workerReceiveFrom_cases)
  case (1 m)
  let ?d = "d\<lparr>accepted := accepted d @ [m], lockReaders := lockReaders d - {tid},
           calls := (calls d)(tid \<mapsto> QueueMessageAsync m (QReturned None))\<rparr>"
  have "historyInv E l (?d\<lparr>workerMessages := workerMessages ?d @ [m]\<rparr>)"
    using inv 1(1,2) unfolding historyInv_def pending_def by simp
  then show ?thesis
    by (rule historyInv_workerMessage) (use 1 in simp_all)
qed

lemma historyInv_workerTick:
  assumes inv: "historyInv E l d" and s: "workerTick E l d = Some d'"
  shows "historyInv E l d'"
  using s
proof (cases rule: workerTick_cases)
  case (tick_panic p)
  show ?thesis using inv unfolding tick_panic(3) by (rule historyInv_frame) simp_all
next
  case (tick rest s')
  note r = flush_removed(1) [OF tick(2)]
  have "handled (flushes d) @ removed
          \<lparr>fl_messages = workerMessages d, fl_lastChance = False,
            fl_before = effects d, fl_rest = rest, fl_after = s'\<rparr> @ rest @ stream d =
        handled (flushes d) @ workerMessages d @ stream d"
    using r by (simp add: removed_def)
  then show ?thesis
    using inv tick(1,2) unfolding tick(3) historyInv_def pending_def
    by (simp add: handled_snoc)
qed

lemma lockInv_workerMessage:
  assumes "lockInv d" "workerMessage E l m d = Some d'"
  shows "lockInv d'"
  using assms(1) by (rule lockInv_frame) (simp_all add: workerMessage_frame [OF assms(2)])

lemma shutdownInv_workerMessage:
  assumes "shutdownInv d" "workerMessage E l m d = Some d'"
  shows "shutdownInv d'"
  using assms(1) by (rule shutdownInv_frame) (simp_all add: workerMessage_frame [OF assms(2)])

lemma lockInv_workerReceive:
  assumes inv: "lockInv d" and nc: "crashed d = None" and s: "workerReceive E l d = Some d'"
  shows "lockInv d'"
  using s nc
proof (cases rule: workerReceive_cases)
  case (message m queued)
  have "lockInv (d\<lparr>stream := queued\<rparr>)" using inv by (rule lockInv_frame) simp_all
  then show ?thesis using message(3) by (rule lockInv_workerMessage)
next
  case (last_panic p)
  show ?thesis using inv unfolding last_panic(5) by (rule lockInv_frame) simp_all
next
  case (last rest s')
  have "lockWriter d \<noteq> Some Worker \<or> lockWriter d = Some Worker" by simp
  show ?thesis using inv last(1) unfolding last(5) lockInv_def
    by (intro conjI allI impI; (simp del: not_None_eq split: if_splits)?; (elim conjE)?;
        (simp del: not_None_eq)?; blast?)
qed

lemma shutdownInv_workerReceive:
  assumes inv: "shutdownInv d" and nc: "crashed d = None" and s: "workerReceive E l d = Some d'"
  shows "shutdownInv d'"
  using s nc
proof (cases rule: workerReceive_cases)
  case (message m queued)
  have "shutdownInv (d\<lparr>stream := queued\<rparr>)"
    using inv message(1) unfolding shutdownInv_def by simp
  then show ?thesis using message(3) by (rule shutdownInv_workerMessage)
next
  case (last_panic p)
  show ?thesis using inv unfolding last_panic(5) by (rule shutdownInv_frame) simp_all
next
  case (last rest s')
  show ?thesis using inv last(1,2,3) unfolding last(5) shutdownInv_def
    by (intro conjI allI impI; (simp del: not_None_eq split: if_splits)?; (elim conjE)?;
        (simp del: not_None_eq)?; blast?)
qed

lemma lockInv_workerReceiveFrom:
  assumes inv: "lockInv d" and s: "workerReceiveFrom E l tid d = Some d'"
  shows "lockInv d'"
  using s
proof (cases rule: workerReceiveFrom_cases)
  case (1 m)
  note w = holds_lock(6) [OF inv 1(4)]
  have "lockInv (d\<lparr>accepted := accepted d @ [m], lockReaders := lockReaders d - {tid},
           calls := (calls d)(tid \<mapsto> QueueMessageAsync m (QReturned None))\<rparr>)"
    using inv w unfolding lockInv_def
    by (intro conjI allI impI; (simp del: not_None_eq split: if_splits)?; (elim conjE)?;
        (simp del: not_None_eq)?; blast?)
  then show ?thesis using 1(5) by (rule lockInv_workerMessage)
qed

lemma shutdownInv_workerReceiveFrom:
  assumes inv: "shutdownInv d" and s: "workerReceiveFrom E l tid d = Some d'"
  shows "shutdownInv d'"
  using s
proof (cases rule: workerReceiveFrom_cases)
  case (1 m)
  have "shutdownInv (d\<lparr>accepted := accepted d @ [m], lockReaders := lockReaders d - {tid},
           calls := (calls d)(tid \<mapsto> QueueMessageAsync m (QReturned None))\<rparr>)"
    using inv 1(1,4) unfolding shutdownInv_def
    by (intro conjI allI impI; (simp del: not_None_eq split: if_splits)?; (elim conjE)?;
        (simp del: not_None_eq)?; blast?)
  then show ?thesis using 1(5) by (rule shutdownInv_workerMessage)
qed

lemma lockInv_workerTick:
  assumes inv: "lockInv d" and s: "workerTick E l d = Some d'"
  shows "lockInv d'"
  using s by (cases rule: workerTick_cases; simp; intro lockInv_frame [OF inv]; simp)

lemma shutdownInv_workerTick:
  assumes inv: "shutdownInv d" and s: "workerTick E l d = Some d'"
  shows "shutdownInv d'"
  using s by (cases rule: workerTick_cases; simp; intro shutdownInv_frame [OF inv]; simp)

lemma driverInv_new_call:
  assumes inv: "driverInv E l d" and f: "calls d tid = None"
    and c: "c = LogSuppressed \<or> (\<exists>m. c = QueueMessageAsync m QStart) \<or> c = Close CStart"
  shows "driverInv E l (d\<lparr>calls := (calls d)(tid \<mapsto> c)\<rparr>)"
proof -
  have n: "c \<noteq> Close CLocked" "c \<noteq> Close CCloseStream" "c \<noteq> Close CLoop"
    "c \<noteq> Close (CReturned True)"
    "\<And>m. c \<noteq> QueueMessageAsync m QLocked" "\<And>m. c \<noteq> QueueMessageAsync m QSending"
    using c by auto
  from inv have li: "lockInv d" and si: "shutdownInv d" and hi: "historyInv E l d"
    unfolding driverInv_def by simp_all
  have "lockInv (d\<lparr>calls := (calls d)(tid \<mapsto> c)\<rparr>)"
    using li unfolding lockInv_def
    by (intro conjI allI impI; (simp del: not_None_eq add: n split: if_splits)?; (elim conjE)?;
        (simp del: not_None_eq)?; blast?)
  moreover have "shutdownInv (d\<lparr>calls := (calls d)(tid \<mapsto> c)\<rparr>)"
    using si unfolding shutdownInv_def
    by (intro conjI allI impI; (simp del: not_None_eq add: n split: if_splits)?; (elim conjE)?;
        (simp del: not_None_eq)?; blast?)
  moreover have "historyInv E l (d\<lparr>calls := (calls d)(tid \<mapsto> c)\<rparr>)"
    using hi by (rule historyInv_frame) simp_all
  ultimately show ?thesis unfolding driverInv_def by simp
qed

lemma driverInv_step:
  assumes inv: "driverInv E l d" and s: "step E l d a = Some d'"
  shows "driverInv E l d'"
proof -
  from s have nc: "crashed d = None" by (simp add: step_def split: if_splits)
  from inv have li: "lockInv d" and si: "shutdownInv d" and hi: "historyInv E l d"
    unfolding driverInv_def by simp_all
  show ?thesis
  proof (cases a)
    case (CallLogRaw tid prefix msg)
    with s nc have f: "calls d tid = None"
      and d': "d' = d\<lparr>calls := (calls d)(tid \<mapsto>
                     (case rawMessage E l prefix msg of
                        None \<Rightarrow> LogSuppressed
                      | Some message \<Rightarrow> QueueMessageAsync message QStart))\<rparr>"
      by (simp_all add: step_def split: if_splits)
    show ?thesis unfolding d'
      by (rule driverInv_new_call [OF inv f]) (simp split: option.split)
  next
    case (CallQueueMessageAsync tid message)
    with s nc have f: "calls d tid = None"
      and d': "d' = d\<lparr>calls := (calls d)(tid \<mapsto> QueueMessageAsync message QStart)\<rparr>"
      by (simp_all add: step_def split: if_splits)
    show ?thesis unfolding d' by (rule driverInv_new_call [OF inv f]) simp
  next
    case (CallClose tid)
    with s nc have f: "calls d tid = None"
      and d': "d' = d\<lparr>calls := (calls d)(tid \<mapsto> Close CStart)\<rparr>"
      by (simp_all add: step_def split: if_splits)
    show ?thesis unfolding d' by (rule driverInv_new_call [OF inv f]) simp
  next
    case (Step tid)
    show ?thesis
    proof (cases "calls d tid")
      case None
      with s nc Step show ?thesis by (simp add: step_def)
    next
      case (Some c)
      show ?thesis
      proof (cases c)
        case (QueueMessageAsync message pc)
        with s nc Step Some have q: "stepQueueMessageAsync l tid message pc d = Some d'"
          by (simp add: step_def)
        note c = Some [unfolded QueueMessageAsync]
        show ?thesis unfolding driverInv_def
          using lockInv_stepQueue [OF li c q] shutdownInv_stepQueue [OF si li c q]
            historyInv_stepQueue [OF hi q] by simp
      next
        case (Close pc)
        with s nc Step Some have q: "stepClose tid pc d = Some d'"
          by (simp add: step_def)
        note c = Some [unfolded Close]
        show ?thesis unfolding driverInv_def
          using lockInv_stepClose [OF li c q] shutdownInv_stepClose [OF si li c q nc]
            historyInv_stepClose [OF hi q] by simp
      next
        case LogSuppressed
        with s nc Step Some show ?thesis by (simp add: step_def)
      qed
    qed
  next
    case WorkerReceive
    with s nc have q: "workerReceive E l d = Some d'" by (simp add: step_def)
    show ?thesis unfolding driverInv_def
      using lockInv_workerReceive [OF li nc q] shutdownInv_workerReceive [OF si nc q]
        historyInv_workerReceive [OF hi nc q] by simp
  next
    case (WorkerReceiveFrom tid)
    with s nc have q: "workerReceiveFrom E l tid d = Some d'" by (simp add: step_def)
    show ?thesis unfolding driverInv_def
      using lockInv_workerReceiveFrom [OF li q] shutdownInv_workerReceiveFrom [OF si q]
        historyInv_workerReceiveFrom [OF hi q] by simp
  next
    case WorkerStart
    with s nc have q: "workerStart l d = Some d'" by (simp add: step_def)
    from q show ?thesis
    proof (cases rule: workerStart_cases)
      case ticker_panic
      have "lockInv d'" unfolding ticker_panic(3) by (rule lockInv_frame [OF li]) simp_all
      moreover have "shutdownInv d'"
        unfolding ticker_panic(3) by (rule shutdownInv_frame [OF si]) simp_all
      moreover have "historyInv E l d'"
        unfolding ticker_panic(3) by (rule historyInv_frame [OF hi]) simp_all
      ultimately show ?thesis unfolding driverInv_def by simp
    next
      case ticker
      have "lockInv d'" unfolding ticker(3) by (rule lockInv_frame [OF li]) simp_all
      moreover have "shutdownInv d'"
        unfolding ticker(3) by (rule shutdownInv_frame [OF si]) (simp_all add: nc)
      moreover have "historyInv E l d'"
        unfolding ticker(3) by (rule historyInv_frame [OF hi]) simp_all
      ultimately show ?thesis unfolding driverInv_def by simp
    qed
  next
    case WorkerTick
    with s nc have q: "workerTick E l d = Some d'" by (simp add: step_def)
    show ?thesis unfolding driverInv_def
      using lockInv_workerTick [OF li q] shutdownInv_workerTick [OF si q]
        historyInv_workerTick [OF hi q] by simp
  next
    case WorkerStep
    with s nc have q: "workerStep d = Some d'" by (simp add: step_def)
    show ?thesis unfolding driverInv_def
      using lockInv_workerStep [OF li q] shutdownInv_workerStep [OF si q]
        historyInv_workerStep [OF hi q] by simp
  qed
qed

lemma reachable_driverInv: "reachable E l s d \<Longrightarrow> driverInv E l d"
proof (induction rule: reachable.induct)
  case init
  show ?case
    by (simp add: driverInv_def lockInv_init shutdownInv_init historyInv_init)
next
  case (step d a d')
  from step.IH step.hyps(2) show ?case by (rule driverInv_step)
qed

lemma run_reachable:
  "reachable E l s d \<Longrightarrow> run E l d acts = Some d' \<Longrightarrow> reachable E l s d'"
proof (induction acts arbitrary: d)
  case Nil
  then show ?case by simp
next
  case (Cons a acts)
  from Cons.prems(2) obtain d1 where s: "step E l d a = Some d1" and r: "run E l d1 acts = Some d'"
    by (cases "step E l d a") simp_all
  from Cons.prems(1) s have "reachable E l s d1" by (rule reachable.step)
  then show ?case using r by (rule Cons.IH)
qed

subsection \<open>Shutdown\<close>

lemma waitInv_frame:
  "waitInv d \<Longrightarrow> closedCond d' = closedCond d \<Longrightarrow> calls d' = calls d \<Longrightarrow> waitInv d'"
  by (simp add: waitInv_def)

lemma waitInv_update:
  assumes "waitInv d" "calls d tid \<noteq> Some (Close CWaiting)"
    "closedCond d' = closedCond d" "calls d' = (calls d)(tid \<mapsto> c)"
  shows "waitInv d'"
  using assms unfolding waitInv_def by (metis fun_upd_other)

lemma waitInv_step:
  assumes inv: "waitInv d" and s: "step E l d a = Some d'"
  shows "waitInv d'"
proof -
  from s have nc: "crashed d = None" by (simp add: step_def split: if_splits)
  show ?thesis
  proof (cases a)
    case (CallLogRaw tid prefix msg)
    with s nc have f: "calls d tid = None"
      and d': "d' = d\<lparr>calls := (calls d)(tid \<mapsto>
                     (case rawMessage E l prefix msg of
                        None \<Rightarrow> LogSuppressed
                      | Some message \<Rightarrow> QueueMessageAsync message QStart))\<rparr>"
      by (simp_all add: step_def split: if_splits)
    show ?thesis unfolding d' by (rule waitInv_update [OF inv, of tid]) (simp_all add: f)
  next
    case (CallQueueMessageAsync tid message)
    with s nc have f: "calls d tid = None"
      and d': "d' = d\<lparr>calls := (calls d)(tid \<mapsto> QueueMessageAsync message QStart)\<rparr>"
      by (simp_all add: step_def split: if_splits)
    show ?thesis unfolding d' by (rule waitInv_update [OF inv, of tid]) (simp_all add: f)
  next
    case (CallClose tid)
    with s nc have f: "calls d tid = None"
      and d': "d' = d\<lparr>calls := (calls d)(tid \<mapsto> Close CStart)\<rparr>"
      by (simp_all add: step_def split: if_splits)
    show ?thesis unfolding d' by (rule waitInv_update [OF inv, of tid]) (simp_all add: f)
  next
    case (Step tid)
    show ?thesis
    proof (cases "calls d tid")
      case None
      with s nc Step show ?thesis by (simp add: step_def)
    next
      case (Some c)
      show ?thesis
      proof (cases c)
        case (QueueMessageAsync message pc)
        with s nc Step Some have q: "stepQueueMessageAsync l tid message pc d = Some d'"
          by (simp add: step_def)
        have n: "calls d tid \<noteq> Some (Close CWaiting)" using Some QueueMessageAsync by simp
        from q show ?thesis
        proof (cases rule: stepQueueMessageAsync_cases)
          case rlock
          show ?thesis unfolding rlock(3) by (rule waitInv_update [OF inv n]) simp_all
        next
          case refused
          show ?thesis unfolding refused(3) by (rule waitInv_update [OF inv n]) simp_all
        next
          case passed
          show ?thesis unfolding passed(3) by (rule waitInv_update [OF inv n]) simp_all
        next
          case send_panic
          show ?thesis unfolding send_panic(3) by (rule waitInv_frame [OF inv]) simp_all
        next
          case sent
          show ?thesis unfolding sent(4) by (rule waitInv_update [OF inv n]) simp_all
        qed
      next
        case (Close pc)
        with s nc Step Some have q: "stepClose tid pc d = Some d'"
          by (simp add: step_def)
        note c = Some [unfolded Close]
        from q show ?thesis
        proof (cases rule: stepClose_cases)
          case initiate
          show ?thesis unfolding initiate(3) waitInv_def by simp
        next
          case (wait waiting)
          have "tid \<notin> set waiting" using inv wait(1,3) c unfolding waitInv_def by auto
          then show ?thesis using inv wait(3) unfolding wait(4) waitInv_def by auto
        next
          case lock
          show ?thesis unfolding lock(3)
            by (rule waitInv_update [OF inv, of tid]) (simp_all add: c lock(1))
        next
          case found
          show ?thesis unfolding found(3)
            by (rule waitInv_update [OF inv, of tid]) (simp_all add: c found(1))
        next
          case close_panic
          show ?thesis unfolding close_panic(3) by (rule waitInv_frame [OF inv]) simp_all
        next
          case close_stream
          show ?thesis unfolding close_stream(3)
            by (rule waitInv_update [OF inv, of tid]) (simp_all add: c close_stream(1))
        next
          case return
          show ?thesis unfolding return(3)
            by (rule waitInv_update [OF inv, of tid]) (simp_all add: c return(1))
        next
          case wait_panic
          show ?thesis unfolding wait_panic(4) by (rule waitInv_frame [OF inv]) simp_all
        next
          case relock
          show ?thesis unfolding relock(3)
            by (rule waitInv_update [OF inv, of tid]) (simp_all add: c relock(1))
        qed
      next
        case LogSuppressed
        with s nc Step Some show ?thesis by (simp add: step_def)
      qed
    qed
  next
    case WorkerReceive
    with s nc have q: "workerReceive E l d = Some d'" by (simp add: step_def)
    from q nc show ?thesis
    proof (cases rule: workerReceive_cases)
      case (message m queued)
      show ?thesis
        by (rule waitInv_frame [OF inv]) (simp_all add: workerMessage_frame [OF message(3)])
    next
      case (last_panic p)
      show ?thesis unfolding last_panic(5) by (rule waitInv_frame [OF inv]) simp_all
    next
      case (last rest s')
      show ?thesis unfolding last(5) by (rule waitInv_frame [OF inv]) simp_all
    qed
  next
    case (WorkerReceiveFrom tid)
    with s nc have q: "workerReceiveFrom E l tid d = Some d'" by (simp add: step_def)
    from q show ?thesis
    proof (cases rule: workerReceiveFrom_cases)
      case (1 m)
      show ?thesis
        by (rule waitInv_update [OF inv, of tid])
          (simp_all add: workerMessage_frame [OF 1(5)] 1(4))
    qed
  next
    case WorkerStart
    with s nc have q: "workerStart l d = Some d'" by (simp add: step_def)
    from q show ?thesis
    proof (cases rule: workerStart_cases)
      case ticker_panic
      show ?thesis unfolding ticker_panic(3) by (rule waitInv_frame [OF inv]) simp_all
    next
      case ticker
      show ?thesis unfolding ticker(3) by (rule waitInv_frame [OF inv]) simp_all
    qed
  next
    case WorkerTick
    with s nc have q: "workerTick E l d = Some d'" by (simp add: step_def)
    from q show ?thesis
    proof (cases rule: workerTick_cases)
      case (tick_panic p)
      show ?thesis unfolding tick_panic(3) by (rule waitInv_frame [OF inv]) simp_all
    next
      case (tick rest s')
      show ?thesis unfolding tick(3) by (rule waitInv_frame [OF inv]) simp_all
    qed
  next
    case WorkerStep
    with s nc have q: "workerStep d = Some d'" by (simp add: step_def)
    from q show ?thesis
    proof (cases rule: workerStep_cases)
      case lock
      show ?thesis unfolding lock(3) by (rule waitInv_frame [OF inv]) simp_all
    next
      case signal_panic
      show ?thesis unfolding signal_panic(3) by (rule waitInv_frame [OF inv]) simp_all
    next
      case finish
      show ?thesis unfolding finish(3) by (rule waitInv_frame [OF inv]) simp_all
    next
      case (signal tid waiting)
      show ?thesis using inv signal(2) unfolding signal(3) waitInv_def by auto
    qed
  qed
qed

lemma reachable_waitInv: "reachable E l s d \<Longrightarrow> waitInv d"
proof (induction rule: reachable.induct)
  case init
  show ?case by (simp add: waitInv_def initDriver_def)
next
  case (step d a d')
  from step.IH step.hyps(2) show ?case by (rule waitInv_step)
qed

text \<open>
  C3, as the code has it. The call of \<open>Close\<close> that begins the shutdown is the one that
  finds \<open>closedCond\<close> nil: it creates the condition variable, closes the stream and waits
  until \<open>closed\<close> is set; its return is \<open>CReturned True\<close>. It returns only after the worker has
  left its loop. Then no accepted record is pending: every accepted record went through a
  flush, each flush is a run of \<open>postMessages\<close>, and the last flush is the last chance one:
  it returned the empty buffer, having sent the chunks before offset \<open>j\<close> and written one
  daemon log entry for each record from \<open>j\<close> on.
\<close>

theorem close_returns_after_last_flush:
  assumes r: "reachable E l s d" and c: "calls d tid = Some (Close (CReturned True))"
  shows "worker d = WDone \<and> pending d = [] \<and> accepted d = handled (flushes d) \<and>
     (\<forall>f \<in> set (flushes d).
        postMessages E l (fl_messages f) (fl_lastChance f) (fl_before f) =
          Some (Inr (fl_rest f, fl_after f))) \<and>
     (\<exists>earlier f j sj. flushes d = earlier @ [f] \<and> fl_lastChance f \<and> fl_rest f = [] \<and>
        chunksSent E l (fl_messages f) (fl_before f) j sj \<and>
        filter isRecordEntry (dlog (fl_after f)) =
          filter isRecordEntry (dlog (fl_before f)) @
          map (unsentEntry E) (drop (nat j) (fl_messages f)))"
proof -
  from reachable_driverInv [OF r] have si: "shutdownInv d" and hi: "historyInv E l d"
    unfolding driverInv_def by simp_all
  from si c have w: "worker d = WDone" unfolding shutdownInv_def by blast
  with si have st: "stream d = []" unfolding shutdownInv_def by simp
  from w st have p: "pending d = []" by (simp add: pending_def)
  from hi p have a: "accepted d = handled (flushes d)" unfolding historyInv_def by simp
  from hi have f: "\<forall>f \<in> set (flushes d).
        postMessages E l (fl_messages f) (fl_lastChance f) (fl_before f) =
          Some (Inr (fl_rest f, fl_after f))" unfolding historyInv_def by simp
  from hi w have l: "flushes d \<noteq> []" "fl_lastChance (last (flushes d))"
    "fl_rest (last (flushes d)) = []" unfolding historyInv_def by simp_all
  define g where "g = last (flushes d)"
  have fl: "flushes d = butlast (flushes d) @ [g]" using l(1) by (simp add: g_def)
  have "g \<in> set (flushes d)" using l(1) by (simp add: g_def)
  with f have pm: "postMessages E l (fl_messages g) (fl_lastChance g) (fl_before g) =
          Some (Inr (fl_rest g, fl_after g))" by blast
  from postMessages_split [OF pm] l(2) obtain j sj k u where
    cs: "chunksSent E l (fl_messages g) (fl_before g) j sj"
    and k: "k = min (nat j) (length (fl_messages g))"
    and u: "u = length (fl_messages g)"
    and lg: "filter isRecordEntry (dlog (fl_after g)) =
           filter isRecordEntry (dlog (fl_before g)) @
           map (unsentEntry E) (take (u - k) (drop k (fl_messages g)))"
    unfolding g_def [symmetric] by blast
  have "take (u - k) (drop k (fl_messages g)) = drop (nat j) (fl_messages g)"
    unfolding u k by (cases "nat j \<le> length (fl_messages g)") (simp_all add: min_def)
  with lg have lg': "filter isRecordEntry (dlog (fl_after g)) =
           filter isRecordEntry (dlog (fl_before g)) @
           map (unsentEntry E) (drop (nat j) (fl_messages g))" by simp
  have "\<exists>earlier f j sj. flushes d = earlier @ [f] \<and> fl_lastChance f \<and> fl_rest f = [] \<and>
        chunksSent E l (fl_messages f) (fl_before f) j sj \<and>
        filter isRecordEntry (dlog (fl_after f)) =
          filter isRecordEntry (dlog (fl_before f)) @
          map (unsentEntry E) (drop (nat j) (fl_messages f))"
    using fl l(2,3) cs lg' unfolding g_def [symmetric] by blast
  with w p a f show ?thesis by blast
qed

lemmas driver_defs = step_def stepQueueMessageAsync_def stepClose_def workerStart_def workerReceive_def
  workerReceiveFrom_def workerTick_def workerMessage_def go_rem_def flushStep_def workerStep_def
  lockFree_def initDriver_def rawMessage_def createSplunkMessage_def

lemmas flush_defs = postMessages_def postMessagesFrom.simps upperBoundAt_def go_slice_def
  sendFailed_def logUnsent.simps unsentEntry_def

text \<open>
  A second call of \<open>Close\<close>, made while the first one waits for the worker, returns at once
  (lines 536 to 538): one accepted record is still in the stream, the worker has not flushed,
  nothing was sent and nothing was logged.
\<close>

theorem close_returns_while_records_pending_counterexample:
  "(case run scriptedCollector (exampleLogger 2 4) (initDriver (startSys []))
      [CallQueueMessageAsync 1 (exampleRecord ''1''), Step 1, Step 1, Step 1,
       CallClose 2, Step 2, Step 2, Step 2, Step 2,
       CallClose 3, Step 3, Step 3] of
      None \<Rightarrow> False
    | Some d \<Rightarrow>
        calls d 3 = Some (Close (CReturned False)) \<and> calls d 2 = Some (Close CWaiting) \<and>
        worker d = WLoop \<and> pending d = [exampleRecord ''1''] \<and>
        accepted d = [exampleRecord ''1''] \<and> flushes d = [] \<and> requests (effects d) = [] \<and>
        dlog (effects d) = [])"
  by (simp add: driver_defs pending_def example_defs)


theorem close_returns_after_last_flush_witness:
  "\<exists>d. run scriptedCollector (exampleLogger 2 4) (initDriver (startSys [200])) orderlyShutdown = Some d \<and>
       reachable scriptedCollector (exampleLogger 2 4) (startSys [200]) d \<and>
       calls d 2 = Some (Close (CReturned True)) \<and>
       worker d = WDone \<and> pending d = [] \<and> accepted d = [exampleRecord ''1''] \<and>
       handled (flushes d) = [exampleRecord ''1''] \<and>
       requests (effects d) = [exampleRequest ''{1}'']"
proof -
  have "\<exists>d. run scriptedCollector (exampleLogger 2 4) (initDriver (startSys [200])) orderlyShutdown = Some d \<and>
      calls d 2 = Some (Close (CReturned True)) \<and> accepted d = [exampleRecord ''1''] \<and>
      requests (effects d) = [exampleRequest ''{1}'']"
    by (simp add: orderlyShutdown_def driver_defs flush_defs send_defs example_defs)
  then obtain d where
    r: "run scriptedCollector (exampleLogger 2 4) (initDriver (startSys [200])) orderlyShutdown = Some d"
    and c: "calls d 2 = Some (Close (CReturned True))"
    and a: "accepted d = [exampleRecord ''1'']"
    and q: "requests (effects d) = [exampleRequest ''{1}'']" by blast
  have re: "reachable scriptedCollector (exampleLogger 2 4) (startSys [200]) d"
    using reachable.init r by (rule run_reachable)
  from close_returns_after_last_flush [OF re c] have "worker d = WDone" "pending d = []" "accepted d = handled (flushes d)"
    by blast+
  with r re c a q show ?thesis by (intro exI [of _ d]) simp
qed

lemma run_invariant:
  assumes "reachable E l s d0" "P d0"
    and "\<And>d a d'. reachable E l s d \<Longrightarrow> P d \<Longrightarrow> step E l d a = Some d' \<Longrightarrow> P d'"
    and "run E l d0 acts = Some d"
  shows "P d"
  using assms(1,2,4)
proof (induction acts arbitrary: d0)
  case Nil
  then show ?case by simp
next
  case (Cons a acts)
  from Cons.prems(3) obtain d1 where s: "step E l d0 a = Some d1" and r: "run E l d1 acts = Some d"
    by (cases "step E l d0 a") simp_all
  from Cons.prems(1) s have "reachable E l s d1" by (rule reachable.step)
  moreover from Cons.prems(1,2) s have "P d1" by (rule assms(3))
  ultimately show ?case using r by (rule Cons.IH)
qed

lemma stepQueueMessageAsync_other:
  assumes "stepQueueMessageAsync l t m pc d = Some d'" "t' \<noteq> t"
  shows "calls d' t' = calls d t'"
  using assms(1) by (cases rule: stepQueueMessageAsync_cases) (simp_all add: assms(2))

lemma stepQueueMessageAsync_closedCond:
  assumes "stepQueueMessageAsync l t m pc d = Some d'"
  shows "closedCond d' = closedCond d"
  using assms by (cases rule: stepQueueMessageAsync_cases) simp_all

lemma stepClose_other:
  assumes "stepClose t pc d = Some d'" "t' \<noteq> t"
  shows "calls d' t' = calls d t'"
  using assms(1) by (cases rule: stepClose_cases) (simp_all add: assms(2))

lemma stepClose_closedCond:
  assumes "stepClose t pc d = Some d'" "closedCond d \<noteq> None"
  shows "closedCond d' \<noteq> None"
  using assms(1) by (cases rule: stepClose_cases) (simp_all add: assms(2))

lemma workerStep_other:
  assumes "workerStep d = Some d'" "waitInv d" "calls d t \<noteq> Some (Close CWaiting)"
  shows "calls d' t = calls d t"
  using assms(1)
proof (cases rule: workerStep_cases)
  case (signal tid waiting)
  from assms(2) signal(2) have "calls d tid = Some (Close CWaiting)"
    unfolding waitInv_def by simp
  with assms(3) have "t \<noteq> tid" by auto
  then show ?thesis unfolding signal(3) by simp
qed simp_all

lemma workerStep_closedCond:
  assumes "workerStep d = Some d'" "closedCond d \<noteq> None"
  shows "closedCond d' \<noteq> None"
  using assms(1) by (cases rule: workerStep_cases) (simp_all add: assms(2))

text \<open>What a step does to a call of \<open>queueMessageAsync\<close> and to the condition variable.\<close>

lemma step_queue_call:
  assumes s: "step E l d a = Some d'" and wi: "waitInv d"
    and c: "calls d tid = Some (QueueMessageAsync m pc)"
  shows "calls d' tid = Some (QueueMessageAsync m pc) \<or>
         (a = Step tid \<and> stepQueueMessageAsync l tid m pc d = Some d') \<or>
         (a = WorkerReceiveFrom tid \<and> pc = QSending \<and>
          calls d' tid = Some (QueueMessageAsync m (QReturned None)))"
proof -
  from s have nc: "crashed d = None" by (simp add: step_def split: if_splits)
  show ?thesis
  proof (cases a)
    case (CallLogRaw t prefix msg)
    with s nc c show ?thesis by (auto simp: step_def split: if_splits)
  next
    case (CallQueueMessageAsync t message)
    with s nc c show ?thesis by (auto simp: step_def split: if_splits)
  next
    case (CallClose t)
    with s nc c show ?thesis by (auto simp: step_def split: if_splits)
  next
    case (Step t)
    show ?thesis
    proof (cases "t = tid")
      case True
      with s nc Step c show ?thesis by (simp add: step_def)
    next
      case False
      show ?thesis
      proof (cases "calls d t")
        case None
        with s nc Step show ?thesis by (simp add: step_def)
      next
        case (Some c')
        show ?thesis
        proof (cases c')
          case (QueueMessageAsync m' pc')
          with s nc Step Some have "stepQueueMessageAsync l t m' pc' d = Some d'"
            by (simp add: step_def)
          from stepQueueMessageAsync_other [OF this, of tid] False c show ?thesis by simp
        next
          case (Close pc')
          with s nc Step Some have "stepClose t pc' d = Some d'" by (simp add: step_def)
          from stepClose_other [OF this, of tid] False c show ?thesis by simp
        next
          case LogSuppressed
          with s nc Step Some show ?thesis by (simp add: step_def)
        qed
      qed
    qed
  next
    case WorkerReceive
    with s nc have q: "workerReceive E l d = Some d'" by (simp add: step_def)
    from q nc have "calls d' = calls d"
      by (cases rule: workerReceive_cases) (simp_all add: workerMessage_frame)
    with c show ?thesis by simp
  next
    case (WorkerReceiveFrom t)
    with s nc have q: "workerReceiveFrom E l t d = Some d'" by (simp add: step_def)
    from q show ?thesis
    proof (cases rule: workerReceiveFrom_cases)
      case (1 m')
      have e: "calls d' = (calls d)(t \<mapsto> QueueMessageAsync m' (QReturned None))"
        using workerMessage_frame(8) [OF 1(5)] by simp
      show ?thesis
      proof (cases "t = tid")
        case True
        with 1(4) c e WorkerReceiveFrom show ?thesis by simp
      next
        case False
        with e c show ?thesis by simp
      qed
    qed
  next
    case WorkerStart
    with s nc have q: "workerStart l d = Some d'" by (simp add: step_def)
    from q have "calls d' = calls d" by (cases rule: workerStart_cases) simp_all
    with c show ?thesis by simp
  next
    case WorkerTick
    with s nc have q: "workerTick E l d = Some d'" by (simp add: step_def)
    from q have "calls d' = calls d" by (cases rule: workerTick_cases) simp_all
    with c show ?thesis by simp
  next
    case WorkerStep
    with s nc have q: "workerStep d = Some d'" by (simp add: step_def)
    from workerStep_other [OF q wi, of tid] c show ?thesis by simp
  qed
qed

lemma step_closedCond:
  assumes s: "step E l d a = Some d'" and b: "closedCond d \<noteq> None"
  shows "closedCond d' \<noteq> None"
proof -
  from s have nc: "crashed d = None" by (simp add: step_def split: if_splits)
  show ?thesis
  proof (cases a)
    case (Step t)
    show ?thesis
    proof (cases "calls d t")
      case None
      with s nc Step show ?thesis by (simp add: step_def)
    next
      case (Some c')
      show ?thesis
      proof (cases c')
        case (QueueMessageAsync m' pc')
        with s nc Step Some have "stepQueueMessageAsync l t m' pc' d = Some d'"
          by (simp add: step_def)
        from stepQueueMessageAsync_closedCond [OF this] b show ?thesis by simp
      next
        case (Close pc')
        with s nc Step Some have "stepClose t pc' d = Some d'" by (simp add: step_def)
        from stepClose_closedCond [OF this b] show ?thesis .
      next
        case LogSuppressed
        with s nc Step Some show ?thesis by (simp add: step_def)
      qed
    qed
  next
    case WorkerReceive
    with s nc have q: "workerReceive E l d = Some d'" by (simp add: step_def)
    from q nc have "closedCond d' = closedCond d"
      by (cases rule: workerReceive_cases) (simp_all add: workerMessage_frame)
    with b show ?thesis by simp
  next
    case (WorkerReceiveFrom t)
    with s nc have q: "workerReceiveFrom E l t d = Some d'" by (simp add: step_def)
    from q have "closedCond d' = closedCond d"
      by (cases rule: workerReceiveFrom_cases) (simp add: workerMessage_frame)
    with b show ?thesis by simp
  next
    case WorkerStart
    with s nc have q: "workerStart l d = Some d'" by (simp add: step_def)
    from q have "closedCond d' = closedCond d" by (cases rule: workerStart_cases) simp_all
    with b show ?thesis by simp
  next
    case WorkerTick
    with s nc have q: "workerTick E l d = Some d'" by (simp add: step_def)
    from q have "closedCond d' = closedCond d" by (cases rule: workerTick_cases) simp_all
    with b show ?thesis by simp
  next
    case WorkerStep
    with s nc have q: "workerStep d = Some d'" by (simp add: step_def)
    from workerStep_closedCond [OF q b] show ?thesis .
  qed (use s nc b in \<open>auto simp: step_def split: if_splits\<close>)
qed

lemma refused_after_shutdown_step:
  assumes r: "reachable E l s d" and s: "step E l d a = Some d'"
    and p: "closedCond d \<noteq> None \<and>
      (calls d tid = Some (QueueMessageAsync m QStart) \<or>
       calls d tid = Some (QueueMessageAsync m QLocked) \<or>
       calls d tid = Some (QueueMessageAsync m (QReturned (Some DriverClosed))))"
  shows "closedCond d' \<noteq> None \<and>
      (calls d' tid = Some (QueueMessageAsync m QStart) \<or>
       calls d' tid = Some (QueueMessageAsync m QLocked) \<or>
       calls d' tid = Some (QueueMessageAsync m (QReturned (Some DriverClosed))))"
proof -
  from p have b: "closedCond d \<noteq> None" by simp
  note b' = step_closedCond [OF s b]
  note wi = reachable_waitInv [OF r]
  from p obtain pc where c: "calls d tid = Some (QueueMessageAsync m pc)"
    and pc: "pc = QStart \<or> pc = QLocked \<or> pc = QReturned (Some DriverClosed)" by auto
  from step_queue_call [OF s wi c]
  have "calls d' tid = Some (QueueMessageAsync m QStart) \<or>
       calls d' tid = Some (QueueMessageAsync m QLocked) \<or>
       calls d' tid = Some (QueueMessageAsync m (QReturned (Some DriverClosed)))"
  proof (elim disjE conjE)
    assume "calls d' tid = Some (QueueMessageAsync m pc)"
    with pc show ?thesis by auto
  next
    assume "stepQueueMessageAsync l tid m pc d = Some d'"
    then show ?thesis using pc b by (cases rule: stepQueueMessageAsync_cases) simp_all
  next
    assume "pc = QSending"
    with pc show ?thesis by simp
  qed
  with b' show ?thesis by simp
qed

lemma accepted_before_shutdown_step:
  assumes r: "reachable E l s d" and s: "step E l d a = Some d'"
    and p: "calls d tid = Some (QueueMessageAsync m QSending) \<or>
       calls d tid = Some (QueueMessageAsync m (QReturned None))"
  shows "calls d' tid = Some (QueueMessageAsync m QSending) \<or>
       calls d' tid = Some (QueueMessageAsync m (QReturned None))"
proof -
  note wi = reachable_waitInv [OF r]
  from p obtain pc where c: "calls d tid = Some (QueueMessageAsync m pc)"
    and pc: "pc = QSending \<or> pc = QReturned None" by auto
  from step_queue_call [OF s wi c] show ?thesis
  proof (elim disjE conjE)
    assume "calls d' tid = Some (QueueMessageAsync m pc)"
    with pc show ?thesis by auto
  next
    assume "stepQueueMessageAsync l tid m pc d = Some d'"
    then show ?thesis using pc c by (cases rule: stepQueueMessageAsync_cases) simp_all
  next
    assume "calls d' tid = Some (QueueMessageAsync m (QReturned None))"
    then show ?thesis by simp
  qed
qed

subsection \<open>Calls during the shutdown\<close>

lemma holderInvI:
  assumes "\<And>t. lockWriter d = Some (Caller t) \<Longrightarrow>
        calls d t = Some (Close CLocked) \<or> calls d t = Some (Close CCloseStream) \<or>
        calls d t = Some (Close CLoop)"
    and "lockWriter d = Some Worker \<Longrightarrow> worker d = WLocked"
    and "\<And>t. calls d t = Some (Close CCloseStream) \<Longrightarrow> \<not> streamClosed d"
  shows "holderInv d"
  using assms unfolding holderInv_def by blast

lemma holderInvD:
  assumes "holderInv d"
  shows "lockWriter d = Some (Caller t) \<Longrightarrow>
        calls d t = Some (Close CLocked) \<or> calls d t = Some (Close CCloseStream) \<or>
        calls d t = Some (Close CLoop)"
    and "lockWriter d = Some Worker \<Longrightarrow> worker d = WLocked"
    and "calls d t = Some (Close CCloseStream) \<Longrightarrow> \<not> streamClosed d"
  using assms unfolding holderInv_def by blast+

lemma holderInv_init: "holderInv (initDriver s)"
  by (simp add: holderInv_def initDriver_def)

lemma holderInv_frame:
  "holderInv d \<Longrightarrow> lockWriter d' = lockWriter d \<Longrightarrow> calls d' = calls d \<Longrightarrow>
   worker d' = worker d \<Longrightarrow> streamClosed d' = streamClosed d \<Longrightarrow> holderInv d'"
  by (simp add: holderInv_def)

text \<open>A call that does not hold the write lock and is not about to close the channel moves.\<close>

lemma holderInv_update:
  assumes inv: "holderInv d"
    and n: "lockWriter d \<noteq> Some (Caller tid)" "c \<noteq> Close CCloseStream"
    and e: "lockWriter d' = lockWriter d" "calls d' = (calls d)(tid \<mapsto> c)"
      "worker d' = worker d" "streamClosed d' = streamClosed d"
  shows "holderInv d'"
proof (rule holderInvI)
  fix t assume w: "lockWriter d' = Some (Caller t)"
  with e(1) n(1) have "t \<noteq> tid" by auto
  with holderInvD(1) [OF inv, of t] w e(1,2)
  show "calls d' t = Some (Close CLocked) \<or> calls d' t = Some (Close CCloseStream) \<or>
        calls d' t = Some (Close CLoop)" by simp
next
  assume "lockWriter d' = Some Worker"
  with holderInvD(2) [OF inv] e show "worker d' = WLocked" by simp
next
  fix t assume c: "calls d' t = Some (Close CCloseStream)"
  with e(2) n(2) have "calls d t = Some (Close CCloseStream)" by (simp split: if_splits)
  with holderInvD(3) [OF inv] e(4) show "\<not> streamClosed d'" by simp
qed

text \<open>A call releases the write lock.\<close>

lemma holderInv_release:
  assumes inv: "holderInv d"
    and n: "c \<noteq> Close CCloseStream"
    and e: "lockWriter d' = None" "calls d' = (calls d)(tid \<mapsto> c)"
      "streamClosed d' = streamClosed d"
  shows "holderInv d'"
proof (rule holderInvI)
  fix t assume "lockWriter d' = Some (Caller t)"
  with e(1) show "calls d' t = Some (Close CLocked) \<or> calls d' t = Some (Close CCloseStream) \<or>
        calls d' t = Some (Close CLoop)" by simp
next
  assume "lockWriter d' = Some Worker"
  with e(1) show "worker d' = WLocked" by simp
next
  fix t assume c: "calls d' t = Some (Close CCloseStream)"
  with e(2) n have "calls d t = Some (Close CCloseStream)" by (simp split: if_splits)
  with holderInvD(3) [OF inv] e(3) show "\<not> streamClosed d'" by simp
qed

lemma holderInv_stepQueue:
  assumes inv: "holderInv d" and c: "calls d tid = Some (QueueMessageAsync message pc)"
    and s: "stepQueueMessageAsync l tid message pc d = Some d'"
  shows "holderInv d'"
proof -
  have n: "lockWriter d \<noteq> Some (Caller tid)"
    using holderInvD(1) [OF inv, of tid] c by auto
  from s show ?thesis
  proof (cases rule: stepQueueMessageAsync_cases)
    case rlock
    show ?thesis unfolding rlock(3) by (rule holderInv_update [OF inv n]) simp_all
  next
    case refused
    show ?thesis unfolding refused(3) by (rule holderInv_update [OF inv n]) simp_all
  next
    case passed
    show ?thesis unfolding passed(3) by (rule holderInv_update [OF inv n]) simp_all
  next
    case send_panic
    show ?thesis unfolding send_panic(3) by (rule holderInv_frame [OF inv]) simp_all
  next
    case sent
    show ?thesis unfolding sent(4) by (rule holderInv_update [OF inv n]) simp_all
  qed
qed

lemma holderInv_stepClose:
  assumes inv: "holderInv d" and li: "lockInv d" and si: "shutdownInv d"
    and c: "calls d tid = Some (Close pc)"
    and s: "stepClose tid pc d = Some d'"
  shows "holderInv d'"
  using s
proof (cases rule: stepClose_cases)
  case lock
  show ?thesis
  proof (rule holderInvI)
    fix t assume "lockWriter d' = Some (Caller t)"
    then have "t = tid" by (simp add: lock(3))
    then show "calls d' t = Some (Close CLocked) \<or> calls d' t = Some (Close CCloseStream) \<or>
        calls d' t = Some (Close CLoop)" by (simp add: lock(3))
  next
    assume "lockWriter d' = Some Worker"
    then show "worker d' = WLocked" by (simp add: lock(3))
  next
    fix t assume "calls d' t = Some (Close CCloseStream)"
    then have "calls d t = Some (Close CCloseStream)" by (simp add: lock(3) split: if_splits)
    with holderInvD(3) [OF inv] show "\<not> streamClosed d'" by (simp add: lock(3))
  qed
next
  case initiate
  from si initiate(2) have ns: "\<not> streamClosed d" unfolding shutdownInv_def by blast
  from holds_lock(1) [OF li c [unfolded initiate(1)]] have w: "lockWriter d = Some (Caller tid)" .
  show ?thesis
  proof (rule holderInvI)
    fix t assume "lockWriter d' = Some (Caller t)"
    with w have "t = tid" by (simp add: initiate(3))
    then show "calls d' t = Some (Close CLocked) \<or> calls d' t = Some (Close CCloseStream) \<or>
        calls d' t = Some (Close CLoop)" by (simp add: initiate(3))
  next
    assume "lockWriter d' = Some Worker"
    with w show "worker d' = WLocked" by (simp add: initiate(3))
  next
    fix t assume "calls d' t = Some (Close CCloseStream)"
    from ns show "\<not> streamClosed d'" by (simp add: initiate(3))
  qed
next
  case found
  show ?thesis unfolding found(3) by (rule holderInv_release [OF inv]) simp_all
next
  case close_panic
  show ?thesis unfolding close_panic(3) by (rule holderInv_frame [OF inv]) simp_all
next
  case close_stream
  from holds_lock(2) [OF li c [unfolded close_stream(1)]] have w: "lockWriter d = Some (Caller tid)" .
  show ?thesis
  proof (rule holderInvI)
    fix t assume "lockWriter d' = Some (Caller t)"
    with w have "t = tid" by (simp add: close_stream(3))
    then show "calls d' t = Some (Close CLocked) \<or> calls d' t = Some (Close CCloseStream) \<or>
        calls d' t = Some (Close CLoop)" by (simp add: close_stream(3))
  next
    assume "lockWriter d' = Some Worker"
    with w show "worker d' = WLocked" by (simp add: close_stream(3))
  next
    fix t assume a: "calls d' t = Some (Close CCloseStream)"
    then have t: "t \<noteq> tid" "calls d t = Some (Close CCloseStream)"
      by (simp_all add: close_stream(3) split: if_splits)
    from writer_facts(4) [OF li w t(2)] t(1) show "\<not> streamClosed d'" by simp
  qed
next
  case return
  show ?thesis unfolding return(3) by (rule holderInv_release [OF inv]) simp_all
next
  case wait_panic
  show ?thesis unfolding wait_panic(4) by (rule holderInv_frame [OF inv]) simp_all
next
  case (wait waiting)
  show ?thesis unfolding wait(4) by (rule holderInv_release [OF inv]) simp_all
next
  case relock
  show ?thesis
  proof (rule holderInvI)
    fix t assume "lockWriter d' = Some (Caller t)"
    then have "t = tid" by (simp add: relock(3))
    then show "calls d' t = Some (Close CLocked) \<or> calls d' t = Some (Close CCloseStream) \<or>
        calls d' t = Some (Close CLoop)" by (simp add: relock(3))
  next
    assume "lockWriter d' = Some Worker"
    then show "worker d' = WLocked" by (simp add: relock(3))
  next
    fix t assume "calls d' t = Some (Close CCloseStream)"
    then have "calls d t = Some (Close CCloseStream)" by (simp add: relock(3) split: if_splits)
    with holderInvD(3) [OF inv] show "\<not> streamClosed d'" by (simp add: relock(3))
  qed
qed

lemma holderInv_workerStep:
  assumes inv: "holderInv d" and s: "workerStep d = Some d'"
  shows "holderInv d'"
  using s
proof (cases rule: workerStep_cases)
  case lock
  show ?thesis
  proof (rule holderInvI)
    fix t assume "lockWriter d' = Some (Caller t)"
    then show "calls d' t = Some (Close CLocked) \<or> calls d' t = Some (Close CCloseStream) \<or>
        calls d' t = Some (Close CLoop)" by (simp add: lock(3))
  next
    assume "lockWriter d' = Some Worker"
    show "worker d' = WLocked" by (simp add: lock(3))
  next
    fix t assume "calls d' t = Some (Close CCloseStream)"
    then have "calls d t = Some (Close CCloseStream)" by (simp add: lock(3))
    with holderInvD(3) [OF inv] show "\<not> streamClosed d'" by (simp add: lock(3))
  qed
next
  case signal_panic
  show ?thesis unfolding signal_panic(3) by (rule holderInv_frame [OF inv]) simp_all
next
  case finish
  show ?thesis
  proof (rule holderInvI)
    fix t assume "lockWriter d' = Some (Caller t)"
    then show "calls d' t = Some (Close CLocked) \<or> calls d' t = Some (Close CCloseStream) \<or>
        calls d' t = Some (Close CLoop)" by (simp add: finish(3))
  next
    assume "lockWriter d' = Some Worker"
    then show "worker d' = WLocked" by (simp add: finish(3))
  next
    fix t assume "calls d' t = Some (Close CCloseStream)"
    then have "calls d t = Some (Close CCloseStream)" by (simp add: finish(3))
    with holderInvD(3) [OF inv] show "\<not> streamClosed d'" by (simp add: finish(3))
  qed
next
  case (signal tid waiting)
  show ?thesis
  proof (rule holderInvI)
    fix t assume "lockWriter d' = Some (Caller t)"
    then show "calls d' t = Some (Close CLocked) \<or> calls d' t = Some (Close CCloseStream) \<or>
        calls d' t = Some (Close CLoop)" by (simp add: signal(3))
  next
    assume "lockWriter d' = Some Worker"
    then show "worker d' = WLocked" by (simp add: signal(3))
  next
    fix t assume "calls d' t = Some (Close CCloseStream)"
    then have "calls d t = Some (Close CCloseStream)" by (simp add: signal(3) split: if_splits)
    with holderInvD(3) [OF inv] show "\<not> streamClosed d'" by (simp add: signal(3))
  qed
qed

lemma holderInv_step:
  assumes r: "reachable E l s0 d" and inv: "holderInv d" and s: "step E l d a = Some d'"
  shows "holderInv d'"
proof -
  from s have nc: "crashed d = None" by (simp add: step_def split: if_splits)
  from reachable_driverInv [OF r] have li: "lockInv d" and si: "shutdownInv d"
    unfolding driverInv_def by simp_all
  have fresh: "lockWriter d \<noteq> Some (Caller tid)" if "calls d tid = None" for tid
    using holderInvD(1) [OF inv, of tid] that by auto
  show ?thesis
  proof (cases a)
    case (CallLogRaw tid prefix msg)
    with s nc have f: "calls d tid = None"
      and d': "d' = d\<lparr>calls := (calls d)(tid \<mapsto>
                     (case rawMessage E l prefix msg of
                        None \<Rightarrow> LogSuppressed
                      | Some message \<Rightarrow> QueueMessageAsync message QStart))\<rparr>"
      by (simp_all add: step_def split: if_splits)
    show ?thesis unfolding d'
      by (rule holderInv_update [OF inv fresh [OF f]]) (simp_all split: option.split)
  next
    case (CallQueueMessageAsync tid message)
    with s nc have f: "calls d tid = None"
      and d': "d' = d\<lparr>calls := (calls d)(tid \<mapsto> QueueMessageAsync message QStart)\<rparr>"
      by (simp_all add: step_def split: if_splits)
    show ?thesis unfolding d' by (rule holderInv_update [OF inv fresh [OF f]]) simp_all
  next
    case (CallClose tid)
    with s nc have f: "calls d tid = None"
      and d': "d' = d\<lparr>calls := (calls d)(tid \<mapsto> Close CStart)\<rparr>"
      by (simp_all add: step_def split: if_splits)
    show ?thesis unfolding d' by (rule holderInv_update [OF inv fresh [OF f]]) simp_all
  next
    case (Step tid)
    show ?thesis
    proof (cases "calls d tid")
      case None
      with s nc Step show ?thesis by (simp add: step_def)
    next
      case (Some c)
      show ?thesis
      proof (cases c)
        case (QueueMessageAsync message pc)
        with s nc Step Some have q: "stepQueueMessageAsync l tid message pc d = Some d'"
          by (simp add: step_def)
        from inv Some [unfolded QueueMessageAsync] q show ?thesis by (rule holderInv_stepQueue)
      next
        case (Close pc)
        with s nc Step Some have q: "stepClose tid pc d = Some d'"
          by (simp add: step_def)
        from inv li si Some [unfolded Close] q show ?thesis by (rule holderInv_stepClose)
      next
        case LogSuppressed
        with s nc Step Some show ?thesis by (simp add: step_def)
      qed
    qed
  next
    case WorkerReceive
    with s nc have q: "workerReceive E l d = Some d'" by (simp add: step_def)
    from q nc show ?thesis
    proof (cases rule: workerReceive_cases)
      case (message m queued)
      show ?thesis
        by (rule holderInv_frame [OF inv]) (simp_all add: workerMessage_frame [OF message(3)])
    next
      case (last_panic p)
      show ?thesis unfolding last_panic(5) by (rule holderInv_frame [OF inv]) simp_all
    next
      case (last rest s')
      have nw: "lockWriter d \<noteq> Some Worker" using holderInvD(2) [OF inv] last(1) by auto
      show ?thesis
      proof (rule holderInvI)
        fix t assume "lockWriter d' = Some (Caller t)"
        with holderInvD(1) [OF inv, of t]
        show "calls d' t = Some (Close CLocked) \<or> calls d' t = Some (Close CCloseStream) \<or>
          calls d' t = Some (Close CLoop)" by (simp add: last(5))
      next
        assume "lockWriter d' = Some Worker"
        with nw show "worker d' = WLocked" by (simp add: last(5))
      next
        fix t assume "calls d' t = Some (Close CCloseStream)"
        with holderInvD(3) [OF inv, of t] show "\<not> streamClosed d'" by (simp add: last(5))
      qed
    qed
  next
    case (WorkerReceiveFrom tid)
    with s nc have q: "workerReceiveFrom E l tid d = Some d'" by (simp add: step_def)
    from q show ?thesis
    proof (cases rule: workerReceiveFrom_cases)
      case (1 m)
      have n: "lockWriter d \<noteq> Some (Caller tid)"
        using holderInvD(1) [OF inv, of tid] 1(4) by auto
      show ?thesis
        by (rule holderInv_update [OF inv n, of "QueueMessageAsync m (QReturned None)"])
          (simp_all add: workerMessage_frame [OF 1(5)])
    qed
  next
    case WorkerStart
    with s nc have q: "workerStart l d = Some d'" by (simp add: step_def)
    from q show ?thesis
    proof (cases rule: workerStart_cases)
      case ticker_panic
      show ?thesis unfolding ticker_panic(3) by (rule holderInv_frame [OF inv]) simp_all
    next
      case ticker
      show ?thesis unfolding ticker(3) by (rule holderInv_frame [OF inv]) simp_all
    qed
  next
    case WorkerTick
    with s nc have q: "workerTick E l d = Some d'" by (simp add: step_def)
    from q show ?thesis
    proof (cases rule: workerTick_cases)
      case (tick_panic p)
      show ?thesis unfolding tick_panic(3) by (rule holderInv_frame [OF inv]) simp_all
    next
      case (tick rest s')
      show ?thesis unfolding tick(3) by (rule holderInv_frame [OF inv]) simp_all
    qed
  next
    case WorkerStep
    with s nc have q: "workerStep d = Some d'" by (simp add: step_def)
    from inv q show ?thesis by (rule holderInv_workerStep)
  qed
qed

lemma reachable_holderInv: "reachable E l s d \<Longrightarrow> holderInv d"
proof (induction rule: reachable.induct)
  case init
  show ?case by (rule holderInv_init)
next
  case (step d a d')
  from step.hyps(1) step.IH step.hyps(2) show ?case by (rule holderInv_step)
qed

lemma run_append:
  "run E l d (as @ bs) = (case run E l d as of None \<Rightarrow> None | Some d1 \<Rightarrow> run E l d1 bs)"
  by (induction as arbitrary: d) (simp_all split: option.split)

lemma check_step:
  assumes nc: "crashed d = None" and c: "calls d tid = Some (QueueMessageAsync m QLocked)"
  shows "step E l d (Step tid) =
     Some (if closedCond d \<noteq> None
           then d\<lparr>lockReaders := lockReaders d - {tid},
                  calls := (calls d)(tid \<mapsto> QueueMessageAsync m (QReturned (Some DriverClosed)))\<rparr>
           else d\<lparr>calls := (calls d)(tid \<mapsto> QueueMessageAsync m QSending)\<rparr>)"
  using nc c by (simp add: step_def stepQueueMessageAsync_def)

lemma unlocked_refused:
  assumes nc: "crashed d = None" and w: "lockWriter d = None" and cc: "closedCond d \<noteq> None"
    and c: "calls d tid = Some (QueueMessageAsync m QStart)"
  shows "\<exists>d'. run E l d [Step tid, Step tid] = Some d' \<and>
     calls d' tid = Some (QueueMessageAsync m (QReturned (Some DriverClosed))) \<and>
     accepted d' = accepted d \<and> stream d' = stream d"
proof -
  define d1 where "d1 = d\<lparr>lockReaders := insert tid (lockReaders d),
      calls := (calls d)(tid \<mapsto> QueueMessageAsync m QLocked)\<rparr>"
  have s1: "step E l d (Step tid) = Some d1"
    using nc w c by (simp add: step_def stepQueueMessageAsync_def d1_def)
  have f1: "crashed d1 = None" "calls d1 tid = Some (QueueMessageAsync m QLocked)"
    "closedCond d1 \<noteq> None" "accepted d1 = accepted d" "stream d1 = stream d"
    using nc cc by (simp_all add: d1_def)
  define d2 where "d2 = d1\<lparr>lockReaders := lockReaders d1 - {tid},
      calls := (calls d1)(tid \<mapsto> QueueMessageAsync m (QReturned (Some DriverClosed)))\<rparr>"
  have s2: "step E l d1 (Step tid) = Some d2"
    using check_step [OF f1(1,2), of E l] f1(3) by (simp add: d2_def)
  have "run E l d [Step tid, Step tid] = Some d2" using s1 s2 by simp
  moreover have "calls d2 tid = Some (QueueMessageAsync m (QReturned (Some DriverClosed)))"
    "accepted d2 = accepted d" "stream d2 = stream d"
    using f1(4,5) by (simp_all add: d2_def)
  ultimately show ?thesis by blast
qed

lemma cloop_releases:
  assumes nc: "crashed d = None" and c: "calls d t = Some (Close CLoop)"
    and cc: "closedCond d \<noteq> None" and n: "tid \<noteq> t"
  shows "\<exists>d'. step E l d (Step t) = Some d' \<and> lockWriter d' = None \<and> crashed d' = None \<and>
     closedCond d' \<noteq> None \<and> calls d' tid = calls d tid \<and> accepted d' = accepted d \<and>
     stream d' = stream d"
proof (cases "closed d")
  case True
  have "step E l d (Step t) =
      Some (d\<lparr>lockWriter := None, calls := (calls d)(t \<mapsto> Close (CReturned True))\<rparr>)"
    using nc c True by (simp add: step_def stepClose_def)
  then show ?thesis using nc cc n by simp
next
  case False
  from cc obtain waiting where w: "closedCond d = Some waiting" by blast
  have "step E l d (Step t) =
      Some (d\<lparr>lockWriter := None, closedCond := Some (waiting @ [t]),
              calls := (calls d)(t \<mapsto> Close CWaiting)\<rparr>)"
    using nc c False w by (simp add: step_def stepClose_def)
  then show ?thesis using nc n by simp
qed

lemma release_lock:
  assumes r: "reachable E l s d" and nc: "crashed d = None" and cc: "closedCond d \<noteq> None"
    and w: "lockWriter d \<noteq> None" and q: "calls d tid = Some (QueueMessageAsync m QStart)"
  shows "\<exists>acts d'. length acts \<le> 2 \<and> run E l d acts = Some d' \<and> lockWriter d' = None \<and>
     crashed d' = None \<and> closedCond d' \<noteq> None \<and> calls d' tid = calls d tid \<and>
     accepted d' = accepted d \<and> stream d' = stream d"
proof -
  note hi = reachable_holderInv [OF r]
  from w obtain o' where o: "lockWriter d = Some o'" by blast
  show ?thesis
  proof (cases o')
    case Worker
    with o holderInvD(2) [OF hi] have wl: "worker d = WLocked" by simp
    from cc obtain waiting where cw: "closedCond d = Some waiting" by blast
    have "\<exists>d'. step E l d WorkerStep = Some d' \<and> lockWriter d' = None \<and>
       crashed d' = None \<and> closedCond d' \<noteq> None \<and> calls d' tid = calls d tid \<and>
       accepted d' = accepted d \<and> stream d' = stream d"
    proof (cases waiting)
      case Nil
      with nc wl cw have "step E l d WorkerStep =
          Some (d\<lparr>closed := True, lockWriter := None, worker := WDone\<rparr>)"
        by (simp add: step_def workerStep_def)
      then show ?thesis using nc cc by simp
    next
      case (Cons t ts)
      from reachable_waitInv [OF r] cw Cons have "calls d t = Some (Close CWaiting)"
        unfolding waitInv_def by simp
      with q have n: "tid \<noteq> t" by auto
      from Cons nc wl cw have "step E l d WorkerStep =
          Some (d\<lparr>closed := True, closedCond := Some ts, lockWriter := None,
                  worker := WDone, calls := (calls d)(t \<mapsto> Close CSignalled)\<rparr>)"
        by (simp add: step_def workerStep_def)
      then show ?thesis using nc n by simp
    qed
    then obtain d' where "run E l d [WorkerStep] = Some d'" "lockWriter d' = None"
       "crashed d' = None" "closedCond d' \<noteq> None" "calls d' tid = calls d tid"
       "accepted d' = accepted d" "stream d' = stream d"
      by auto
    then show ?thesis by (intro exI [of _ "[WorkerStep]"] exI [of _ d']) simp
  next
    case (Caller t)
    from holderInvD(1) [OF hi o [unfolded Caller]]
    have alt: "calls d t = Some (Close CLocked) \<or> calls d t = Some (Close CCloseStream) \<or>
        calls d t = Some (Close CLoop)" .
    with q have n: "tid \<noteq> t" by auto
    from alt show ?thesis
    proof (elim disjE)
      assume c: "calls d t = Some (Close CLocked)"
      from cc obtain waiting where cw: "closedCond d = Some waiting" by blast
      have "step E l d (Step t) =
          Some (d\<lparr>lockWriter := None, calls := (calls d)(t \<mapsto> Close (CReturned False))\<rparr>)"
        using nc c cw by (simp add: step_def stepClose_def)
      then have "run E l d [Step t] =
          Some (d\<lparr>lockWriter := None, calls := (calls d)(t \<mapsto> Close (CReturned False))\<rparr>)"
        by simp
      then show ?thesis using nc cc n
        by (intro exI [of _ "[Step t]"]
            exI [of _ "d\<lparr>lockWriter := None, calls := (calls d)(t \<mapsto> Close (CReturned False))\<rparr>"])
          simp
    next
      assume c: "calls d t = Some (Close CLoop)"
      from cloop_releases [OF nc c cc n, of E l] obtain d' where
        "step E l d (Step t) = Some d'" and f: "lockWriter d' = None" "crashed d' = None"
        "closedCond d' \<noteq> None" "calls d' tid = calls d tid" "accepted d' = accepted d"
        "stream d' = stream d" by blast
      then have "run E l d [Step t] = Some d'" by simp
      with f show ?thesis by (intro exI [of _ "[Step t]"] exI [of _ d']) simp
    next
      assume c: "calls d t = Some (Close CCloseStream)"
      from holderInvD(3) [OF hi c] have ns: "\<not> streamClosed d" .
      define d1 where "d1 = d\<lparr>streamClosed := True, calls := (calls d)(t \<mapsto> Close CLoop)\<rparr>"
      have s1: "step E l d (Step t) = Some d1"
        using nc c ns by (simp add: step_def stepClose_def d1_def)
      have f1: "crashed d1 = None" "calls d1 t = Some (Close CLoop)" "closedCond d1 \<noteq> None"
        "calls d1 tid = calls d tid" "accepted d1 = accepted d" "stream d1 = stream d"
        using nc cc n by (simp_all add: d1_def)
      from cloop_releases [OF f1(1,2,3) n, of E l] obtain d' where
        s2: "step E l d1 (Step t) = Some d'" and f: "lockWriter d' = None" "crashed d' = None"
        "closedCond d' \<noteq> None" "calls d' tid = calls d1 tid" "accepted d' = accepted d1"
        "stream d' = stream d1" by blast
      from s1 s2 have "run E l d [Step t, Step t] = Some d'" by simp
      with f f1(4,5,6) show ?thesis
        by (intro exI [of _ "[Step t, Step t]"] exI [of _ d']) simp
    qed
  qed
qed

lemma refused_progress:
  assumes r: "reachable E l s d" and nc: "crashed d = None" and cc: "closedCond d \<noteq> None"
    and q: "calls d tid = Some (QueueMessageAsync m QStart)"
  shows "\<exists>acts d'. length acts \<le> 4 \<and> run E l d acts = Some d' \<and>
     calls d' tid = Some (QueueMessageAsync m (QReturned (Some DriverClosed))) \<and>
     accepted d' = accepted d \<and> stream d' = stream d"
proof (cases "lockWriter d = None")
  case True
  from unlocked_refused [OF nc True cc q, of E l] obtain d' where
    "run E l d [Step tid, Step tid] = Some d'"
    "calls d' tid = Some (QueueMessageAsync m (QReturned (Some DriverClosed)))"
    "accepted d' = accepted d" "stream d' = stream d" by blast
  then show ?thesis by (intro exI [of _ "[Step tid, Step tid]"] exI [of _ d']) simp
next
  case False
  from release_lock [OF r nc cc False q] obtain acts d1 where
    a: "length acts \<le> 2" "run E l d acts = Some d1" and f: "lockWriter d1 = None"
    "crashed d1 = None" "closedCond d1 \<noteq> None" "calls d1 tid = calls d tid"
    "accepted d1 = accepted d" "stream d1 = stream d" by blast
  from f(4) q have q1: "calls d1 tid = Some (QueueMessageAsync m QStart)" by simp
  from unlocked_refused [OF f(2) f(1) f(3) q1, of E l] obtain d' where
    b: "run E l d1 [Step tid, Step tid] = Some d'"
    "calls d' tid = Some (QueueMessageAsync m (QReturned (Some DriverClosed)))"
    "accepted d' = accepted d1" "stream d' = stream d1" by blast
  have "run E l d (acts @ [Step tid, Step tid]) = Some d'"
    unfolding run_append a(2) using b(1) by simp
  with a(1) b(2,3,4) f(5,6) show ?thesis
    by (intro exI [of _ "acts @ [Step tid, Step tid]"] exI [of _ d']) simp
qed

text \<open>
  C5, as the code has it. The shutdown has begun when \<open>closedCond\<close> is set, which the first
  \<open>Close\<close> does under the write lock (the fifth part). What a call of \<open>queueMessageAsync\<close>
  returns is decided at its check of \<open>closedCond\<close>, under the read lock.

  \<^item> A call made once the shutdown has begun, by \<open>Log\<close> of any format with the record it
    has built, never comes to the send on the stream: whatever else runs, it is at its
    start, at its check, or has returned "driver is closed".
  \<^item> Such a call is not blocked: from every state the driver reaches, unless the process
    has panicked, the call can be taken to its return of "driver is closed", with
    nothing put on the stream. It waits for the lock only, and whoever holds the write
    lock gives it up after a step or two of its own.
  \<^item> The check itself never waits: it returns "driver is closed" if \<open>closedCond\<close> is set at
    that moment, and goes on to the send otherwise.
  \<^item> A call that made its check while \<open>closedCond\<close> was nil goes on to the send and, if it
    has returned, returned no error.
  \<^item> The step of \<open>Close\<close> that finds \<open>closedCond\<close> nil sets it.
  \<^item> \<open>Log\<close> of the raw format with a blank line returns nil and calls nothing, whether
    the shutdown has begun or not.
\<close>

theorem queueMessageAsync_fails_iff_checked_after_shutdown:
  "(reachable E l s d0 \<longrightarrow> closedCond d0 \<noteq> None \<longrightarrow>
      (a = CallQueueMessageAsync tid m \<or>
       a = CallLogRaw tid prefix msg \<and> rawMessage E l prefix msg = Some m) \<longrightarrow>
      run E l d0 (a # acts) = Some d \<longrightarrow>
      calls d tid = Some (QueueMessageAsync m QStart) \<or>
      calls d tid = Some (QueueMessageAsync m QLocked) \<or>
      calls d tid = Some (QueueMessageAsync m (QReturned (Some DriverClosed)))) \<and>
   (reachable E l s d0 \<longrightarrow> crashed d0 = None \<longrightarrow> closedCond d0 \<noteq> None \<longrightarrow>
      calls d0 tid = Some (QueueMessageAsync m QStart) \<longrightarrow>
      (\<exists>sched d'. run E l d0 sched = Some d' \<and>
         calls d' tid = Some (QueueMessageAsync m (QReturned (Some DriverClosed))) \<and>
         accepted d' = accepted d0 \<and> stream d' = stream d0)) \<and>
   (crashed d0 = None \<longrightarrow> calls d0 tid = Some (QueueMessageAsync m QLocked) \<longrightarrow>
      (\<exists>d'. step E l d0 (Step tid) = Some d' \<and>
         calls d' tid =
           Some (QueueMessageAsync m
             (if closedCond d0 = None then QSending else QReturned (Some DriverClosed))))) \<and>
   (reachable E l s d0 \<longrightarrow> closedCond d0 = None \<longrightarrow>
      calls d0 tid = Some (QueueMessageAsync m QLocked) \<longrightarrow>
      run E l d0 (Step tid # acts) = Some d \<longrightarrow>
      calls d tid = Some (QueueMessageAsync m QSending) \<or>
      calls d tid = Some (QueueMessageAsync m (QReturned None))) \<and>
   (closedCond d0 = None \<longrightarrow> calls d0 tid = Some (Close CLocked) \<longrightarrow>
      step E l d0 (Step tid) = Some d \<longrightarrow> closedCond d \<noteq> None) \<and>
   (strings_TrimSpace E (lm_Line msg) = [] \<longrightarrow>
      step E l d0 (CallLogRaw tid prefix msg) = Some d \<longrightarrow>
      d = d0\<lparr>calls := (calls d0)(tid \<mapsto> LogSuppressed)\<rparr>)"
proof -
  let ?after = "\<lambda>d. calls d tid = Some (QueueMessageAsync m QStart) \<or>
      calls d tid = Some (QueueMessageAsync m QLocked) \<or>
      calls d tid = Some (QueueMessageAsync m (QReturned (Some DriverClosed)))"
  let ?before = "\<lambda>d. calls d tid = Some (QueueMessageAsync m QSending) \<or>
      calls d tid = Some (QueueMessageAsync m (QReturned None))"
  have p1: "?after d"
    if r: "reachable E l s d0" and b: "closedCond d0 \<noteq> None"
      and a: "a = CallQueueMessageAsync tid m \<or>
       a = CallLogRaw tid prefix msg \<and> rawMessage E l prefix msg = Some m"
      and run: "run E l d0 (a # acts) = Some d"
  proof -
    from run obtain d1 where s: "step E l d0 a = Some d1"
      and run1: "run E l d1 acts = Some d"
      by (cases "step E l d0 a") simp_all
    from s a have d1: "d1 = d0\<lparr>calls := (calls d0)(tid \<mapsto> QueueMessageAsync m QStart)\<rparr>"
      by (auto simp: step_def split: if_splits)
    have r1: "reachable E l s d1" using r s by (rule reachable.step)
    have i1: "closedCond d1 \<noteq> None \<and> ?after d1"
      using b unfolding d1 by simp
    have "closedCond d \<noteq> None \<and> ?after d"
      by (rule run_invariant [where P = "\<lambda>d. closedCond d \<noteq> None \<and> ?after d", OF r1 i1 _ run1])
        (rule refused_after_shutdown_step)
    then show ?thesis by simp
  qed
  have p2: "\<exists>sched d'. run E l d0 sched = Some d' \<and>
         calls d' tid = Some (QueueMessageAsync m (QReturned (Some DriverClosed))) \<and>
         accepted d' = accepted d0 \<and> stream d' = stream d0"
    if "reachable E l s d0" "crashed d0 = None" "closedCond d0 \<noteq> None"
      "calls d0 tid = Some (QueueMessageAsync m QStart)"
    using refused_progress [OF that] by blast
  have p3: "\<exists>d'. step E l d0 (Step tid) = Some d' \<and>
         calls d' tid =
           Some (QueueMessageAsync m
             (if closedCond d0 = None then QSending else QReturned (Some DriverClosed)))"
    if nc: "crashed d0 = None" and c: "calls d0 tid = Some (QueueMessageAsync m QLocked)"
    unfolding check_step [OF nc c] by (cases "closedCond d0 = None") simp_all
  have p4: "?before d"
    if r: "reachable E l s d0" and b: "closedCond d0 = None"
      and c: "calls d0 tid = Some (QueueMessageAsync m QLocked)"
      and run: "run E l d0 (Step tid # acts) = Some d"
  proof -
    from run obtain d1 where s: "step E l d0 (Step tid) = Some d1"
      and run1: "run E l d1 acts = Some d"
      by (cases "step E l d0 (Step tid)") simp_all
    from s have nc: "crashed d0 = None" by (simp add: step_def split: if_splits)
    from s have d1: "d1 = d0\<lparr>calls := (calls d0)(tid \<mapsto> QueueMessageAsync m QSending)\<rparr>"
      unfolding check_step [OF nc c] using b by simp
    have r1: "reachable E l s d1" using r s by (rule reachable.step)
    have i1: "?before d1" unfolding d1 by simp
    show ?thesis
      by (rule run_invariant [where P = ?before, OF r1 i1 _ run1])
        (rule accepted_before_shutdown_step)
  qed
  have p5: "closedCond d \<noteq> None"
    if a: "closedCond d0 = None" "calls d0 tid = Some (Close CLocked)"
      "step E l d0 (Step tid) = Some d"
  proof -
    from a(2,3) have "stepClose tid CLocked d0 = Some d"
      by (simp add: step_def split: if_splits)
    then show ?thesis using a(1) by (cases rule: stepClose_cases) simp_all
  qed
  have p6: "d = d0\<lparr>calls := (calls d0)(tid \<mapsto> LogSuppressed)\<rparr>"
    if "strings_TrimSpace E (lm_Line msg) = []"
      "step E l d0 (CallLogRaw tid prefix msg) = Some d"
    using that by (auto simp: step_def rawMessage_def split: if_splits)
  from p1 p2 p3 p4 p5 p6 show ?thesis by (intro conjI impI)
qed

theorem queueMessageAsync_fails_iff_checked_after_shutdown_witness:
  "(\<exists>d0 d. reachable scriptedCollector (exampleLogger 2 4) (startSys []) d0 \<and>
      closedCond d0 \<noteq> None \<and>
      run scriptedCollector (exampleLogger 2 4) d0
        [CallQueueMessageAsync 2 (exampleRecord ''1''), Step 2, Step 2] = Some d \<and>
      calls d 2 = Some (QueueMessageAsync (exampleRecord ''1'') (QReturned (Some DriverClosed))) \<and>
      accepted d = [] \<and>
      (calls d 2 = Some (QueueMessageAsync (exampleRecord ''1'') QStart) \<or>
       calls d 2 = Some (QueueMessageAsync (exampleRecord ''1'') QLocked) \<or>
       calls d 2 = Some (QueueMessageAsync (exampleRecord ''1'') (QReturned (Some DriverClosed))))) \<and>
   (\<exists>d0 sched d'. reachable scriptedCollector (exampleLogger 2 4) (startSys []) d0 \<and>
      crashed d0 = None \<and> closedCond d0 \<noteq> None \<and> lockWriter d0 = Some (Caller 1) \<and>
      calls d0 2 = Some (QueueMessageAsync (exampleRecord ''1'') QStart) \<and>
      run scriptedCollector (exampleLogger 2 4) d0 sched = Some d' \<and>
      calls d' 2 = Some (QueueMessageAsync (exampleRecord ''1'') (QReturned (Some DriverClosed))) \<and>
      accepted d' = accepted d0 \<and> stream d' = stream d0) \<and>
   (\<exists>d0 d'. crashed d0 = None \<and> closedCond d0 = None \<and>
      calls d0 1 = Some (QueueMessageAsync (exampleRecord ''1'') QLocked) \<and>
      step scriptedCollector (exampleLogger 2 4) d0 (Step 1) = Some d' \<and>
      calls d' 1 = Some (QueueMessageAsync (exampleRecord ''1'') QSending)) \<and>
   (\<exists>d0 d. reachable scriptedCollector (exampleLogger 2 4) (startSys []) d0 \<and>
      closedCond d0 = None \<and>
      calls d0 1 = Some (QueueMessageAsync (exampleRecord ''1'') QLocked) \<and>
      run scriptedCollector (exampleLogger 2 4) d0 [Step 1, Step 1] = Some d \<and>
      accepted d = [exampleRecord ''1''] \<and>
      (calls d 1 = Some (QueueMessageAsync (exampleRecord ''1'') QSending) \<or>
       calls d 1 = Some (QueueMessageAsync (exampleRecord ''1'') (QReturned None)))) \<and>
   (\<exists>d0 d. closedCond d0 = None \<and> calls d0 1 = Some (Close CLocked) \<and>
      step scriptedCollector (exampleLogger 2 4) d0 (Step 1) = Some d \<and> closedCond d \<noteq> None) \<and>
   (\<exists>d. strings_TrimSpace scriptedCollector (lm_Line blankLine) = [] \<and>
      step scriptedCollector (exampleLogger 2 4) (initDriver (startSys [])) (CallLogRaw 1 ''p '' blankLine) =
        Some d \<and>
      calls d 1 = Some LogSuppressed \<and> stream d = [] \<and> accepted d = [])"
proof -
  let ?E = scriptedCollector and ?l = "exampleLogger 2 4" and ?s = "startSys [] :: int list sys"
  let ?r = "exampleRecord ''1''"
  have w1: "\<exists>d0 d. reachable ?E ?l ?s d0 \<and> closedCond d0 \<noteq> None \<and>
      run ?E ?l d0 [CallQueueMessageAsync 2 ?r, Step 2, Step 2] = Some d \<and>
      calls d 2 = Some (QueueMessageAsync ?r (QReturned (Some DriverClosed))) \<and>
      accepted d = [] \<and>
      (calls d 2 = Some (QueueMessageAsync ?r QStart) \<or>
       calls d 2 = Some (QueueMessageAsync ?r QLocked) \<or>
       calls d 2 = Some (QueueMessageAsync ?r (QReturned (Some DriverClosed))))"
  proof -
    have "\<exists>d0. run ?E ?l (initDriver ?s) [CallClose 1, Step 1, Step 1, Step 1, Step 1] = Some d0 \<and>
          closedCond d0 \<noteq> None \<and>
        (\<exists>d. run ?E ?l d0 [CallQueueMessageAsync 2 ?r, Step 2, Step 2] = Some d \<and>
          calls d 2 = Some (QueueMessageAsync ?r (QReturned (Some DriverClosed))) \<and>
          accepted d = [])"
      by (simp add: driver_defs example_defs)
    then obtain d0 d where
      r0: "run ?E ?l (initDriver ?s) [CallClose 1, Step 1, Step 1, Step 1, Step 1] = Some d0"
      and b: "closedCond d0 \<noteq> None"
      and r: "run ?E ?l d0 [CallQueueMessageAsync 2 ?r, Step 2, Step 2] = Some d"
      and c: "calls d 2 = Some (QueueMessageAsync ?r (QReturned (Some DriverClosed)))"
      and a: "accepted d = []" by blast
    have re: "reachable ?E ?l ?s d0" using reachable.init r0 by (rule run_reachable)
    have k: "CallQueueMessageAsync 2 ?r = CallQueueMessageAsync 2 ?r \<or>
       CallQueueMessageAsync 2 ?r = CallLogRaw 2 [] blankLine \<and>
       rawMessage ?E ?l [] blankLine = Some ?r" by simp
    from queueMessageAsync_fails_iff_checked_after_shutdown
      [where E = ?E and l = ?l and s = ?s and ?d0.0 = d0 and tid = 2 and m = ?r
         and a = "CallQueueMessageAsync 2 ?r" and prefix = "[]" and msg = blankLine
         and acts = "[Step 2, Step 2]" and d = d,
       THEN conjunct1, rule_format, OF re b k r]
    have "calls d 2 = Some (QueueMessageAsync ?r QStart) \<or>
       calls d 2 = Some (QueueMessageAsync ?r QLocked) \<or>
       calls d 2 = Some (QueueMessageAsync ?r (QReturned (Some DriverClosed)))" .
    with re b r c a show ?thesis by blast
  qed
  have w2: "\<exists>d0 sched d'. reachable ?E ?l ?s d0 \<and>
      crashed d0 = None \<and> closedCond d0 \<noteq> None \<and> lockWriter d0 = Some (Caller 1) \<and>
      calls d0 2 = Some (QueueMessageAsync ?r QStart) \<and>
      run ?E ?l d0 sched = Some d' \<and>
      calls d' 2 = Some (QueueMessageAsync ?r (QReturned (Some DriverClosed))) \<and>
      accepted d' = accepted d0 \<and> stream d' = stream d0"
  proof -
    have "\<exists>d0. run ?E ?l (initDriver ?s)
          [CallClose 1, Step 1, Step 1, CallQueueMessageAsync 2 ?r] = Some d0 \<and>
        crashed d0 = None \<and> closedCond d0 \<noteq> None \<and> lockWriter d0 = Some (Caller 1) \<and>
        calls d0 2 = Some (QueueMessageAsync ?r QStart)"
      by (simp add: driver_defs example_defs)
    then obtain d0 where
      r0: "run ?E ?l (initDriver ?s)
          [CallClose 1, Step 1, Step 1, CallQueueMessageAsync 2 ?r] = Some d0"
      and f: "crashed d0 = None" "closedCond d0 \<noteq> None" "lockWriter d0 = Some (Caller 1)"
        "calls d0 2 = Some (QueueMessageAsync ?r QStart)" by blast
    have re: "reachable ?E ?l ?s d0" using reachable.init r0 by (rule run_reachable)
    from queueMessageAsync_fails_iff_checked_after_shutdown
      [where E = ?E and l = ?l and s = ?s and ?d0.0 = d0 and tid = 2 and m = ?r,
       THEN conjunct2, THEN conjunct1, rule_format, OF re f(1,2,4)]
    obtain sched d' where "run ?E ?l d0 sched = Some d'"
      "calls d' 2 = Some (QueueMessageAsync ?r (QReturned (Some DriverClosed)))"
      "accepted d' = accepted d0" "stream d' = stream d0" by blast
    with re f show ?thesis by blast
  qed
  have "\<exists>d0. run ?E ?l (initDriver ?s) [CallQueueMessageAsync 1 ?r, Step 1] = Some d0 \<and>
        crashed d0 = None \<and> closedCond d0 = None \<and>
        calls d0 1 = Some (QueueMessageAsync ?r QLocked) \<and>
        (\<exists>d. run ?E ?l d0 [Step 1, Step 1] = Some d \<and> accepted d = [?r])"
    by (simp add: driver_defs example_defs)
  then obtain d0 d where
    r0: "run ?E ?l (initDriver ?s) [CallQueueMessageAsync 1 ?r, Step 1] = Some d0"
    and nc: "crashed d0 = None" and b: "closedCond d0 = None"
    and c0: "calls d0 1 = Some (QueueMessageAsync ?r QLocked)"
    and r: "run ?E ?l d0 [Step 1, Step 1] = Some d"
    and a: "accepted d = [?r]" by blast
  have re: "reachable ?E ?l ?s d0" using reachable.init r0 by (rule run_reachable)
  have w3: "\<exists>d0 d'. crashed d0 = None \<and> closedCond d0 = None \<and>
      calls d0 1 = Some (QueueMessageAsync ?r QLocked) \<and>
      step ?E ?l d0 (Step 1) = Some d' \<and>
      calls d' 1 = Some (QueueMessageAsync ?r QSending)"
  proof -
    from queueMessageAsync_fails_iff_checked_after_shutdown
      [where E = ?E and l = ?l and ?d0.0 = d0 and tid = 1 and m = ?r,
       THEN conjunct2, THEN conjunct2, THEN conjunct1, rule_format, OF nc c0]
    obtain d' where "step ?E ?l d0 (Step 1) = Some d'"
      "calls d' 1 = Some (QueueMessageAsync ?r
         (if closedCond d0 = None then QSending else QReturned (Some DriverClosed)))" by blast
    with nc b c0 show ?thesis by (intro exI [of _ d0] exI [of _ d']) simp
  qed
  have w4: "\<exists>d0 d. reachable ?E ?l ?s d0 \<and> closedCond d0 = None \<and>
      calls d0 1 = Some (QueueMessageAsync ?r QLocked) \<and>
      run ?E ?l d0 [Step 1, Step 1] = Some d \<and> accepted d = [?r] \<and>
      (calls d 1 = Some (QueueMessageAsync ?r QSending) \<or>
       calls d 1 = Some (QueueMessageAsync ?r (QReturned None)))"
  proof -
    from queueMessageAsync_fails_iff_checked_after_shutdown
      [where E = ?E and l = ?l and s = ?s and ?d0.0 = d0 and tid = 1 and m = ?r
         and acts = "[Step 1]" and d = d,
       THEN conjunct2, THEN conjunct2, THEN conjunct2, THEN conjunct1, rule_format, OF re b c0 r]
    have "calls d 1 = Some (QueueMessageAsync ?r QSending) \<or>
       calls d 1 = Some (QueueMessageAsync ?r (QReturned None))" .
    with re b c0 r a show ?thesis by blast
  qed
  have w5: "\<exists>d0 d. closedCond d0 = None \<and> calls d0 1 = Some (Close CLocked) \<and>
      step ?E ?l d0 (Step 1) = Some d \<and> closedCond d \<noteq> None"
  proof -
    have "\<exists>d0. run ?E ?l (initDriver ?s) [CallClose 1, Step 1] = Some d0 \<and>
        closedCond d0 = None \<and> calls d0 1 = Some (Close CLocked) \<and>
        (\<exists>d. step ?E ?l d0 (Step 1) = Some d)"
      by (simp add: driver_defs example_defs)
    then obtain d0 d where b: "closedCond d0 = None" and c0: "calls d0 1 = Some (Close CLocked)"
      and s: "step ?E ?l d0 (Step 1) = Some d" by blast
    from queueMessageAsync_fails_iff_checked_after_shutdown
      [where E = ?E and l = ?l and ?d0.0 = d0 and tid = 1 and d = d,
       THEN conjunct2, THEN conjunct2, THEN conjunct2, THEN conjunct2, THEN conjunct1,
       rule_format, OF b c0 s]
    have "closedCond d \<noteq> None" .
    with b c0 s show ?thesis by blast
  qed
  have w6: "\<exists>d. strings_TrimSpace ?E (lm_Line blankLine) = [] \<and>
      step ?E ?l (initDriver ?s) (CallLogRaw 1 ''p '' blankLine) = Some d \<and>
      calls d 1 = Some LogSuppressed \<and> stream d = [] \<and> accepted d = []"
  proof -
    have t: "strings_TrimSpace ?E (lm_Line blankLine) = []"
      by (simp add: scriptedCollector_def blankLine_def)
    have "\<exists>d. step ?E ?l (initDriver ?s) (CallLogRaw 1 ''p '' blankLine) = Some d"
      by (simp add: step_def initDriver_def)
    then obtain d where s: "step ?E ?l (initDriver ?s) (CallLogRaw 1 ''p '' blankLine) = Some d"
      by blast
    from queueMessageAsync_fails_iff_checked_after_shutdown
      [where E = ?E and l = ?l and ?d0.0 = "initDriver ?s" and tid = 1 and d = d
         and msg = blankLine and prefix = "''p ''",
       THEN conjunct2, THEN conjunct2, THEN conjunct2, THEN conjunct2, THEN conjunct2,
       rule_format, OF t s]
    have "d = (initDriver ?s)\<lparr>calls := (calls (initDriver ?s))(1 \<mapsto> LogSuppressed)\<rparr>" .
    then have "calls d 1 = Some LogSuppressed" "stream d = []" "accepted d = []"
      by (simp_all add: initDriver_def)
    with t s show ?thesis by blast
  qed
  from w1 w2 w3 w4 w5 w6 show ?thesis by (intro conjI)
qed

text \<open>
  A call made before any call of \<open>Close\<close> exists, which comes to its check only after
  \<open>Close\<close> has set \<open>closedCond\<close>, returns "driver is closed"; and a raw \<open>Log\<close> of a blank
  line made after the shutdown has begun returns nil.
\<close>

theorem queueMessageAsync_call_before_shutdown_counterexample:
  "(case run scriptedCollector (exampleLogger 2 4) (initDriver (startSys []))
       [CallQueueMessageAsync 1 (exampleRecord ''1'')] of
      None \<Rightarrow> False
    | Some d0 \<Rightarrow>
        closedCond d0 = None \<and> calls d0 2 = None \<and>
        calls d0 1 = Some (QueueMessageAsync (exampleRecord ''1'') QStart) \<and>
        (case run scriptedCollector (exampleLogger 2 4) d0
           [CallClose 2, Step 2, Step 2, Step 2, Step 2, Step 1, Step 1] of
           None \<Rightarrow> False
         | Some d \<Rightarrow>
             calls d 1 =
               Some (QueueMessageAsync (exampleRecord ''1'') (QReturned (Some DriverClosed))) \<and>
             accepted d = [] \<and> stream d = [])) \<and>
   (case run scriptedCollector (exampleLogger 2 4) (initDriver (startSys []))
       [CallClose 1, Step 1, Step 1, Step 1, Step 1] of
      None \<Rightarrow> False
    | Some d0 \<Rightarrow>
        closedCond d0 = Some [1] \<and> streamClosed d0 \<and>
        (case step scriptedCollector (exampleLogger 2 4) d0 (CallLogRaw 2 ''p '' blankLine) of
           None \<Rightarrow> False
         | Some d \<Rightarrow> calls d 2 = Some LogSuppressed))"
  by (simp add: driver_defs example_defs blankLine_def)

subsection \<open>The worker and the batch size\<close>

lemma smod_eq_0_iff_dvd: "(a smod (b::int) = 0) = (b dvd a)"
proof -
  have "(a smod b = 0) = (\<bar>a\<bar> mod \<bar>b\<bar> = 0)"
    by (cases "a = 0") (simp_all add: signed_modulo_int_def sgn_if)
  also have "\<dots> = (\<bar>b\<bar> dvd \<bar>a\<bar>)" by (simp add: dvd_eq_mod_eq_0)
  also have "\<dots> = (b dvd a)" by simp
  finally show ?thesis .
qed

lemma chunksSent_dvd: "chunksSent E l messages s0 j sj \<Longrightarrow> postMessagesBatchSize l dvd j"
  by (induction rule: chunksSent.induct) simp_all

lemma postMessagesFrom_panic_value:
  assumes "postMessagesFrom E l messages lastChance i s = Some y"
  shows "\<forall>p. y = Inl p \<longrightarrow> p = SliceBoundsOutOfRange"
proof (rule postMessagesFrom.raw_induct
    [where P = "\<lambda>E l messages lastChance i s y. \<forall>p. y = Inl p \<longrightarrow> p = SliceBoundsOutOfRange",
     OF _ assms], goal_cases)
  case (1 f E l messages lastChance i s y)
  show ?case
  proof (intro allI impI)
    fix p assume y: "y = Inl p"
    show "p = SliceBoundsOutOfRange"
    proof (cases "i < int (length messages)")
      case False
      with 1(2) y show ?thesis by (auto split: option.splits)
    next
      case True
      show ?thesis
      proof (cases "go_slice messages i (upperBoundAt l messages i)")
        case None
        with 1(2) True y show ?thesis by simp
      next
        case (Some chunk)
        obtain r s1 where t: "tryPostMessages E l chunk s = (r, s1)" by force
        show ?thesis
        proof (cases r)
          case None
          with 1(2) True Some t have "f E l messages lastChance (i + postMessagesBatchSize l) s1 = Some y"
            by simp
          from 1(1) [OF this] y show ?thesis by blast
        next
          case (Some err)
          with 1(2) True \<open>go_slice messages i (upperBoundAt l messages i) = Some chunk\<close> t y
          have "sendFailed E l messages lastChance i (upperBoundAt l messages i) err s1 = Inl p"
            by simp
          then show ?thesis
            by (auto simp: sendFailed_def Let_def split: if_splits option.splits)
        qed
      qed
    qed
  qed
qed

lemma postMessages_panic:
  "postMessages E l messages lastChance s = Some (Inl p) \<Longrightarrow> p = SliceBoundsOutOfRange"
  using postMessagesFrom_panic_value [of E l messages lastChance 0 s "Inl p"]
  by (simp add: postMessages_def)

lemma postMessages_total:
  assumes "postMessagesBatchSize l \<noteq> 0"
  shows "\<exists>y. postMessages E l messages lastChance s = Some y"
proof (cases "0 < postMessagesBatchSize l")
  case True
  from postMessagesFrom_returns [OF True, of 0 E messages lastChance s]
  show ?thesis by (auto simp: postMessages_def)
next
  case False
  with assms have n: "postMessagesBatchSize l < 0" by simp
  show ?thesis
  proof (cases "messages = []")
    case True
    then show ?thesis
      unfolding postMessages_def by (subst postMessagesFrom.simps) (simp add: go_slice_def)
  next
    case False
    with n have "go_slice messages 0 (upperBoundAt l messages 0) = None"
      by (simp add: go_slice_def upperBoundAt_def)
    with False show ?thesis
      unfolding postMessages_def by (subst postMessagesFrom.simps) simp
  qed
qed

lemma flush_removed_dvd:
  assumes p: "postMessages E l msgs lastChance s0 = Some (Inr (rest, s'))"
    and d: "postMessagesBatchSize l dvd int (length msgs)"
  shows "postMessagesBatchSize l dvd int (length msgs - length rest)"
proof -
  from postMessages_split [OF p] obtain j sj u where
    cs: "chunksSent E l msgs s0 j sj" and u: "u \<le> length msgs" "rest = drop u msgs"
    and alt: "u = length msgs \<or> int u = j \<or> int u = upperBoundAt l msgs j" by blast
  from u have e: "length msgs - length rest = u" by simp
  from chunksSent_dvd [OF cs] have dj: "postMessagesBatchSize l dvd j" .
  from alt d dj have "postMessagesBatchSize l dvd int u"
    by (auto simp: upperBoundAt_def split: if_splits)
  with e show ?thesis by simp
qed

lemma fullBatches_frame:
  "fullBatches l d \<Longrightarrow> flushes d' = flushes d \<Longrightarrow> (worker d' = WLoop \<Longrightarrow> worker d = WLoop) \<Longrightarrow>
   fullBatches l d'"
  by (auto simp: fullBatches_def)

lemma fullBatches_init: "fullBatches l (initDriver s)"
  by (simp add: fullBatches_def initDriver_def handled_def)

lemma fullBatches_workerMessage:
  assumes inv: "fullBatches l d" and s: "workerMessage E l m d = Some d'"
  shows "fullBatches l d'"
  using s
proof (cases rule: workerMessage_cases)
  case rem_panic
  show ?thesis by (rule fullBatches_frame [OF inv]) (simp_all add: rem_panic(2))
next
  case kept
  show ?thesis by (rule fullBatches_frame [OF inv]) (simp_all add: kept(3))
next
  case (flush_panic p)
  show ?thesis by (rule fullBatches_frame [OF inv]) (simp_all add: flush_panic(4))
next
  case (flushed rest s')
  from flushed(2) have d: "postMessagesBatchSize l dvd int (length (workerMessages d @ [m]))"
    by (simp only: smod_eq_0_iff_dvd)
  from flush_removed_dvd [OF flushed(3) d]
  have r: "postMessagesBatchSize l dvd int (length (workerMessages d @ [m]) - length rest)" .
  have w: "worker d' = worker d" and f: "flushes d' = flushes d @
      [\<lparr>fl_messages = workerMessages d @ [m], fl_lastChance = False,
        fl_before = effects d, fl_rest = rest, fl_after = s'\<rparr>]"
    by (simp_all add: flushed(4))
  have len: "length (handled (flushes d')) =
      length (handled (flushes d)) + (length (workerMessages d @ [m]) - length rest)"
    unfolding f handled_snoc by (simp add: removed_def)
  show ?thesis
    unfolding fullBatches_def
  proof
    assume "worker d' = WLoop"
    with w inv have "postMessagesBatchSize l dvd int (length (handled (flushes d)))"
      by (simp add: fullBatches_def)
    with r show "postMessagesBatchSize l dvd int (length (handled (flushes d')))"
      unfolding len by (simp only: of_nat_add dvd_add)
  qed
qed

lemma fullBatches_step:
  assumes inv: "fullBatches l d" and s: "step E l d a = Some d'" and nt: "a \<noteq> WorkerTick"
  shows "fullBatches l d'"
proof -
  from s have nc: "crashed d = None" by (simp add: step_def split: if_splits)
  show ?thesis
  proof (cases a)
    case (CallLogRaw tid prefix msg)
    with s nc have "flushes d' = flushes d" "worker d' = worker d"
      by (auto simp: step_def split: if_splits)
    with inv show ?thesis by (intro fullBatches_frame [OF inv]) simp_all
  next
    case (CallQueueMessageAsync tid message)
    with s nc have "flushes d' = flushes d" "worker d' = worker d"
      by (auto simp: step_def split: if_splits)
    with inv show ?thesis by (intro fullBatches_frame [OF inv]) simp_all
  next
    case (CallClose tid)
    with s nc have "flushes d' = flushes d" "worker d' = worker d"
      by (auto simp: step_def split: if_splits)
    with inv show ?thesis by (intro fullBatches_frame [OF inv]) simp_all
  next
    case (Step tid)
    show ?thesis
    proof (cases "calls d tid")
      case None
      with s nc Step show ?thesis by (simp add: step_def)
    next
      case (Some c)
      show ?thesis
      proof (cases c)
        case (QueueMessageAsync message pc)
        with s nc Step Some have q: "stepQueueMessageAsync l tid message pc d = Some d'"
          by (simp add: step_def)
        from q have "flushes d' = flushes d \<and> worker d' = worker d"
          by (cases rule: stepQueueMessageAsync_cases) simp_all
        then show ?thesis by (intro fullBatches_frame [OF inv]) simp_all
      next
        case (Close pc)
        with s nc Step Some have q: "stepClose tid pc d = Some d'"
          by (simp add: step_def)
        from q have "flushes d' = flushes d \<and> worker d' = worker d"
          by (cases rule: stepClose_cases) simp_all
        then show ?thesis by (intro fullBatches_frame [OF inv]) simp_all
      next
        case LogSuppressed
        with s nc Step Some show ?thesis by (simp add: step_def)
      qed
    qed
  next
    case WorkerReceive
    with s nc have q: "workerReceive E l d = Some d'" by (simp add: step_def)
    from q nc show ?thesis
    proof (cases rule: workerReceive_cases)
      case (message m queued)
      have "fullBatches l (d\<lparr>stream := queued\<rparr>)"
        by (rule fullBatches_frame [OF inv]) simp_all
      then show ?thesis using message(3) by (rule fullBatches_workerMessage)
    next
      case (last_panic p)
      show ?thesis by (rule fullBatches_frame [OF inv]) (simp_all add: last_panic(5))
    next
      case (last rest s')
      show ?thesis by (simp add: fullBatches_def last(5))
    qed
  next
    case (WorkerReceiveFrom tid)
    with s nc have q: "workerReceiveFrom E l tid d = Some d'" by (simp add: step_def)
    from q show ?thesis
    proof (cases rule: workerReceiveFrom_cases)
      case (1 m)
      have "fullBatches l (d\<lparr>accepted := accepted d @ [m], lockReaders := lockReaders d - {tid},
           calls := (calls d)(tid \<mapsto> QueueMessageAsync m (QReturned None))\<rparr>)"
        by (rule fullBatches_frame [OF inv]) simp_all
      then show ?thesis using 1(5) by (rule fullBatches_workerMessage)
    qed
  next
    case WorkerStart
    with s nc have q: "workerStart l d = Some d'" by (simp add: step_def)
    from q show ?thesis
    proof (cases rule: workerStart_cases)
      case ticker_panic
      show ?thesis unfolding ticker_panic(3) by (rule fullBatches_frame [OF inv]) simp_all
    next
      case ticker
      show ?thesis unfolding ticker(3) by (rule fullBatches_frame [OF inv]) simp_all
    qed
  next
    case WorkerTick
    with nt show ?thesis by simp
  next
    case WorkerStep
    with s nc have q: "workerStep d = Some d'" by (simp add: step_def)
    from q have "worker d' \<noteq> WLoop"
      by (cases rule: workerStep_cases) simp_all
    then show ?thesis by (simp add: fullBatches_def)
  qed
qed

lemma fullBatches_run:
  "fullBatches l d \<Longrightarrow> run E l d acts = Some d' \<Longrightarrow> WorkerTick \<notin> set acts \<Longrightarrow> fullBatches l d'"
proof (induction acts arbitrary: d)
  case Nil
  then show ?case by simp
next
  case (Cons a acts)
  from Cons.prems(2) obtain d1 where s: "step E l d a = Some d1" and r: "run E l d1 acts = Some d'"
    by (cases "step E l d a") simp_all
  from Cons.prems(3) have nt: "a \<noteq> WorkerTick" "WorkerTick \<notin> set acts" by auto
  from Cons.prems(1) s nt(1) have "fullBatches l d1" by (rule fullBatches_step)
  then show ?case using r nt(2) by (rule Cons.IH)
qed

lemma workerMessage_total: "\<exists>d'. workerMessage E l m d = Some d'"
proof (cases "postMessagesBatchSize l = 0")
  case True
  then show ?thesis by (simp add: workerMessage_def go_rem_def Let_def)
next
  case False
  from postMessages_total [OF False, of E "workerMessages d @ [m]" False "effects d"]
  obtain y where y: "postMessages E l (workerMessages d @ [m]) False (effects d) = Some y" by blast
  then have "\<exists>r. flushStep E l False (d\<lparr>workerMessages := workerMessages d @ [m]\<rparr>) = Some r"
    by (cases y) (auto simp: flushStep_def)
  then obtain r where "flushStep E l False (d\<lparr>workerMessages := workerMessages d @ [m]\<rparr>) = Some r"
    by blast
  with False show ?thesis
    by (cases r) (simp add: workerMessage_def go_rem_def Let_def)
qed

lemma worker_receives:
  assumes s: "step E l d a = Some d'"
    and a: "a = WorkerReceive \<and> stream d = m # queued \<or>
            a = WorkerReceiveFrom tid \<and> calls d tid = Some (QueueMessageAsync m QSending)"
  obtains d0 where "workerMessage E l m d0 = Some d'" "workerMessages d0 = workerMessages d"
    "effects d0 = effects d" "flushes d0 = flushes d" "crashed d0 = None" "worker d = WLoop"
    "accepted d0 = accepted d \<and> stream d = m # stream d0 \<or>
     accepted d0 = accepted d @ [m] \<and> stream d0 = [] \<and> stream d = []"
proof -
  from s have nc: "crashed d = None" by (simp add: step_def split: if_splits)
  from a show ?thesis
  proof
    assume h: "a = WorkerReceive \<and> stream d = m # queued"
    with s nc have q: "workerReceive E l d = Some d'" by (simp add: step_def)
    from q nc show ?thesis
    proof (cases rule: workerReceive_cases)
      case (message m' queued')
      with h have e: "m' = m" "queued' = queued" by simp_all
      show ?thesis
        by (rule that [of "d\<lparr>stream := queued\<rparr>"])
          (use message h nc in \<open>simp_all add: e\<close>)
    next
      case (last_panic p)
      with h show ?thesis by simp
    next
      case (last rest s')
      with h show ?thesis by simp
    qed
  next
    assume h: "a = WorkerReceiveFrom tid \<and> calls d tid = Some (QueueMessageAsync m QSending)"
    with s nc have q: "workerReceiveFrom E l tid d = Some d'" by (simp add: step_def)
    from q show ?thesis
    proof (cases rule: workerReceiveFrom_cases)
      case (1 m')
      with h have e: "m' = m" by simp
      show ?thesis
        by (rule that [of "d\<lparr>accepted := accepted d @ [m], lockReaders := lockReaders d - {tid},
           calls := (calls d)(tid \<mapsto> QueueMessageAsync m (QReturned None))\<rparr>"])
          (use 1 nc in \<open>simp_all add: e\<close>)
    qed
  qed
qed

text \<open>
  C4, as the code has it. The worker is in its loop, with its ticker, and a record waits
  on the stream: the receive can be taken at once, it does not wait for the timer. The
  worker receives the record \<open>m\<close>, from the buffer of the stream or from a caller blocked in
  its send, and appends it to its buffer.

  \<^item> If the batch size divides the length the buffer now has, \<open>postMessages\<close> is called in
    the same step on that buffer, with \<open>lastChance\<close> false: either it panics, or it returns
    and the worker keeps what it returns.
  \<^item> Otherwise there is no call: the effects and the history of calls are as they were, and
    the buffer is the old one with \<open>m\<close> at its end; a batch size of zero makes the remainder
    of line 409 panic.
  \<^item> In a run in which the timer has not fired, the batch size divides the number of
    records received so far exactly when it divides the length of the buffer, so the call
    is made exactly when the number of records received is a multiple of the batch size.
\<close>

theorem worker_flushes_iff_full_batch:
  "(worker d = WLoop \<longrightarrow> tickerCreated d \<longrightarrow> crashed d = None \<longrightarrow> stream d = m # queued \<longrightarrow>
      (\<exists>d'. step E l d WorkerReceive = Some d')) \<and>
   (step E l d a = Some d' \<longrightarrow>
    (a = WorkerReceive \<and> stream d = m # queued \<or>
     a = WorkerReceiveFrom tid \<and> calls d tid = Some (QueueMessageAsync m QSending)) \<longrightarrow>
      (postMessagesBatchSize l dvd int (length (workerMessages d @ [m])) \<longrightarrow>
         postMessages E l (workerMessages d @ [m]) False (effects d) =
           Some (Inl SliceBoundsOutOfRange) \<and>
         crashed d' = Some SliceBoundsOutOfRange \<and> flushes d' = flushes d \<or>
         (\<exists>rest s'. postMessages E l (workerMessages d @ [m]) False (effects d) =
              Some (Inr (rest, s')) \<and>
            crashed d' = None \<and> workerMessages d' = rest \<and> effects d' = s' \<and>
            flushes d' = flushes d @
              [\<lparr>fl_messages = workerMessages d @ [m], fl_lastChance = False,
                fl_before = effects d, fl_rest = rest, fl_after = s'\<rparr>])) \<and>
      (\<not> postMessagesBatchSize l dvd int (length (workerMessages d @ [m])) \<longrightarrow>
         workerMessages d' = workerMessages d @ [m] \<and> effects d' = effects d \<and>
         flushes d' = flushes d \<and>
         crashed d' = (if postMessagesBatchSize l = 0 then Some IntegerDivideByZero else None)) \<and>
      (run E l (initDriver s0) acts = Some d \<longrightarrow> WorkerTick \<notin> set acts \<longrightarrow>
         (postMessagesBatchSize l dvd int (received d')) =
         (postMessagesBatchSize l dvd int (length (workerMessages d @ [m])))))"
proof -
  let ?recv = "a = WorkerReceive \<and> stream d = m # queued \<or>
            a = WorkerReceiveFrom tid \<and> calls d tid = Some (QueueMessageAsync m QSending)"
  let ?full = "postMessagesBatchSize l dvd int (length (workerMessages d @ [m]))"
  let ?A = "postMessages E l (workerMessages d @ [m]) False (effects d) =
           Some (Inl SliceBoundsOutOfRange) \<and>
         crashed d' = Some SliceBoundsOutOfRange \<and> flushes d' = flushes d \<or>
         (\<exists>rest s'. postMessages E l (workerMessages d @ [m]) False (effects d) =
              Some (Inr (rest, s')) \<and>
            crashed d' = None \<and> workerMessages d' = rest \<and> effects d' = s' \<and>
            flushes d' = flushes d @
              [\<lparr>fl_messages = workerMessages d @ [m], fl_lastChance = False,
                fl_before = effects d, fl_rest = rest, fl_after = s'\<rparr>])"
  let ?B = "workerMessages d' = workerMessages d @ [m] \<and> effects d' = effects d \<and>
         flushes d' = flushes d \<and>
         crashed d' = (if postMessagesBatchSize l = 0 then Some IntegerDivideByZero else None)"
  let ?C = "(postMessagesBatchSize l dvd int (received d')) = ?full"
  have p0: "\<exists>d'. step E l d WorkerReceive = Some d'"
    if w: "worker d = WLoop" "tickerCreated d" "crashed d = None" "stream d = m # queued"
    using workerMessage_total [of E l m "d\<lparr>stream := queued\<rparr>"] w
    by (simp add: step_def workerReceive_def)
  have p1: ?A if s: "step E l d a = Some d'" and a: ?recv and dv: ?full
  proof -
    from s a obtain d0 where wm: "workerMessage E l m d0 = Some d'"
      and fr: "workerMessages d0 = workerMessages d" "effects d0 = effects d"
        "flushes d0 = flushes d" "crashed d0 = None"
      by (rule worker_receives)
    from dv have nz: "postMessagesBatchSize l \<noteq> 0" by auto
    from dv have z: "int (length (workerMessages d0 @ [m])) smod postMessagesBatchSize l = 0"
      unfolding fr(1) by (simp only: smod_eq_0_iff_dvd)
    from wm show ?thesis
    proof (cases rule: workerMessage_cases)
      case rem_panic
      with nz show ?thesis by simp
    next
      case kept
      with z show ?thesis by simp
    next
      case (flush_panic p)
      from postMessages_panic [OF flush_panic(3)] have p: "p = SliceBoundsOutOfRange" .
      from flush_panic(3,4) show ?thesis unfolding p by (simp add: fr)
    next
      case (flushed rest s')
      from flushed(3,4) show ?thesis by (simp add: fr)
    qed
  qed
  have p2: ?B if s: "step E l d a = Some d'" and a: ?recv and dv: "\<not> ?full"
  proof -
    from s a obtain d0 where wm: "workerMessage E l m d0 = Some d'"
      and fr: "workerMessages d0 = workerMessages d" "effects d0 = effects d"
        "flushes d0 = flushes d" "crashed d0 = None"
      by (rule worker_receives)
    from dv have z: "int (length (workerMessages d0 @ [m])) smod postMessagesBatchSize l \<noteq> 0"
      unfolding fr(1) by (simp only: smod_eq_0_iff_dvd) simp
    from wm show ?thesis
    proof (cases rule: workerMessage_cases)
      case rem_panic
      then show ?thesis by (simp add: fr)
    next
      case kept
      then show ?thesis by (simp add: fr)
    next
      case (flush_panic p)
      with z show ?thesis by simp
    next
      case (flushed rest s')
      with z show ?thesis by simp
    qed
  qed
  have p3: ?C if s: "step E l d a = Some d'" and a: ?recv
    and r: "run E l (initDriver s0) acts = Some d" and nt: "WorkerTick \<notin> set acts"
  proof -
    from s a obtain d0 where wm: "workerMessage E l m d0 = Some d'"
      and fr: "workerMessages d0 = workerMessages d" "worker d = WLoop"
      and acc: "accepted d0 = accepted d \<and> stream d = m # stream d0 \<or>
       accepted d0 = accepted d @ [m] \<and> stream d0 = [] \<and> stream d = []"
      by (rule worker_receives)
    have re: "reachable E l s0 d" using reachable.init r by (rule run_reachable)
    from reachable_driverInv [OF re] have hi: "historyInv E l d" unfolding driverInv_def by simp
    then have ad: "accepted d = handled (flushes d) @ workerMessages d @ stream d"
      unfolding historyInv_def using fr(2) by (simp add: pending_def)
    from workerMessage_frame(1,9) [OF wm] have e: "stream d' = stream d0" "accepted d' = accepted d0" .
    from acc have "received d' = length (handled (flushes d)) + length (workerMessages d @ [m])"
      unfolding received_def e using ad by auto
    moreover from fullBatches_run [OF fullBatches_init r nt] fr(2)
    have "postMessagesBatchSize l dvd int (length (handled (flushes d)))"
      by (simp add: fullBatches_def)
    ultimately show ?thesis
      by (simp only: of_nat_add dvd_add_right_iff)
  qed
  show ?thesis
  proof (rule conjI)
    show "worker d = WLoop \<longrightarrow> tickerCreated d \<longrightarrow> crashed d = None \<longrightarrow> stream d = m # queued \<longrightarrow>
      (\<exists>d'. step E l d WorkerReceive = Some d')"
      using p0 by blast
  next
    show "step E l d a = Some d' \<longrightarrow> ?recv \<longrightarrow>
      (?full \<longrightarrow> ?A) \<and> (\<not> ?full \<longrightarrow> ?B) \<and>
      (run E l (initDriver s0) acts = Some d \<longrightarrow> WorkerTick \<notin> set acts \<longrightarrow> ?C)"
    proof (intro impI)
      assume s: "step E l d a = Some d'" and a: ?recv
      from p1 [OF s a] have 1: "?full \<longrightarrow> ?A" by blast
      from p2 [OF s a] have 2: "\<not> ?full \<longrightarrow> ?B" by blast
      from p3 [OF s a] have 3: "run E l (initDriver s0) acts = Some d \<longrightarrow>
          WorkerTick \<notin> set acts \<longrightarrow> ?C" by blast
      from 1 2 3 show "(?full \<longrightarrow> ?A) \<and> (\<not> ?full \<longrightarrow> ?B) \<and>
        (run E l (initDriver s0) acts = Some d \<longrightarrow> WorkerTick \<notin> set acts \<longrightarrow> ?C)"
        by (intro conjI)
    qed
  qed
qed

theorem worker_flushes_iff_full_batch_witness:
  "(\<exists>d d'. run scriptedCollector (exampleLogger 2 4) (initDriver (startSys [200]))
        [WorkerStart, CallQueueMessageAsync 1 (exampleRecord ''1''), Step 1, Step 1, Step 1] = Some d \<and>
      stream d = [exampleRecord ''1''] \<and> workerMessages d = [] \<and>
      step scriptedCollector (exampleLogger 2 4) d WorkerReceive = Some d' \<and>
      workerMessages d' = [exampleRecord ''1''] \<and> flushes d' = [] \<and>
      requests (effects d') = [] \<and> crashed d' = None \<and> received d' = 1) \<and>
   (\<exists>d d'. run scriptedCollector (exampleLogger 2 4) (initDriver (startSys [200]))
        [WorkerStart, CallQueueMessageAsync 1 (exampleRecord ''1''), Step 1, Step 1, Step 1,
         CallQueueMessageAsync 2 (exampleRecord ''2''), Step 2, Step 2, Step 2,
         WorkerReceive] = Some d \<and>
      stream d = [exampleRecord ''2''] \<and> workerMessages d = [exampleRecord ''1''] \<and>
      step scriptedCollector (exampleLogger 2 4) d WorkerReceive = Some d' \<and>
      workerMessages d' = [] \<and> length (flushes d') = 1 \<and>
      requests (effects d') = [exampleRequest ''{1}{2}''] \<and> crashed d' = None \<and>
      received d' = 2)"
proof (rule conjI)
  let ?acts = "[WorkerStart, CallQueueMessageAsync 1 (exampleRecord ''1''), Step 1, Step 1, Step 1]"
  have "\<exists>d. run scriptedCollector (exampleLogger 2 4) (initDriver (startSys [200])) ?acts = Some d \<and>
      stream d = [exampleRecord ''1''] \<and> workerMessages d = [] \<and> worker d = WLoop \<and>
      tickerCreated d \<and> crashed d = None \<and> effects d = startSys [200] \<and> flushes d = [] \<and> accepted d = [exampleRecord ''1'']"
    by (simp add: driver_defs example_defs)
  then obtain d where
    r: "run scriptedCollector (exampleLogger 2 4) (initDriver (startSys [200])) ?acts = Some d"
    and d: "stream d = [exampleRecord ''1'']" "workerMessages d = []" "worker d = WLoop"
      "tickerCreated d" "crashed d = None" "effects d = startSys [200]" "flushes d = []"
      "accepted d = [exampleRecord ''1'']"
    by blast
  note t = worker_flushes_iff_full_batch [of d "exampleRecord ''1''" "[]" scriptedCollector
      "exampleLogger 2 4" WorkerReceive _ 0 "startSys [200]" ?acts]
  from t [THEN conjunct1] d obtain d' where
    s: "step scriptedCollector (exampleLogger 2 4) d WorkerReceive = Some d'" by blast
  have nf: "\<not> postMessagesBatchSize (exampleLogger 2 4) dvd
      int (length (workerMessages d @ [exampleRecord ''1'']))"
    by (simp add: d exampleLogger_def)
  from t [of d', THEN conjunct2, rule_format, OF s] d(1)
  have b: "\<not> postMessagesBatchSize (exampleLogger 2 4) dvd
        int (length (workerMessages d @ [exampleRecord ''1''])) \<longrightarrow>
      workerMessages d' = workerMessages d @ [exampleRecord ''1''] \<and> effects d' = effects d \<and>
      flushes d' = flushes d \<and>
      crashed d' = (if postMessagesBatchSize (exampleLogger 2 4) = 0
                    then Some IntegerDivideByZero else None)"
    and c: "run scriptedCollector (exampleLogger 2 4) (initDriver (startSys [200])) ?acts = Some d \<longrightarrow>
      WorkerTick \<notin> set ?acts \<longrightarrow>
      (postMessagesBatchSize (exampleLogger 2 4) dvd int (received d')) =
      (postMessagesBatchSize (exampleLogger 2 4) dvd
        int (length (workerMessages d @ [exampleRecord ''1''])))"
    by blast+
  from b nf have o: "workerMessages d' = [exampleRecord ''1'']" "effects d' = startSys [200]"
    "flushes d' = []" "crashed d' = None"
    by (simp_all add: d exampleLogger_def)
  from s d have "received d' = 1"
    by (auto simp: received_def driver_defs example_defs signed_modulo_int_def Let_def)
  with r d s o show "\<exists>d d'. run scriptedCollector (exampleLogger 2 4) (initDriver (startSys [200]))
        [WorkerStart, CallQueueMessageAsync 1 (exampleRecord ''1''), Step 1, Step 1, Step 1] = Some d \<and>
      stream d = [exampleRecord ''1''] \<and> workerMessages d = [] \<and>
      step scriptedCollector (exampleLogger 2 4) d WorkerReceive = Some d' \<and>
      workerMessages d' = [exampleRecord ''1''] \<and> flushes d' = [] \<and>
      requests (effects d') = [] \<and> crashed d' = None \<and> received d' = 1"
    by (intro exI [of _ d] exI [of _ d']) (simp add: startSys_def)
next
  let ?acts = "[WorkerStart, CallQueueMessageAsync 1 (exampleRecord ''1''), Step 1, Step 1, Step 1,
         CallQueueMessageAsync 2 (exampleRecord ''2''), Step 2, Step 2, Step 2,
         WorkerReceive]"
  have "\<exists>d. run scriptedCollector (exampleLogger 2 4) (initDriver (startSys [200])) ?acts = Some d \<and>
      stream d = [exampleRecord ''2''] \<and> workerMessages d = [exampleRecord ''1''] \<and>
      worker d = WLoop \<and> crashed d = None \<and> effects d = startSys [200] \<and> flushes d = [] \<and>
      (\<exists>d'. step scriptedCollector (exampleLogger 2 4) d WorkerReceive = Some d' \<and>
         requests (effects d') = [exampleRequest ''{1}{2}''] \<and> received d' = 2)"
    by (simp add: driver_defs flush_defs send_defs example_defs received_def signed_modulo_int_def)
  then obtain d d' where
    r: "run scriptedCollector (exampleLogger 2 4) (initDriver (startSys [200])) ?acts = Some d"
    and d: "stream d = [exampleRecord ''2'']" "workerMessages d = [exampleRecord ''1'']"
      "worker d = WLoop" "crashed d = None" "effects d = startSys [200]" "flushes d = []"
    and s: "step scriptedCollector (exampleLogger 2 4) d WorkerReceive = Some d'"
    and q: "requests (effects d') = [exampleRequest ''{1}{2}'']" "received d' = 2"
    by blast
  have f: "postMessagesBatchSize (exampleLogger 2 4) dvd
      int (length (workerMessages d @ [exampleRecord ''2'']))"
    by (simp add: d exampleLogger_def)
  from worker_flushes_iff_full_batch [of d "exampleRecord ''2''" "[]" scriptedCollector
      "exampleLogger 2 4" WorkerReceive d' 0 "startSys [200]" ?acts,
      THEN conjunct2, rule_format, OF s, THEN conjunct1, rule_format, OF _ f] d(1)
  have a: "postMessages scriptedCollector (exampleLogger 2 4)
        (workerMessages d @ [exampleRecord ''2'']) False (effects d) =
           Some (Inl SliceBoundsOutOfRange) \<and>
         crashed d' = Some SliceBoundsOutOfRange \<and> flushes d' = flushes d \<or>
         (\<exists>rest s'. postMessages scriptedCollector (exampleLogger 2 4)
              (workerMessages d @ [exampleRecord ''2'']) False (effects d) =
              Some (Inr (rest, s')) \<and>
            crashed d' = None \<and> workerMessages d' = rest \<and> effects d' = s' \<and>
            flushes d' = flushes d @
              [\<lparr>fl_messages = workerMessages d @ [exampleRecord ''2''], fl_lastChance = False,
                fl_before = effects d, fl_rest = rest, fl_after = s'\<rparr>])"
    by blast
  have p: "postMessages scriptedCollector (exampleLogger 2 4)
        (workerMessages d @ [exampleRecord ''2'']) False (effects d) =
      Some (Inr ([], \<lparr>world = [], requests = [exampleRequest ''{1}{2}''], dlog = []\<rparr>))"
    unfolding d by (simp add: flush_defs send_defs example_defs)
  from a p have o: "crashed d' = None" "workerMessages d' = []" "length (flushes d') = 1"
    by (auto simp: d)
  with r d s q show "\<exists>d d'. run scriptedCollector (exampleLogger 2 4) (initDriver (startSys [200]))
        [WorkerStart, CallQueueMessageAsync 1 (exampleRecord ''1''), Step 1, Step 1, Step 1,
         CallQueueMessageAsync 2 (exampleRecord ''2''), Step 2, Step 2, Step 2,
         WorkerReceive] = Some d \<and>
      stream d = [exampleRecord ''2''] \<and> workerMessages d = [exampleRecord ''1''] \<and>
      step scriptedCollector (exampleLogger 2 4) d WorkerReceive = Some d' \<and>
      workerMessages d' = [] \<and> length (flushes d') = 1 \<and>
      requests (effects d') = [exampleRequest ''{1}{2}''] \<and> crashed d' = None \<and>
      received d' = 2"
    by (intro exI [of _ d] exI [of _ d']) simp
qed

text \<open>
  Batch size 2. The first record is received, the timer fires and the record is sent; the
  second record is received. Two records have been enqueued and received, a multiple of the
  batch size, and no send is triggered: the buffer holds one record, which waits for the
  timer.
\<close>

theorem worker_count_after_tick_counterexample:
  "(case run scriptedCollector (exampleLogger 2 4) (initDriver (startSys [200]))
       [WorkerStart, CallQueueMessageAsync 1 (exampleRecord ''1''), Step 1, Step 1, Step 1,
        WorkerReceive, WorkerTick,
        CallQueueMessageAsync 2 (exampleRecord ''2''), Step 2, Step 2, Step 2] of
      None \<Rightarrow> False
    | Some d \<Rightarrow>
        accepted d = [exampleRecord ''1'', exampleRecord ''2''] \<and>
        stream d = [exampleRecord ''2''] \<and> workerMessages d = [] \<and>
        requests (effects d) = [exampleRequest ''{1}''] \<and> length (flushes d) = 1 \<and>
        (case step scriptedCollector (exampleLogger 2 4) d WorkerReceive of
           None \<Rightarrow> False
         | Some d' \<Rightarrow>
             received d' = 2 \<and> postMessagesBatchSize (exampleLogger 2 4) dvd int (received d') \<and>
             workerMessages d' = [exampleRecord ''2''] \<and> stream d' = [] \<and>
             requests (effects d') = [exampleRequest ''{1}''] \<and> flushes d' = flushes d \<and>
             crashed d' = None))"
  by (simp add: driver_defs flush_defs send_defs example_defs received_def signed_modulo_int_def)

subsection \<open>Log of the raw format\<close>










subsection \<open>New\<close>

lemma andThen_simps [simp]:
  "andThen (Inl err) f = Inl err" "andThen (Inr a) f = f a"
  by (simp_all add: andThen_def)

lemma andThen_Inl: "r = Inl err \<Longrightarrow> andThen r f = Inl err"
  by simp

lemma andThen_fails:
  "(\<And>a. r = Inr a \<Longrightarrow> \<exists>err. f a = Inl err) \<Longrightarrow> \<exists>err. andThen r f = Inl err"
  by (cases r) simp_all

lemma New_parseOptions:
  "parseOptions L info = Inl err \<Longrightarrow> New L E info s = (Failed err, s)"
  by (simp add: New_def)

lemma parseOptions_url:
  assumes "\<exists>err. parseURL L info = Inl err"
  shows "\<exists>err. parseOptions L info = Inl err"
  unfolding parseOptions_def
  by (rule andThen_fails) (use assms in auto)

lemma parseOptions_token:
  assumes "info_Config info splunkTokenKey = None"
  shows "\<exists>err. parseOptions L info = Inl err"
  unfolding parseOptions_def
  by (intro andThen_fails) (simp add: assms)

lemma parseOptions_insecure:
  assumes "boolOption info splunkInsecureSkipVerifyKey False = Inl e"
  shows "\<exists>err. parseOptions L info = Inl err"
  unfolding parseOptions_def
  by (intro andThen_fails) (simp add: assms)

lemma parseOptions_gzip:
  assumes "boolOption info splunkGzipCompressionKey False = Inl e"
  shows "\<exists>err. parseOptions L info = Inl err"
  unfolding parseOptions_def
  by (intro andThen_fails) (simp add: assms)

lemma parseOptions_level:
  assumes "info_Config info splunkGzipCompressionLevelKey = Some str"
    and "case strconv_ParseInt32 str of Inl err \<Rightarrow> True | Inr level \<Rightarrow> level < - 1 \<or> 9 < level"
  shows "\<exists>err. parseOptions L info = Inl err"
  unfolding parseOptions_def
  by (intro andThen_fails)
    (use assms in \<open>auto simp: gzip_DefaultCompression_def gzip_BestCompression_def
       split: sum.splits\<close>)

lemma parseOptions_indexAck:
  assumes "boolOption info splunkIndexAcknowledgment False = Inl e"
  shows "\<exists>err. parseOptions L info = Inl err"
  unfolding parseOptions_def
  by (intro andThen_fails) (simp add: assms)

lemma boolOption_fails:
  "info_Config info key = Some str \<Longrightarrow> strconv_ParseBool str = Inl err \<Longrightarrow>
   boolOption info key d = Inl err"
  by (simp add: boolOption_def)

lemma parseURL_fails:
  assumes "info_Config info splunkURLKey = None \<or>
    (\<exists>str. info_Config info splunkURLKey = Some str \<and>
       (case url_Parse L str of
          Inl err \<Rightarrow> True
        | Inr u \<Rightarrow> url_Scheme u \<notin> {''http'', ''https''} \<or> url_Path u \<notin> {[], ''/''} \<or>
            url_RawQuery u \<noteq> [] \<or> url_Fragment u \<noteq> []))"
  shows "\<exists>err. parseURL L info = Inl err"
proof (cases "info_Config info splunkURLKey")
  case None
  then show ?thesis by (simp add: parseURL_def)
next
  case (Some str)
  with assms have b: "case url_Parse L str of
          Inl err \<Rightarrow> True
        | Inr u \<Rightarrow> url_Scheme u \<notin> {''http'', ''https''} \<or> url_Path u \<notin> {[], ''/''} \<or>
            url_RawQuery u \<noteq> [] \<or> url_Fragment u \<noteq> []" by simp
  show ?thesis
  proof (cases "url_Parse L str")
    case (Inl err)
    with Some show ?thesis by (simp add: parseURL_def)
  next
    case (Inr u)
    with b have "url_Scheme u = [] \<or>
                   (url_Scheme u \<noteq> ''http'' \<and> url_Scheme u \<noteq> ''https'') \<or>
                   (url_Path u \<noteq> [] \<and> url_Path u \<noteq> ''/'') \<or>
                   url_RawQuery u \<noteq> [] \<or> url_Fragment u \<noteq> []" by auto
    with Some Inr show ?thesis by (simp add: parseURL_def)
  qed
qed

lemma getAdvancedOptionInt_value:
  "getAdvancedOptionInt L name d s = (v, s') \<Longrightarrow>
   v = d \<or> strconv_ParseInt32 (os_Getenv L name) = Inr v"
  by (auto simp: getAdvancedOptionInt_def Let_def split: if_splits sum.splits)

lemma New_after_options:
  assumes o: "parseOptions L info = Inr opts"
  obtains channelSize s4 splLogger where
    "getAdvancedOptionInt L envVarStreamChannelSize defaultStreamChannelSize
       (snd (getAdvancedOptionInt L envVarBufferMaximum defaultBufferMaximum
          (snd (getAdvancedOptionInt L envVarPostMessagesBatchSize defaultPostMessagesBatchSize
             (snd (getAdvancedOptionDuration L envVarPostMessagesFrequency
                defaultPostMessagesFrequency s)))))) = (channelSize, s4)"
    "channelSize < 0 \<Longrightarrow> New L E info s = (Panicked MakechanSizeOutOfRange, s4)"
    "0 \<le> channelSize \<Longrightarrow> boolOption info splunkVerifyConnectionKey True = Inl err \<Longrightarrow>
       New L E info s = (Failed err, s4)"
    "0 \<le> channelSize \<Longrightarrow> boolOption info splunkVerifyConnectionKey True = Inr verifyConnection \<Longrightarrow>
       New L E info s =
         (case (if verifyConnection then verifySplunkConnection E splLogger s4 else (None, s4)) of
            (Some err, s5) \<Rightarrow> (Failed err, s5)
          | (None, s5) \<Rightarrow>
              (case newWrapper
                      (case info_Config info splunkFormatKey of None \<Rightarrow> ''inline'' | Some f \<Rightarrow> f)
                      (opt_tag opts) (opt_extraAttrs opts) of
                 Inl err \<Rightarrow> (Failed err, s5)
               | Inr wrapper \<Rightarrow> (Started wrapper splLogger (initDriver s5), s5)))"
proof -
  obtain frequency s1 where a1: "getAdvancedOptionDuration L envVarPostMessagesFrequency
      defaultPostMessagesFrequency s = (frequency, s1)" by force
  obtain batchSize s2 where a2: "getAdvancedOptionInt L envVarPostMessagesBatchSize
      defaultPostMessagesBatchSize s1 = (batchSize, s2)" by force
  obtain maximum s3 where a3: "getAdvancedOptionInt L envVarBufferMaximum
      defaultBufferMaximum s2 = (maximum, s3)" by force
  obtain channelSize s4 where a4: "getAdvancedOptionInt L envVarStreamChannelSize
      defaultStreamChannelSize s3 = (channelSize, s4)" by force
  define splLogger where "splLogger =
                    \<lparr>url = url_String L (opt_splunkURL opts),
                     auth = ''Splunk '' @ opt_splunkToken opts,
                     nullMessage =
                       \<lparr>msg_Event = NilEvent, msg_Time = [], msg_Host = opt_hostname opts,
                        msg_Source = configOrEmpty info splunkSourceKey,
                        msg_SourceType = configOrEmpty info splunkSourceTypeKey,
                        msg_Index = configOrEmpty info splunkIndexKey\<rparr>,
                     gzipCompression = opt_gzipCompression opts,
                     gzipCompressionLevel = opt_gzipCompressionLevel opts,
                     postMessagesFrequency = frequency,
                     postMessagesBatchSize = batchSize,
                     bufferMaximum = maximum,
                     indexAck = opt_indexAck opts,
                     streamChannelSize = channelSize\<rparr>"
  show ?thesis
  proof (rule that [of channelSize s4 splLogger])
    show "getAdvancedOptionInt L envVarStreamChannelSize defaultStreamChannelSize
       (snd (getAdvancedOptionInt L envVarBufferMaximum defaultBufferMaximum
          (snd (getAdvancedOptionInt L envVarPostMessagesBatchSize defaultPostMessagesBatchSize
             (snd (getAdvancedOptionDuration L envVarPostMessagesFrequency
                defaultPostMessagesFrequency s)))))) = (channelSize, s4)"
      by (simp add: a1 a2 a3 a4)
  next
    assume "channelSize < 0"
    then show "New L E info s = (Panicked MakechanSizeOutOfRange, s4)"
      by (simp add: New_def o a1 a2 a3 a4)
  next
    assume "0 \<le> channelSize" "boolOption info splunkVerifyConnectionKey True = Inl err"
    then show "New L E info s = (Failed err, s4)"
      by (simp add: New_def o a1 a2 a3 a4 Let_def)
  next
    assume "0 \<le> channelSize" "boolOption info splunkVerifyConnectionKey True = Inr verifyConnection"
    then show "New L E info s =
         (case (if verifyConnection then verifySplunkConnection E splLogger s4 else (None, s4)) of
            (Some err, s5) \<Rightarrow> (Failed err, s5)
          | (None, s5) \<Rightarrow>
              (case newWrapper
                      (case info_Config info splunkFormatKey of None \<Rightarrow> ''inline'' | Some f \<Rightarrow> f)
                      (opt_tag opts) (opt_extraAttrs opts) of
                 Inl err \<Rightarrow> (Failed err, s5)
               | Inr wrapper \<Rightarrow> (Started wrapper splLogger (initDriver s5), s5)))"
      unfolding splLogger_def
      by (cases verifyConnection)
        (simp_all add: New_def o a1 a2 a3 a4 Let_def
          cong: prod.case_cong option.case_cong sum.case_cong)
  qed
qed

lemma New_late:
  assumes "(\<exists>str err. info_Config info splunkVerifyConnectionKey = Some str \<and>
              strconv_ParseBool str = Inl err) \<or>
           (\<exists>f. info_Config info splunkFormatKey = Some f \<and> f \<notin> {''inline'', ''json'', ''raw''})"
  shows "(\<exists>err s'. New L E info s = (Failed err, s')) \<or>
         (\<exists>s'. New L E info s = (Panicked MakechanSizeOutOfRange, s'))"
proof (cases "parseOptions L info")
  case (Inl err)
  from New_parseOptions [OF this] show ?thesis by blast
next
  case (Inr opts)
  obtain r where r: "boolOption info splunkVerifyConnectionKey True = r" by simp
  from Inr show ?thesis
  proof (rule New_after_options [where E = E and s = s and err = "projl r"
        and verifyConnection = "projr r"])
    fix channelSize :: int and s4 :: "'a sys" and splLogger
    assume p: "channelSize < 0 \<Longrightarrow> New L E info s = (Panicked MakechanSizeOutOfRange, s4)"
      and f: "0 \<le> channelSize \<Longrightarrow> boolOption info splunkVerifyConnectionKey True = Inl (projl r) \<Longrightarrow>
         New L E info s = (Failed (projl r), s4)"
      and g: "0 \<le> channelSize \<Longrightarrow>
         boolOption info splunkVerifyConnectionKey True = Inr (projr r) \<Longrightarrow>
         New L E info s =
         (case (if projr r then verifySplunkConnection E splLogger s4 else (None, s4)) of
            (Some err, s5) \<Rightarrow> (Failed err, s5)
          | (None, s5) \<Rightarrow>
              (case newWrapper
                      (case info_Config info splunkFormatKey of None \<Rightarrow> ''inline'' | Some f \<Rightarrow> f)
                      (opt_tag opts) (opt_extraAttrs opts) of
                 Inl err \<Rightarrow> (Failed err, s5)
               | Inr wrapper \<Rightarrow> (Started wrapper splLogger (initDriver s5), s5)))"
    show ?thesis
    proof (cases "channelSize < 0")
      case True
      from p [OF True] show ?thesis by blast
    next
      case False
      then have nn: "0 \<le> channelSize" by simp
      show ?thesis
      proof (cases r)
        case (Inl e)
        with f [OF nn] r show ?thesis by auto
      next
        case v: (Inr verifyConnection)
        with assms r have "\<exists>f. info_Config info splunkFormatKey = Some f \<and>
            f \<notin> {''inline'', ''json'', ''raw''}"
          by (auto simp: boolOption_def)
        then obtain fmt where fmt: "info_Config info splunkFormatKey = Some fmt"
          "fmt \<noteq> ''inline''" "fmt \<noteq> ''json''" "fmt \<noteq> ''raw''" by auto
        then have w: "newWrapper
                      (case info_Config info splunkFormatKey of None \<Rightarrow> ''inline'' | Some f \<Rightarrow> f)
                      (opt_tag opts) (opt_extraAttrs opts) = Inl (UnknownFormat fmt)"
          by (simp add: newWrapper_def Let_def)
        from g [OF nn] r v have n: "New L E info s =
         (case (if verifyConnection then verifySplunkConnection E splLogger s4 else (None, s4)) of
            (Some err, s5) \<Rightarrow> (Failed err, s5)
          | (None, s5) \<Rightarrow>
              (case newWrapper
                      (case info_Config info splunkFormatKey of None \<Rightarrow> ''inline'' | Some f \<Rightarrow> f)
                      (opt_tag opts) (opt_extraAttrs opts) of
                 Inl err \<Rightarrow> (Failed err, s5)
               | Inr wrapper \<Rightarrow> (Started wrapper splLogger (initDriver s5), s5)))" by auto
        obtain r5 s5 where
          c: "(if verifyConnection then verifySplunkConnection E splLogger s4 else (None, s4)) = (r5, s5)"
          by force
        show ?thesis
        proof (cases r5)
          case None
          with n c w have "New L E info s = (Failed (UnknownFormat fmt), s5)" by simp
          then show ?thesis by blast
        next
          case (Some err)
          with n c have "New L E info s = (Failed err, s5)" by simp
          then show ?thesis by blast
        qed
      qed
    qed
  qed
qed

lemma New_panic:
  assumes "New L E info s = (Panicked p, s')"
  shows "p = MakechanSizeOutOfRange \<and>
    (\<exists>n. strconv_ParseInt32 (os_Getenv L envVarStreamChannelSize) = Inr n \<and> n < 0)"
proof (cases "parseOptions L info")
  case (Inl err)
  from New_parseOptions [OF this, of E s] assms show ?thesis by simp
next
  case (Inr opts)
  obtain r where r: "boolOption info splunkVerifyConnectionKey True = r" by simp
  from Inr show ?thesis
  proof (rule New_after_options [where E = E and s = s and err = "projl r"
        and verifyConnection = "projr r"])
    fix channelSize :: int and s4 :: "'a sys" and splLogger
    assume a: "getAdvancedOptionInt L envVarStreamChannelSize defaultStreamChannelSize
       (snd (getAdvancedOptionInt L envVarBufferMaximum defaultBufferMaximum
          (snd (getAdvancedOptionInt L envVarPostMessagesBatchSize defaultPostMessagesBatchSize
             (snd (getAdvancedOptionDuration L envVarPostMessagesFrequency
                defaultPostMessagesFrequency s)))))) = (channelSize, s4)"
      and p: "channelSize < 0 \<Longrightarrow> New L E info s = (Panicked MakechanSizeOutOfRange, s4)"
      and f: "0 \<le> channelSize \<Longrightarrow> boolOption info splunkVerifyConnectionKey True = Inl (projl r) \<Longrightarrow>
         New L E info s = (Failed (projl r), s4)"
      and g: "0 \<le> channelSize \<Longrightarrow>
         boolOption info splunkVerifyConnectionKey True = Inr (projr r) \<Longrightarrow>
         New L E info s =
         (case (if projr r then verifySplunkConnection E splLogger s4 else (None, s4)) of
            (Some err, s5) \<Rightarrow> (Failed err, s5)
          | (None, s5) \<Rightarrow>
              (case newWrapper
                      (case info_Config info splunkFormatKey of None \<Rightarrow> ''inline'' | Some f \<Rightarrow> f)
                      (opt_tag opts) (opt_extraAttrs opts) of
                 Inl err \<Rightarrow> (Failed err, s5)
               | Inr wrapper \<Rightarrow> (Started wrapper splLogger (initDriver s5), s5)))"
    show ?thesis
    proof (cases "channelSize < 0")
      case True
      from getAdvancedOptionInt_value [OF a] True
      have "strconv_ParseInt32 (os_Getenv L envVarStreamChannelSize) = Inr channelSize"
        by (auto simp: defaultStreamChannelSize_def defaultPostMessagesBatchSize_def)
      with True p [OF True] assms show ?thesis by auto
    next
      case False
      then have nn: "0 \<le> channelSize" by simp
      show ?thesis
      proof (cases r)
        case (Inl e)
        with f [OF nn] r assms show ?thesis by auto
      next
        case v: (Inr verifyConnection)
        from g [OF nn] r v have n: "New L E info s =
         (case (if verifyConnection then verifySplunkConnection E splLogger s4 else (None, s4)) of
            (Some err, s5) \<Rightarrow> (Failed err, s5)
          | (None, s5) \<Rightarrow>
              (case newWrapper
                      (case info_Config info splunkFormatKey of None \<Rightarrow> ''inline'' | Some f \<Rightarrow> f)
                      (opt_tag opts) (opt_extraAttrs opts) of
                 Inl err \<Rightarrow> (Failed err, s5)
               | Inr wrapper \<Rightarrow> (Started wrapper splLogger (initDriver s5), s5)))" by auto
        with assms show ?thesis by (auto split: prod.splits option.splits sum.splits)
      qed
    qed
  qed
qed

lemmas new_defs = New_def parseOptions_def parseURL_def boolOption_def strconv_ParseBool_def
  strconv_ParseInt32_def getAdvancedOptionDuration_def getAdvancedOptionInt_def newWrapper_def
  rawPrefix_def configOrEmpty_def verifySplunkConnection_def Let_def
  splunkURLKey_def splunkTokenKey_def splunkSourceKey_def splunkSourceTypeKey_def
  splunkIndexKey_def splunkCAPathKey_def splunkInsecureSkipVerifyKey_def splunkFormatKey_def
  splunkVerifyConnectionKey_def splunkGzipCompressionKey_def splunkGzipCompressionLevelKey_def
  splunkIndexAcknowledgment_def tagKey_def defaultPostMessagesFrequency_def
  defaultPostMessagesBatchSize_def defaultBufferMaximum_def defaultStreamChannelSize_def
  envVarPostMessagesFrequency_def envVarPostMessagesBatchSize_def envVarBufferMaximum_def
  envVarStreamChannelSize_def gzip_DefaultCompression_def gzip_BestCompression_def
  exampleLib_def exampleInfo_def validConfig_def noEnv_def exampleNewLogger_def

lemma example_New_valid:
  "New (exampleLib noEnv) scriptedCollector (exampleInfo validConfig) (startSys []) =
     (Started (LoggerInline \<lparr>ev_Line = NilLine, ev_Source = [], ev_Tag = ''tag'', ev_Attrs = []\<rparr>)
        (exampleNewLogger 5000000000) (initDriver (startSys [])), startSys [])"
  by (simp add: new_defs)

text \<open>
  C9, as the code has it.

  \<^item> If \<open>splunk-url\<close> or \<open>splunk-token\<close> is missing, if the address cannot be parsed or is not
    of the form \<open>scheme://host:port\<close> with scheme http or https, if one of
    \<open>splunk-insecureskipverify\<close>, \<open>splunk-gzip\<close>, \<open>splunk-index-acknowledgment\<close> is no
    boolean, or if \<open>splunk-gzip-level\<close> is no 32 bit integer or lies outside -1 to 9, then
    \<open>New\<close> returns an error, with no effect on the outside; it does not come to line 332,
    so there is no worker.
  \<^item> If \<open>splunk-verify-connection\<close> is no boolean or \<open>splunk-format\<close> is none of inline,
    json and raw, \<open>New\<close> returns an error as well, unless it has panicked before it looks at
    them.
  \<^item> \<open>New\<close> panics only in \<open>make\<close>, when the channel size taken from the environment is
    negative.
  \<^item> A duration or an integer in the environment that cannot be parsed is no error:
    \<open>getAdvancedOptionDuration\<close> and \<open>getAdvancedOptionInt\<close> write an entry into the daemon
    log and return the default.
\<close>

theorem New_fails_on_malformed_options:
  "((info_Config info splunkURLKey = None \<or> info_Config info splunkTokenKey = None \<or>
     (\<exists>str. info_Config info splunkURLKey = Some str \<and>
        (case url_Parse L str of
           Inl err \<Rightarrow> True
         | Inr u \<Rightarrow> url_Scheme u \<notin> {''http'', ''https''} \<or> url_Path u \<notin> {[], ''/''} \<or>
             url_RawQuery u \<noteq> [] \<or> url_Fragment u \<noteq> [])) \<or>
     (\<exists>key str err.
        (key = splunkInsecureSkipVerifyKey \<or> key = splunkGzipCompressionKey \<or>
         key = splunkIndexAcknowledgment) \<and>
        info_Config info key = Some str \<and> strconv_ParseBool str = Inl err) \<or>
     (\<exists>str. info_Config info splunkGzipCompressionLevelKey = Some str \<and>
        (case strconv_ParseInt32 str of
           Inl err \<Rightarrow> True
         | Inr level \<Rightarrow> level < - 1 \<or> 9 < level))) \<longrightarrow>
    (\<exists>err. New L E info s = (Failed err, s))) \<and>
   (((\<exists>str err. info_Config info splunkVerifyConnectionKey = Some str \<and>
        strconv_ParseBool str = Inl err) \<or>
     (\<exists>f. info_Config info splunkFormatKey = Some f \<and> f \<notin> {''inline'', ''json'', ''raw''})) \<longrightarrow>
    (\<exists>err s'. New L E info s = (Failed err, s')) \<or>
    (\<exists>s'. New L E info s = (Panicked MakechanSizeOutOfRange, s'))) \<and>
   (New L E info s = (Panicked p, s') \<longrightarrow>
      p = MakechanSizeOutOfRange \<and>
      (\<exists>n. strconv_ParseInt32 (os_Getenv L envVarStreamChannelSize) = Inr n \<and> n < 0)) \<and>
   (os_Getenv L envName \<noteq> [] \<longrightarrow> time_ParseDuration L (os_Getenv L envName) = Inl err \<longrightarrow>
      getAdvancedOptionDuration L envName defaultValue s =
        (defaultValue, s\<lparr>dlog := dlog s @ [ErrorFailedToParseDuration envName defaultValue err]\<rparr>)) \<and>
   (os_Getenv L envName \<noteq> [] \<longrightarrow> strconv_ParseInt32 (os_Getenv L envName) = Inl err \<longrightarrow>
      getAdvancedOptionInt L envName defaultValue s =
        (defaultValue, s\<lparr>dlog := dlog s @ [ErrorFailedToParseInteger envName defaultValue err]\<rparr>))"
proof -
  let ?early = "info_Config info splunkURLKey = None \<or> info_Config info splunkTokenKey = None \<or>
     (\<exists>str. info_Config info splunkURLKey = Some str \<and>
        (case url_Parse L str of
           Inl err \<Rightarrow> True
         | Inr u \<Rightarrow> url_Scheme u \<notin> {''http'', ''https''} \<or> url_Path u \<notin> {[], ''/''} \<or>
             url_RawQuery u \<noteq> [] \<or> url_Fragment u \<noteq> [])) \<or>
     (\<exists>key str err.
        (key = splunkInsecureSkipVerifyKey \<or> key = splunkGzipCompressionKey \<or>
         key = splunkIndexAcknowledgment) \<and>
        info_Config info key = Some str \<and> strconv_ParseBool str = Inl err) \<or>
     (\<exists>str. info_Config info splunkGzipCompressionLevelKey = Some str \<and>
        (case strconv_ParseInt32 str of
           Inl err \<Rightarrow> True
         | Inr level \<Rightarrow> level < - 1 \<or> 9 < level))"
  let ?late = "(\<exists>str err. info_Config info splunkVerifyConnectionKey = Some str \<and>
        strconv_ParseBool str = Inl err) \<or>
     (\<exists>f. info_Config info splunkFormatKey = Some f \<and> f \<notin> {''inline'', ''json'', ''raw''})"
  have p1: "\<exists>err. New L E info s = (Failed err, s)" if e: ?early
  proof -
    have "\<exists>err. parseOptions L info = Inl err"
      using e
    proof (elim disjE exE conjE)
      assume "info_Config info splunkURLKey = None"
      then have "\<exists>err. parseURL L info = Inl err" by (intro parseURL_fails) simp
      then show ?thesis by (rule parseOptions_url)
    next
      assume "info_Config info splunkTokenKey = None"
      then show ?thesis by (rule parseOptions_token)
    next
      fix str
      assume "info_Config info splunkURLKey = Some str"
        "case url_Parse L str of
           Inl err \<Rightarrow> True
         | Inr u \<Rightarrow> url_Scheme u \<notin> {''http'', ''https''} \<or> url_Path u \<notin> {[], ''/''} \<or>
             url_RawQuery u \<noteq> [] \<or> url_Fragment u \<noteq> []"
      then have "\<exists>err. parseURL L info = Inl err" by (intro parseURL_fails) blast
      then show ?thesis by (rule parseOptions_url)
    next
      fix key str err
      assume c: "info_Config info key = Some str" "strconv_ParseBool str = Inl err"
        and "key = splunkInsecureSkipVerifyKey"
      with boolOption_fails [OF c] show ?thesis by (intro parseOptions_insecure) simp
    next
      fix key str err
      assume c: "info_Config info key = Some str" "strconv_ParseBool str = Inl err"
        and "key = splunkGzipCompressionKey"
      with boolOption_fails [OF c] show ?thesis by (intro parseOptions_gzip) simp
    next
      fix key str err
      assume c: "info_Config info key = Some str" "strconv_ParseBool str = Inl err"
        and "key = splunkIndexAcknowledgment"
      with boolOption_fails [OF c] show ?thesis by (intro parseOptions_indexAck) simp
    next
      fix str
      assume "info_Config info splunkGzipCompressionLevelKey = Some str"
        "case strconv_ParseInt32 str of
           Inl err \<Rightarrow> True
         | Inr level \<Rightarrow> level < - 1 \<or> 9 < level"
      then show ?thesis by (rule parseOptions_level)
    qed
    then obtain err where "parseOptions L info = Inl err" by blast
    from New_parseOptions [OF this] show ?thesis by blast
  qed
  have p2: "(\<exists>err s'. New L E info s = (Failed err, s')) \<or>
    (\<exists>s'. New L E info s = (Panicked MakechanSizeOutOfRange, s'))" if ?late
    using that by (rule New_late)
  have p3: "p = MakechanSizeOutOfRange \<and>
      (\<exists>n. strconv_ParseInt32 (os_Getenv L envVarStreamChannelSize) = Inr n \<and> n < 0)"
    if "New L E info s = (Panicked p, s')"
    using that by (rule New_panic)
  have p4: "getAdvancedOptionDuration L envName defaultValue s =
        (defaultValue, s\<lparr>dlog := dlog s @ [ErrorFailedToParseDuration envName defaultValue err]\<rparr>)"
    if "os_Getenv L envName \<noteq> []" "time_ParseDuration L (os_Getenv L envName) = Inl err"
    using that by (simp add: getAdvancedOptionDuration_def Let_def)
  have p5: "getAdvancedOptionInt L envName defaultValue s =
        (defaultValue, s\<lparr>dlog := dlog s @ [ErrorFailedToParseInteger envName defaultValue err]\<rparr>)"
    if "os_Getenv L envName \<noteq> []" "strconv_ParseInt32 (os_Getenv L envName) = Inl err"
    using that by (simp add: getAdvancedOptionInt_def Let_def)
  have c1: "?early \<longrightarrow> (\<exists>err. New L E info s = (Failed err, s))" using p1 by blast
  have c2: "?late \<longrightarrow> (\<exists>err s'. New L E info s = (Failed err, s')) \<or>
    (\<exists>s'. New L E info s = (Panicked MakechanSizeOutOfRange, s'))" using p2 by blast
  have c3: "New L E info s = (Panicked p, s') \<longrightarrow>
      p = MakechanSizeOutOfRange \<and>
      (\<exists>n. strconv_ParseInt32 (os_Getenv L envVarStreamChannelSize) = Inr n \<and> n < 0)"
    using p3 by blast
  have c4: "os_Getenv L envName \<noteq> [] \<longrightarrow> time_ParseDuration L (os_Getenv L envName) = Inl err \<longrightarrow>
      getAdvancedOptionDuration L envName defaultValue s =
        (defaultValue, s\<lparr>dlog := dlog s @ [ErrorFailedToParseDuration envName defaultValue err]\<rparr>)"
    using p4 by blast
  have c5: "os_Getenv L envName \<noteq> [] \<longrightarrow> strconv_ParseInt32 (os_Getenv L envName) = Inl err \<longrightarrow>
      getAdvancedOptionInt L envName defaultValue s =
        (defaultValue, s\<lparr>dlog := dlog s @ [ErrorFailedToParseInteger envName defaultValue err]\<rparr>)"
    using p5 by blast
  show ?thesis by (rule conjI [OF c1 conjI [OF c2 conjI [OF c3 conjI [OF c4 c5]]]])
qed

theorem New_fails_on_malformed_options_witness:
  "(info_Config (exampleInfo (validConfig(splunkTokenKey := None))) splunkTokenKey = None \<and>
    New (exampleLib noEnv) scriptedCollector (exampleInfo (validConfig(splunkTokenKey := None)))
      (startSys []) = (Failed (OptionExpected ''splunk-token''), startSys []) \<and>
    (\<exists>err. New (exampleLib noEnv) scriptedCollector
       (exampleInfo (validConfig(splunkTokenKey := None))) (startSys []) =
       (Failed err, startSys []))) \<and>
   (New (exampleLib noEnv) scriptedCollector
      (exampleInfo (validConfig(splunkURLKey \<mapsto> ''https://splunk:8088/x?y''))) (startSys []) =
      (Failed ExpectedURLFormat, startSys []) \<and>
    (\<exists>err. New (exampleLib noEnv) scriptedCollector
       (exampleInfo (validConfig(splunkURLKey \<mapsto> ''https://splunk:8088/x?y''))) (startSys []) =
       (Failed err, startSys []))) \<and>
   (strconv_ParseBool ''yes'' = Inl (LibError ''strconv.ParseBool: invalid syntax'') \<and>
    New (exampleLib noEnv) scriptedCollector
      (exampleInfo (validConfig(splunkGzipCompressionKey \<mapsto> ''yes''))) (startSys []) =
      (Failed (LibError ''strconv.ParseBool: invalid syntax''), startSys []) \<and>
    (\<exists>err. New (exampleLib noEnv) scriptedCollector
       (exampleInfo (validConfig(splunkGzipCompressionKey \<mapsto> ''yes''))) (startSys []) =
       (Failed err, startSys []))) \<and>
   (strconv_ParseInt32 ''10'' = Inr 10 \<and>
    New (exampleLib noEnv) scriptedCollector
      (exampleInfo (validConfig(splunkGzipCompressionLevelKey \<mapsto> ''10''))) (startSys []) =
      (Failed (NotSupportedLevel ''10''), startSys []) \<and>
    (\<exists>err. New (exampleLib noEnv) scriptedCollector
       (exampleInfo (validConfig(splunkGzipCompressionLevelKey \<mapsto> ''10''))) (startSys []) =
       (Failed err, startSys []))) \<and>
   (New (exampleLib noEnv) scriptedCollector
      (exampleInfo (validConfig(splunkFormatKey \<mapsto> ''xml''))) (startSys []) =
      (Failed (UnknownFormat ''xml''), startSys []) \<and>
    ((\<exists>err s'. New (exampleLib noEnv) scriptedCollector
        (exampleInfo (validConfig(splunkFormatKey \<mapsto> ''xml''))) (startSys []) = (Failed err, s')) \<or>
     (\<exists>s'. New (exampleLib noEnv) scriptedCollector
        (exampleInfo (validConfig(splunkFormatKey \<mapsto> ''xml''))) (startSys []) =
        (Panicked MakechanSizeOutOfRange, s')))) \<and>
   (New (exampleLib negativeChannelEnv) scriptedCollector
      (exampleInfo (validConfig(splunkFormatKey \<mapsto> ''xml''))) (startSys []) =
      (Panicked MakechanSizeOutOfRange, startSys []) \<and>
    (\<exists>n. strconv_ParseInt32 (os_Getenv (exampleLib negativeChannelEnv) envVarStreamChannelSize) =
       Inr n \<and> n < 0)) \<and>
   (os_Getenv (exampleLib badDurationEnv) envVarPostMessagesFrequency = ''fast'' \<and>
    time_ParseDuration (exampleLib badDurationEnv) ''fast'' = Inl (LibError ''time: invalid duration'') \<and>
    getAdvancedOptionDuration (exampleLib badDurationEnv) envVarPostMessagesFrequency
      defaultPostMessagesFrequency (startSys [] :: int list sys) =
      (defaultPostMessagesFrequency,
       \<lparr>world = [], requests = [],
        dlog = [ErrorFailedToParseDuration envVarPostMessagesFrequency defaultPostMessagesFrequency
           (LibError ''time: invalid duration'')]\<rparr>)) \<and>
   (strconv_ParseInt32 ''fast'' = Inl (LibError ''strconv.ParseInt: invalid syntax'') \<and>
    getAdvancedOptionInt (exampleLib (\<lambda>name. ''fast'')) envVarBufferMaximum
      defaultBufferMaximum (startSys [] :: int list sys) =
      (defaultBufferMaximum,
       \<lparr>world = [], requests = [],
        dlog = [ErrorFailedToParseInteger envVarBufferMaximum defaultBufferMaximum
           (LibError ''strconv.ParseInt: invalid syntax'')]\<rparr>))"
proof -
  let ?L = "exampleLib noEnv" and ?E = scriptedCollector and ?s = "startSys [] :: int list sys"
  note T = New_fails_on_malformed_options
  have w1: "info_Config (exampleInfo (validConfig(splunkTokenKey := None))) splunkTokenKey = None \<and>
    New ?L ?E (exampleInfo (validConfig(splunkTokenKey := None))) ?s =
      (Failed (OptionExpected ''splunk-token''), ?s) \<and>
    (\<exists>err. New ?L ?E (exampleInfo (validConfig(splunkTokenKey := None))) ?s = (Failed err, ?s))"
  proof -
    have h: "info_Config (exampleInfo (validConfig(splunkTokenKey := None))) splunkTokenKey = None"
      by (simp add: exampleInfo_def)
    from T [where L = ?L and E = ?E and s = ?s
        and info = "exampleInfo (validConfig(splunkTokenKey := None))", THEN conjunct1] h
    have "\<exists>err. New ?L ?E (exampleInfo (validConfig(splunkTokenKey := None))) ?s = (Failed err, ?s)"
      by blast
    moreover have "New ?L ?E (exampleInfo (validConfig(splunkTokenKey := None))) ?s =
      (Failed (OptionExpected ''splunk-token''), ?s)" by (simp add: new_defs)
    ultimately show ?thesis using h by blast
  qed
  have w2: "New ?L ?E (exampleInfo (validConfig(splunkURLKey \<mapsto> ''https://splunk:8088/x?y''))) ?s =
      (Failed ExpectedURLFormat, ?s) \<and>
    (\<exists>err. New ?L ?E (exampleInfo (validConfig(splunkURLKey \<mapsto> ''https://splunk:8088/x?y''))) ?s =
       (Failed err, ?s))"
  proof -
    let ?i = "exampleInfo (validConfig(splunkURLKey \<mapsto> ''https://splunk:8088/x?y''))"
    have h: "\<exists>str. info_Config ?i splunkURLKey = Some str \<and>
        (case url_Parse ?L str of
           Inl err \<Rightarrow> True
         | Inr u \<Rightarrow> url_Scheme u \<notin> {''http'', ''https''} \<or> url_Path u \<notin> {[], ''/''} \<or>
             url_RawQuery u \<noteq> [] \<or> url_Fragment u \<noteq> [])"
      by (intro exI [of _ "''https://splunk:8088/x?y''"]) (simp add: exampleInfo_def exampleLib_def)
    from T [where L = ?L and E = ?E and s = ?s and info = ?i, THEN conjunct1] h
    have "\<exists>err. New ?L ?E ?i ?s = (Failed err, ?s)" by blast
    moreover have "New ?L ?E ?i ?s = (Failed ExpectedURLFormat, ?s)" by (simp add: new_defs)
    ultimately show ?thesis by blast
  qed
  have w3: "strconv_ParseBool ''yes'' = Inl (LibError ''strconv.ParseBool: invalid syntax'') \<and>
    New ?L ?E (exampleInfo (validConfig(splunkGzipCompressionKey \<mapsto> ''yes''))) ?s =
      (Failed (LibError ''strconv.ParseBool: invalid syntax''), ?s) \<and>
    (\<exists>err. New ?L ?E (exampleInfo (validConfig(splunkGzipCompressionKey \<mapsto> ''yes''))) ?s =
       (Failed err, ?s))"
  proof -
    let ?i = "exampleInfo (validConfig(splunkGzipCompressionKey \<mapsto> ''yes''))"
    have b: "strconv_ParseBool ''yes'' = Inl (LibError ''strconv.ParseBool: invalid syntax'')"
      by (simp add: strconv_ParseBool_def)
    have h: "\<exists>key str err.
        (key = splunkInsecureSkipVerifyKey \<or> key = splunkGzipCompressionKey \<or>
         key = splunkIndexAcknowledgment) \<and>
        info_Config ?i key = Some str \<and> strconv_ParseBool str = Inl err"
      by (intro exI [of _ splunkGzipCompressionKey] exI [of _ "''yes''"]
          exI [of _ "LibError ''strconv.ParseBool: invalid syntax''"])
        (simp add: exampleInfo_def b)
    from T [where L = ?L and E = ?E and s = ?s and info = ?i, THEN conjunct1] h
    have "\<exists>err. New ?L ?E ?i ?s = (Failed err, ?s)" by blast
    moreover have "New ?L ?E ?i ?s = (Failed (LibError ''strconv.ParseBool: invalid syntax''), ?s)"
      by (simp add: new_defs)
    ultimately show ?thesis using b by blast
  qed
  have w4: "strconv_ParseInt32 ''10'' = Inr 10 \<and>
    New ?L ?E (exampleInfo (validConfig(splunkGzipCompressionLevelKey \<mapsto> ''10''))) ?s =
      (Failed (NotSupportedLevel ''10''), ?s) \<and>
    (\<exists>err. New ?L ?E (exampleInfo (validConfig(splunkGzipCompressionLevelKey \<mapsto> ''10''))) ?s =
       (Failed err, ?s))"
  proof -
    let ?i = "exampleInfo (validConfig(splunkGzipCompressionLevelKey \<mapsto> ''10''))"
    have b: "strconv_ParseInt32 ''10'' = Inr 10" by (simp add: strconv_ParseInt32_def Let_def)
    have h: "\<exists>str. info_Config ?i splunkGzipCompressionLevelKey = Some str \<and>
        (case strconv_ParseInt32 str of
           Inl err \<Rightarrow> True
         | Inr level \<Rightarrow> level < - 1 \<or> 9 < level)"
      by (intro exI [of _ "''10''"]) (simp add: exampleInfo_def b)
    from T [where L = ?L and E = ?E and s = ?s and info = ?i, THEN conjunct1] h
    have "\<exists>err. New ?L ?E ?i ?s = (Failed err, ?s)" by blast
    moreover have "New ?L ?E ?i ?s = (Failed (NotSupportedLevel ''10''), ?s)"
      by (simp add: new_defs)
    ultimately show ?thesis using b by blast
  qed
  have w5: "New ?L ?E (exampleInfo (validConfig(splunkFormatKey \<mapsto> ''xml''))) ?s =
      (Failed (UnknownFormat ''xml''), ?s) \<and>
    ((\<exists>err s'. New ?L ?E (exampleInfo (validConfig(splunkFormatKey \<mapsto> ''xml''))) ?s =
        (Failed err, s')) \<or>
     (\<exists>s'. New ?L ?E (exampleInfo (validConfig(splunkFormatKey \<mapsto> ''xml''))) ?s =
        (Panicked MakechanSizeOutOfRange, s')))"
  proof -
    let ?i = "exampleInfo (validConfig(splunkFormatKey \<mapsto> ''xml''))"
    have h: "(\<exists>str err. info_Config ?i splunkVerifyConnectionKey = Some str \<and>
        strconv_ParseBool str = Inl err) \<or>
      (\<exists>f. info_Config ?i splunkFormatKey = Some f \<and> f \<notin> {''inline'', ''json'', ''raw''})"
      by (intro disjI2 exI [of _ "''xml''"]) (simp add: exampleInfo_def)
    from T [where L = ?L and E = ?E and s = ?s and info = ?i,
        THEN conjunct2, THEN conjunct1, rule_format, OF h]
    have "(\<exists>err s'. New ?L ?E ?i ?s = (Failed err, s')) \<or>
     (\<exists>s'. New ?L ?E ?i ?s = (Panicked MakechanSizeOutOfRange, s'))" .
    moreover have "New ?L ?E ?i ?s = (Failed (UnknownFormat ''xml''), ?s)" by (simp add: new_defs)
    ultimately show ?thesis by (intro conjI)
  qed
  have w6: "New (exampleLib negativeChannelEnv) ?E
      (exampleInfo (validConfig(splunkFormatKey \<mapsto> ''xml''))) ?s =
      (Panicked MakechanSizeOutOfRange, ?s) \<and>
    (\<exists>n. strconv_ParseInt32 (os_Getenv (exampleLib negativeChannelEnv) envVarStreamChannelSize) =
       Inr n \<and> n < 0)"
  proof -
    let ?i = "exampleInfo (validConfig(splunkFormatKey \<mapsto> ''xml''))"
    have n: "New (exampleLib negativeChannelEnv) ?E ?i ?s = (Panicked MakechanSizeOutOfRange, ?s)"
      by (simp add: new_defs negativeChannelEnv_def)
    from T [where L = "exampleLib negativeChannelEnv" and E = ?E and s = ?s and info = ?i
        and p = MakechanSizeOutOfRange and s' = ?s,
        THEN conjunct2, THEN conjunct2, THEN conjunct1, rule_format, OF n]
    have "\<exists>n. strconv_ParseInt32 (os_Getenv (exampleLib negativeChannelEnv) envVarStreamChannelSize) =
       Inr n \<and> n < 0" by blast
    with n show ?thesis by (intro conjI)
  qed
  have w7: "os_Getenv (exampleLib badDurationEnv) envVarPostMessagesFrequency = ''fast'' \<and>
    time_ParseDuration (exampleLib badDurationEnv) ''fast'' = Inl (LibError ''time: invalid duration'') \<and>
    getAdvancedOptionDuration (exampleLib badDurationEnv) envVarPostMessagesFrequency
      defaultPostMessagesFrequency ?s =
      (defaultPostMessagesFrequency,
       \<lparr>world = [], requests = [],
        dlog = [ErrorFailedToParseDuration envVarPostMessagesFrequency defaultPostMessagesFrequency
           (LibError ''time: invalid duration'')]\<rparr>)"
  proof -
    have g: "os_Getenv (exampleLib badDurationEnv) envVarPostMessagesFrequency = ''fast''"
      by (simp add: exampleLib_def badDurationEnv_def)
    then have g': "os_Getenv (exampleLib badDurationEnv) envVarPostMessagesFrequency \<noteq> []" by simp
    have e: "time_ParseDuration (exampleLib badDurationEnv) ''fast'' =
        Inl (LibError ''time: invalid duration'')"
      by (simp add: exampleLib_def)
    from T [where L = "exampleLib badDurationEnv" and s = ?s
        and envName = envVarPostMessagesFrequency and defaultValue = defaultPostMessagesFrequency
        and err = "LibError ''time: invalid duration''",
        THEN conjunct2, THEN conjunct2, THEN conjunct2, THEN conjunct1, rule_format, OF g']
      e g
    have "getAdvancedOptionDuration (exampleLib badDurationEnv) envVarPostMessagesFrequency
      defaultPostMessagesFrequency ?s =
      (defaultPostMessagesFrequency,
       \<lparr>world = [], requests = [],
        dlog = [ErrorFailedToParseDuration envVarPostMessagesFrequency defaultPostMessagesFrequency
           (LibError ''time: invalid duration'')]\<rparr>)"
      by (simp add: startSys_def)
    with g e show ?thesis by (intro conjI)
  qed
  have w8: "strconv_ParseInt32 ''fast'' = Inl (LibError ''strconv.ParseInt: invalid syntax'') \<and>
    getAdvancedOptionInt (exampleLib (\<lambda>name. ''fast'')) envVarBufferMaximum
      defaultBufferMaximum ?s =
      (defaultBufferMaximum,
       \<lparr>world = [], requests = [],
        dlog = [ErrorFailedToParseInteger envVarBufferMaximum defaultBufferMaximum
           (LibError ''strconv.ParseInt: invalid syntax'')]\<rparr>)"
  proof -
    have g: "os_Getenv (exampleLib (\<lambda>name. ''fast'')) envVarBufferMaximum = ''fast''"
      by (simp add: exampleLib_def)
    then have g': "os_Getenv (exampleLib (\<lambda>name. ''fast'')) envVarBufferMaximum \<noteq> []" by simp
    have e: "strconv_ParseInt32 ''fast'' = Inl (LibError ''strconv.ParseInt: invalid syntax'')"
      by (simp add: strconv_ParseInt32_def Let_def)
    from T [where L = "exampleLib (\<lambda>name. ''fast'')" and s = ?s
        and envName = envVarBufferMaximum and defaultValue = defaultBufferMaximum
        and err = "LibError ''strconv.ParseInt: invalid syntax''",
        THEN conjunct2, THEN conjunct2, THEN conjunct2, THEN conjunct2, rule_format, OF g']
      e g
    have "getAdvancedOptionInt (exampleLib (\<lambda>name. ''fast'')) envVarBufferMaximum
      defaultBufferMaximum ?s =
      (defaultBufferMaximum,
       \<lparr>world = [], requests = [],
        dlog = [ErrorFailedToParseInteger envVarBufferMaximum defaultBufferMaximum
           (LibError ''strconv.ParseInt: invalid syntax'')]\<rparr>)"
      by (simp add: startSys_def)
    with e show ?thesis by (intro conjI)
  qed
  show ?thesis
    by (rule conjI [OF w1 conjI [OF w2 conjI [OF w3 conjI [OF w4 conjI [OF w5 conjI [OF w6
          conjI [OF w7 w8]]]]]]])
qed

text \<open>
  A configuration that is in order, and a frequency in the environment that is no
  duration: \<open>New\<close> reports it in the daemon log, takes the default of five seconds and
  returns the logger, with its worker started.
\<close>

theorem New_invalid_duration_counterexample:
  "os_Getenv (exampleLib badDurationEnv) envVarPostMessagesFrequency = ''fast'' \<and>
   time_ParseDuration (exampleLib badDurationEnv) ''fast'' = Inl (LibError ''time: invalid duration'') \<and>
   New (exampleLib badDurationEnv) scriptedCollector (exampleInfo validConfig) (startSys []) =
     (Started (LoggerInline \<lparr>ev_Line = NilLine, ev_Source = [], ev_Tag = ''tag'', ev_Attrs = []\<rparr>)
        (exampleNewLogger 5000000000)
        (initDriver \<lparr>world = [], requests = [],
                     dlog = [ErrorFailedToParseDuration envVarPostMessagesFrequency defaultPostMessagesFrequency
           (LibError ''time: invalid duration'')]\<rparr>),
      \<lparr>world = [], requests = [],
       dlog = [ErrorFailedToParseDuration envVarPostMessagesFrequency defaultPostMessagesFrequency
           (LibError ''time: invalid duration'')]\<rparr>)"
  by (simp add: new_defs badDurationEnv_def startSys_def)

end
